(* ===== verification/Prelude.thy ===== *)
theory Prelude
  imports Main "HOL-Library.Word" "HOL-Library.Monad_Syntax" "HOL-Library.Signed_Division"
begin

text \<open>
  Shared vocabulary of the development: the machine integers of the Rust sources as words,
  the integer operations of Rust's standard library that the sources call (masked shifts,
  checked and saturating arithmetic, bit counting, little-endian byte conversion), and the
  generic facts on words, bits and lists that the component theories use.

  A Rust unsigned or signed integer of width \<open>w\<close> is a \<open>w\<close>-bit word: signedness lives in
  the operations (\<open>sint\<close>, \<open>scast\<close> and \<open>signed_drop_bit\<close> for signed types, \<open>uint\<close>,
  \<open>ucast\<close> and \<open>drop_bit\<close> for unsigned ones), as it does on the machine.
\<close>

unbundle bit_operations_syntax

section \<open>Machine integers\<close>

type_synonym u8 = "8 word"
type_synonym u16 = "16 word"
type_synonym u32 = "32 word"
type_synonym u64 = "64 word"
type_synonym u128 = "128 word"
type_synonym i8 = "8 word"
type_synonym i16 = "16 word"
type_synonym i32 = "32 word"
type_synonym i64 = "64 word"
type_synonym i128 = "128 word"

named_theorems mask_simps \<open>numeral masks as \<open>take_bit\<close>\<close>
named_theorems upt_simps \<open>numeral index ranges spelled out\<close>
named_theorems word_bits_eq \<open>equality of words of a fixed width, bit by bit\<close>
named_theorems rust_int_defs \<open>definitions of the Rust integer operations\<close>

subsection \<open>Shifts\<close>

text \<open>
  Rust's \<open><<\<close> and \<open>>>\<close> take the shift amount modulo the width of the left operand (in a
  build without overflow checks; with them an amount of at least the width panics, and every
  caller below is shown to stay under it).
\<close>

definition shl :: "'a::len word \<Rightarrow> nat \<Rightarrow> 'a word" where
  [rust_int_defs]: "shl x s = push_bit (s mod LENGTH('a)) x"

definition shr :: "'a::len word \<Rightarrow> nat \<Rightarrow> 'a word" where
  [rust_int_defs]: "shr x s = drop_bit (s mod LENGTH('a)) x"

definition sar :: "'a::len word \<Rightarrow> nat \<Rightarrow> 'a word" where
  [rust_int_defs]: "sar x s = signed_drop_bit (s mod LENGTH('a)) x"

subsection \<open>Checked, saturating and counting operations\<close>

definition checked_add :: "'a::len word \<Rightarrow> 'a word \<Rightarrow> 'a word option" where
  [rust_int_defs]:
  "checked_add a b = (if unat a + unat b < 2 ^ LENGTH('a) then Some (a + b) else None)"

definition checked_sub :: "'a::len word \<Rightarrow> 'a word \<Rightarrow> 'a word option" where
  [rust_int_defs]: "checked_sub a b = (if b \<le> a then Some (a - b) else None)"

definition saturating_add :: "'a::len word \<Rightarrow> 'a word \<Rightarrow> 'a word" where
  [rust_int_defs]:
  "saturating_add a b = (if unat a + unat b < 2 ^ LENGTH('a) then a + b else - 1)"

definition checked_div :: "'a::len word \<Rightarrow> 'a word \<Rightarrow> 'a word option" where
  [rust_int_defs]: "checked_div a b = (if b = 0 then None else Some (a div b))"

definition word_bits :: "'a::len word \<Rightarrow> bool list" where
  "word_bits w = map (bit w) [0..<LENGTH('a)]"

definition trailing_ones :: "'a::len word \<Rightarrow> nat" where
  "trailing_ones w = length (takeWhile (\<lambda>b. b) (word_bits w))"

definition trailing_zeros :: "'a::len word \<Rightarrow> nat" where
  "trailing_zeros w = length (takeWhile Not (word_bits w))"

definition leading_zeros :: "'a::len word \<Rightarrow> nat" where
  "leading_zeros w = length (takeWhile Not (rev (word_bits w)))"

definition count_ones :: "'a::len word \<Rightarrow> nat" where
  "count_ones w = length (filter (\<lambda>b. b) (word_bits w))"

subsection \<open>Little-endian bytes\<close>

definition to_le_bytes :: "'a::len word \<Rightarrow> u8 list" where
  "to_le_bytes w = map (\<lambda>i. ucast (drop_bit (8 * i) w)) [0..<LENGTH('a) div 8]"

primrec from_le_bytes :: "u8 list \<Rightarrow> 'a::len word" where
  "from_le_bytes [] = 0"
| "from_le_bytes (b # bs) = ucast b OR push_bit 8 (from_le_bytes bs)"

section \<open>Bitwise reasoning on fixed-width words\<close>

lemma and_numeral_mask [mask_simps]:
  fixes w :: "'a::len word"
  shows "w AND 1 = take_bit 1 w" "w AND 3 = take_bit 2 w" "w AND 7 = take_bit 3 w"
    "w AND 15 = take_bit 4 w" "w AND 31 = take_bit 5 w" "w AND 63 = take_bit 6 w"
    "w AND 127 = take_bit 7 w" "w AND 255 = take_bit 8 w" "w AND 0x3ff = take_bit 10 w"
    "w AND 0xfff = take_bit 12 w"
  by (simp_all add: take_bit_eq_mask mask_numeral mask_eq_exp_minus_1)

lemma word_eq_list_all:
  "(a :: 'a::len word) = b \<longleftrightarrow> list_all (\<lambda>n. bit a n = bit b n) [0..<LENGTH('a)]"
  by (auto simp: list_all_iff intro: bit_word_eqI)

text \<open>
  Equality of two words of a concrete width becomes a conjunction of equalities of single bits,
  each of which the simplifier decides with \<open>bit_simps\<close> on numerals.
\<close>

lemma upt_8 [upt_simps]:
  "[0..<8] =
    [0, 1, 2, 3, 4, 5, 6, 7]"
  by code_simp

lemma upt_16 [upt_simps]:
  "[0..<16] =
    [0, 1, 2, 3, 4, 5, 6, 7, 8, 9, 10, 11, 12, 13, 14, 15]"
  by code_simp

lemma upt_32 [upt_simps]:
  "[0..<32] =
    [0, 1, 2, 3, 4, 5, 6, 7, 8, 9, 10, 11, 12, 13, 14, 15, 16, 17, 18, 19, 20, 21, 22,
     23, 24, 25, 26, 27, 28, 29, 30, 31]"
  by code_simp

lemma upt_64 [upt_simps]:
  "[0..<64] =
    [0, 1, 2, 3, 4, 5, 6, 7, 8, 9, 10, 11, 12, 13, 14, 15, 16, 17, 18, 19, 20, 21, 22,
     23, 24, 25, 26, 27, 28, 29, 30, 31, 32, 33, 34, 35, 36, 37, 38, 39, 40, 41, 42, 43,
     44, 45, 46, 47, 48, 49, 50, 51, 52, 53, 54, 55, 56, 57, 58, 59, 60, 61, 62, 63]"
  by code_simp

lemma word8_eq_iff [word_bits_eq]:
  "(a :: 8 word) = b \<longleftrightarrow> list_all (\<lambda>n. bit a n = bit b n) [0..<8]"
  by (simp add: word_eq_list_all)

lemma word16_eq_iff [word_bits_eq]:
  "(a :: 16 word) = b \<longleftrightarrow> list_all (\<lambda>n. bit a n = bit b n) [0..<16]"
  by (simp add: word_eq_list_all)

lemma word32_eq_iff [word_bits_eq]:
  "(a :: 32 word) = b \<longleftrightarrow> list_all (\<lambda>n. bit a n = bit b n) [0..<32]"
  by (simp add: word_eq_list_all)

lemma word64_eq_iff [word_bits_eq]:
  "(a :: 64 word) = b \<longleftrightarrow> list_all (\<lambda>n. bit a n = bit b n) [0..<64]"
  by (simp add: word_eq_list_all)

lemma not_bit_of_less:
  fixes w :: "'a::len word"
  assumes "w < 2 ^ k" and "k \<le> n"
  shows "\<not> bit w n"
proof -
  have "take_bit k w = w"
    using assms(1) by (simp add: take_bit_eq_mask less_mask_eq)
  then show ?thesis
    using assms(2) by (metis bit_take_bit_iff leD)
qed

lemma bit_u8_ge: "8 \<le> n \<Longrightarrow> bit (w :: u8) n = False"
  by (auto dest: bit_imp_le_length)

lemma take_bit_lessI: "k < LENGTH('a) \<Longrightarrow> take_bit k w < (2 ^ k :: 'a::len word)"
  by (simp add: take_bit_eq_mask and_mask_less')

lemma unat_of_nat_less: "n < 2 ^ LENGTH('a) \<Longrightarrow> unat (of_nat n :: 'a::len word) = n"
  by (simp add: unat_of_nat)

lemma unat_ucast_up:
  assumes "LENGTH('a) \<le> LENGTH('b)"
  shows "unat (ucast (x :: 'a::len word) :: 'b::len word) = unat x"
proof -
  have "unat x < 2 ^ LENGTH('a)" by (rule unsigned_less)
  also have "(2 :: nat) ^ LENGTH('a) \<le> 2 ^ LENGTH('b)" using assms by simp
  finally show ?thesis by (simp add: unsigned_ucast_eq take_bit_nat_eq_self)
qed

section \<open>Little-endian conversion\<close>

lemma length_to_le_bytes [simp]: "length (to_le_bytes (w :: 'a::len word)) = LENGTH('a) div 8"
  by (simp add: to_le_bytes_def)

lemma bit_from_le_bytes:
  "bit (from_le_bytes bs :: 'a::len word) n \<longleftrightarrow>
    n < LENGTH('a) \<and> n div 8 < length bs \<and> bit (bs ! (n div 8)) (n mod 8)"
proof (induction bs arbitrary: n)
  case (Cons b bs)
  show ?case
  proof (cases "n < 8")
    case True
    then show ?thesis by (auto simp: bit_or_iff bit_push_bit_iff bit_ucast_iff)
  next
    case False
    then obtain k where k: "n = 8 + k" by (metis le_iff_add not_less)
    have "\<not> bit b n" using False by (auto dest: bit_imp_le_length)
    moreover have "(8 + k) div 8 = Suc (k div 8)" by simp
    ultimately show ?thesis
      using Cons.IH [of k] by (auto simp: k bit_or_iff bit_push_bit_iff bit_ucast_iff)
  qed
qed simp

lemma from_le_bytes_to_le_bytes:
  fixes w :: "'a::len word"
  assumes "8 dvd LENGTH('a)"
  shows "from_le_bytes (to_le_bytes w) = w"
proof (rule bit_word_eqI)
  fix n assume n: "n < LENGTH('a)"
  then have "n div 8 < LENGTH('a) div 8"
    using assms by (auto elim!: dvdE)
  then show "bit (from_le_bytes (to_le_bytes w) :: 'a word) n = bit w n"
    using n by (simp add: bit_from_le_bytes to_le_bytes_def bit_ucast_iff bit_drop_bit_eq)
qed

lemma to_le_bytes_from_le_bytes:
  assumes "8 dvd LENGTH('a::len)" and "length bs = LENGTH('a) div 8"
  shows "to_le_bytes (from_le_bytes bs :: 'a word) = bs"
proof (rule nth_equalityI)
  fix i assume "i < length (to_le_bytes (from_le_bytes bs :: 'a word))"
  then have i: "i < LENGTH('a) div 8" by simp
  then have "8 * i + k < LENGTH('a)" if "k < 8" for k
    using that assms(1) by (auto elim!: dvdE)
  then show "to_le_bytes (from_le_bytes bs :: 'a word) ! i = bs ! i"
    using i assms
    by (intro bit_word_eqI)
      (auto simp: to_le_bytes_def bit_ucast_iff bit_drop_bit_eq bit_from_le_bytes)
qed (simp add: assms)

end
