(* ===== verification/Riscv_Registers.thy ===== *)
theory Riscv_Registers
  imports Prelude
begin

text \<open>
  General purpose registers: the register enumerations \<open>EReg\<close> and \<open>Reg\<close>
  (crates/execution/ab-riscv-primitives/src/registers/general\_purpose.rs) and
  \<open>ContractRegister\<close> (crates/contracts/core/ab-contract-file/src/instruction.rs), and the register
  files \<open>BasicRegisters\<close> (crates/execution/ab-riscv-interpreter/src/basic.rs) and
  \<open>ContractRegisters\<close>.

  The traits \<open>Register\<close> and \<open>BasicRegister\<close> are one record of operations, \<open>register\<close>; a function
  generic over \<open>Reg: Register\<close> takes such a record. The laws the traits ask of an implementation
  (their safety comments) are the locale \<open>basic_register\<close>, those of \<open>RegisterFile\<close> the locale
  \<open>register_file\<close>; both are interpreted for the three register types. The variant
  \<open>Phantom\<close> of the Rust enumerations is never constructed and has no constructor here.
\<close>

section \<open>Register enumerations\<close>

datatype EReg =
    Zero | Ra | Sp | Gp | Tp | T0 | T1 | T2 | S0 | S1 | A0 | A1 | A2 | A3 | A4 | A5

datatype Reg =
    Zero | Ra | Sp | Gp | Tp | T0 | T1 | T2 | S0 | S1 | A0 | A1 | A2 | A3 | A4 | A5 | A6
    | A7 | S2 | S3 | S4 | S5 | S6 | S7 | S8 | S9 | S10 | S11 | T3 | T4 | T5 | T6

datatype ContractRegister =
    Zero | Ra | Sp | T0 | T1 | T2 | S0 | S1 | A0 | A1 | A2 | A3 | A4 | A5 | A6 | A7 | S2
    | S3 | S4 | S5 | S6 | S7 | S8 | S9 | S10 | S11 | T3 | T4 | T5 | T6

text \<open>\<open>offset\<close> of \<open>BasicRegister\<close>: the discriminant of the \<open>repr(u8)\<close> enumeration.\<close>

primrec offset_EReg :: "EReg \<Rightarrow> u8" where
  "offset_EReg EReg.Zero = 0"
| "offset_EReg EReg.Ra = 1"
| "offset_EReg EReg.Sp = 2"
| "offset_EReg EReg.Gp = 3"
| "offset_EReg EReg.Tp = 4"
| "offset_EReg EReg.T0 = 5"
| "offset_EReg EReg.T1 = 6"
| "offset_EReg EReg.T2 = 7"
| "offset_EReg EReg.S0 = 8"
| "offset_EReg EReg.S1 = 9"
| "offset_EReg EReg.A0 = 10"
| "offset_EReg EReg.A1 = 11"
| "offset_EReg EReg.A2 = 12"
| "offset_EReg EReg.A3 = 13"
| "offset_EReg EReg.A4 = 14"
| "offset_EReg EReg.A5 = 15"

primrec offset_Reg :: "Reg \<Rightarrow> u8" where
  "offset_Reg Reg.Zero = 0"
| "offset_Reg Reg.Ra = 1"
| "offset_Reg Reg.Sp = 2"
| "offset_Reg Reg.Gp = 3"
| "offset_Reg Reg.Tp = 4"
| "offset_Reg Reg.T0 = 5"
| "offset_Reg Reg.T1 = 6"
| "offset_Reg Reg.T2 = 7"
| "offset_Reg Reg.S0 = 8"
| "offset_Reg Reg.S1 = 9"
| "offset_Reg Reg.A0 = 10"
| "offset_Reg Reg.A1 = 11"
| "offset_Reg Reg.A2 = 12"
| "offset_Reg Reg.A3 = 13"
| "offset_Reg Reg.A4 = 14"
| "offset_Reg Reg.A5 = 15"
| "offset_Reg Reg.A6 = 16"
| "offset_Reg Reg.A7 = 17"
| "offset_Reg Reg.S2 = 18"
| "offset_Reg Reg.S3 = 19"
| "offset_Reg Reg.S4 = 20"
| "offset_Reg Reg.S5 = 21"
| "offset_Reg Reg.S6 = 22"
| "offset_Reg Reg.S7 = 23"
| "offset_Reg Reg.S8 = 24"
| "offset_Reg Reg.S9 = 25"
| "offset_Reg Reg.S10 = 26"
| "offset_Reg Reg.S11 = 27"
| "offset_Reg Reg.T3 = 28"
| "offset_Reg Reg.T4 = 29"
| "offset_Reg Reg.T5 = 30"
| "offset_Reg Reg.T6 = 31"

primrec offset_ContractRegister :: "ContractRegister \<Rightarrow> u8" where
  "offset_ContractRegister ContractRegister.Zero = 0"
| "offset_ContractRegister ContractRegister.Ra = 1"
| "offset_ContractRegister ContractRegister.Sp = 2"
| "offset_ContractRegister ContractRegister.T0 = 5"
| "offset_ContractRegister ContractRegister.T1 = 6"
| "offset_ContractRegister ContractRegister.T2 = 7"
| "offset_ContractRegister ContractRegister.S0 = 8"
| "offset_ContractRegister ContractRegister.S1 = 9"
| "offset_ContractRegister ContractRegister.A0 = 10"
| "offset_ContractRegister ContractRegister.A1 = 11"
| "offset_ContractRegister ContractRegister.A2 = 12"
| "offset_ContractRegister ContractRegister.A3 = 13"
| "offset_ContractRegister ContractRegister.A4 = 14"
| "offset_ContractRegister ContractRegister.A5 = 15"
| "offset_ContractRegister ContractRegister.A6 = 16"
| "offset_ContractRegister ContractRegister.A7 = 17"
| "offset_ContractRegister ContractRegister.S2 = 18"
| "offset_ContractRegister ContractRegister.S3 = 19"
| "offset_ContractRegister ContractRegister.S4 = 20"
| "offset_ContractRegister ContractRegister.S5 = 21"
| "offset_ContractRegister ContractRegister.S6 = 22"
| "offset_ContractRegister ContractRegister.S7 = 23"
| "offset_ContractRegister ContractRegister.S8 = 24"
| "offset_ContractRegister ContractRegister.S9 = 25"
| "offset_ContractRegister ContractRegister.S10 = 26"
| "offset_ContractRegister ContractRegister.S11 = 27"
| "offset_ContractRegister ContractRegister.T3 = 28"
| "offset_ContractRegister ContractRegister.T4 = 29"
| "offset_ContractRegister ContractRegister.T5 = 30"
| "offset_ContractRegister ContractRegister.T6 = 31"

definition from_bits_EReg :: "u8 \<Rightarrow> EReg option" where
  "from_bits_EReg bits =
    (if bits = 0 then Some EReg.Zero
     else if bits = 1 then Some EReg.Ra
     else if bits = 2 then Some EReg.Sp
     else if bits = 3 then Some EReg.Gp
     else if bits = 4 then Some EReg.Tp
     else if bits = 5 then Some EReg.T0
     else if bits = 6 then Some EReg.T1
     else if bits = 7 then Some EReg.T2
     else if bits = 8 then Some EReg.S0
     else if bits = 9 then Some EReg.S1
     else if bits = 10 then Some EReg.A0
     else if bits = 11 then Some EReg.A1
     else if bits = 12 then Some EReg.A2
     else if bits = 13 then Some EReg.A3
     else if bits = 14 then Some EReg.A4
     else if bits = 15 then Some EReg.A5
     else None)"

definition from_bits_Reg :: "u8 \<Rightarrow> Reg option" where
  "from_bits_Reg bits =
    (if bits = 0 then Some Reg.Zero
     else if bits = 1 then Some Reg.Ra
     else if bits = 2 then Some Reg.Sp
     else if bits = 3 then Some Reg.Gp
     else if bits = 4 then Some Reg.Tp
     else if bits = 5 then Some Reg.T0
     else if bits = 6 then Some Reg.T1
     else if bits = 7 then Some Reg.T2
     else if bits = 8 then Some Reg.S0
     else if bits = 9 then Some Reg.S1
     else if bits = 10 then Some Reg.A0
     else if bits = 11 then Some Reg.A1
     else if bits = 12 then Some Reg.A2
     else if bits = 13 then Some Reg.A3
     else if bits = 14 then Some Reg.A4
     else if bits = 15 then Some Reg.A5
     else if bits = 16 then Some Reg.A6
     else if bits = 17 then Some Reg.A7
     else if bits = 18 then Some Reg.S2
     else if bits = 19 then Some Reg.S3
     else if bits = 20 then Some Reg.S4
     else if bits = 21 then Some Reg.S5
     else if bits = 22 then Some Reg.S6
     else if bits = 23 then Some Reg.S7
     else if bits = 24 then Some Reg.S8
     else if bits = 25 then Some Reg.S9
     else if bits = 26 then Some Reg.S10
     else if bits = 27 then Some Reg.S11
     else if bits = 28 then Some Reg.T3
     else if bits = 29 then Some Reg.T4
     else if bits = 30 then Some Reg.T5
     else if bits = 31 then Some Reg.T6
     else None)"

definition from_bits_ContractRegister :: "u8 \<Rightarrow> ContractRegister option" where
  "from_bits_ContractRegister bits =
    (if bits = 0 then Some ContractRegister.Zero
     else if bits = 1 then Some ContractRegister.Ra
     else if bits = 2 then Some ContractRegister.Sp
     else if bits = 5 then Some ContractRegister.T0
     else if bits = 6 then Some ContractRegister.T1
     else if bits = 7 then Some ContractRegister.T2
     else if bits = 8 then Some ContractRegister.S0
     else if bits = 9 then Some ContractRegister.S1
     else if bits = 10 then Some ContractRegister.A0
     else if bits = 11 then Some ContractRegister.A1
     else if bits = 12 then Some ContractRegister.A2
     else if bits = 13 then Some ContractRegister.A3
     else if bits = 14 then Some ContractRegister.A4
     else if bits = 15 then Some ContractRegister.A5
     else if bits = 16 then Some ContractRegister.A6
     else if bits = 17 then Some ContractRegister.A7
     else if bits = 18 then Some ContractRegister.S2
     else if bits = 19 then Some ContractRegister.S3
     else if bits = 20 then Some ContractRegister.S4
     else if bits = 21 then Some ContractRegister.S5
     else if bits = 22 then Some ContractRegister.S6
     else if bits = 23 then Some ContractRegister.S7
     else if bits = 24 then Some ContractRegister.S8
     else if bits = 25 then Some ContractRegister.S9
     else if bits = 26 then Some ContractRegister.S10
     else if bits = 27 then Some ContractRegister.S11
     else if bits = 28 then Some ContractRegister.T3
     else if bits = 29 then Some ContractRegister.T4
     else if bits = 30 then Some ContractRegister.T5
     else if bits = 31 then Some ContractRegister.T6
     else None)"

text \<open>The assembly names of the \<open>Display\<close> implementations.\<close>

primrec display_EReg :: "EReg \<Rightarrow> string" where
  "display_EReg EReg.Zero = ''zero''"
| "display_EReg EReg.Ra = ''ra''"
| "display_EReg EReg.Sp = ''sp''"
| "display_EReg EReg.Gp = ''gp''"
| "display_EReg EReg.Tp = ''tp''"
| "display_EReg EReg.T0 = ''t0''"
| "display_EReg EReg.T1 = ''t1''"
| "display_EReg EReg.T2 = ''t2''"
| "display_EReg EReg.S0 = ''s0''"
| "display_EReg EReg.S1 = ''s1''"
| "display_EReg EReg.A0 = ''a0''"
| "display_EReg EReg.A1 = ''a1''"
| "display_EReg EReg.A2 = ''a2''"
| "display_EReg EReg.A3 = ''a3''"
| "display_EReg EReg.A4 = ''a4''"
| "display_EReg EReg.A5 = ''a5''"

primrec display_Reg :: "Reg \<Rightarrow> string" where
  "display_Reg Reg.Zero = ''zero''"
| "display_Reg Reg.Ra = ''ra''"
| "display_Reg Reg.Sp = ''sp''"
| "display_Reg Reg.Gp = ''gp''"
| "display_Reg Reg.Tp = ''tp''"
| "display_Reg Reg.T0 = ''t0''"
| "display_Reg Reg.T1 = ''t1''"
| "display_Reg Reg.T2 = ''t2''"
| "display_Reg Reg.S0 = ''s0''"
| "display_Reg Reg.S1 = ''s1''"
| "display_Reg Reg.A0 = ''a0''"
| "display_Reg Reg.A1 = ''a1''"
| "display_Reg Reg.A2 = ''a2''"
| "display_Reg Reg.A3 = ''a3''"
| "display_Reg Reg.A4 = ''a4''"
| "display_Reg Reg.A5 = ''a5''"
| "display_Reg Reg.A6 = ''a6''"
| "display_Reg Reg.A7 = ''a7''"
| "display_Reg Reg.S2 = ''s2''"
| "display_Reg Reg.S3 = ''s3''"
| "display_Reg Reg.S4 = ''s4''"
| "display_Reg Reg.S5 = ''s5''"
| "display_Reg Reg.S6 = ''s6''"
| "display_Reg Reg.S7 = ''s7''"
| "display_Reg Reg.S8 = ''s8''"
| "display_Reg Reg.S9 = ''s9''"
| "display_Reg Reg.S10 = ''s10''"
| "display_Reg Reg.S11 = ''s11''"
| "display_Reg Reg.T3 = ''t3''"
| "display_Reg Reg.T4 = ''t4''"
| "display_Reg Reg.T5 = ''t5''"
| "display_Reg Reg.T6 = ''t6''"

primrec display_ContractRegister :: "ContractRegister \<Rightarrow> string" where
  "display_ContractRegister ContractRegister.Zero = ''zero''"
| "display_ContractRegister ContractRegister.Ra = ''ra''"
| "display_ContractRegister ContractRegister.Sp = ''sp''"
| "display_ContractRegister ContractRegister.T0 = ''t0''"
| "display_ContractRegister ContractRegister.T1 = ''t1''"
| "display_ContractRegister ContractRegister.T2 = ''t2''"
| "display_ContractRegister ContractRegister.S0 = ''s0''"
| "display_ContractRegister ContractRegister.S1 = ''s1''"
| "display_ContractRegister ContractRegister.A0 = ''a0''"
| "display_ContractRegister ContractRegister.A1 = ''a1''"
| "display_ContractRegister ContractRegister.A2 = ''a2''"
| "display_ContractRegister ContractRegister.A3 = ''a3''"
| "display_ContractRegister ContractRegister.A4 = ''a4''"
| "display_ContractRegister ContractRegister.A5 = ''a5''"
| "display_ContractRegister ContractRegister.A6 = ''a6''"
| "display_ContractRegister ContractRegister.A7 = ''a7''"
| "display_ContractRegister ContractRegister.S2 = ''s2''"
| "display_ContractRegister ContractRegister.S3 = ''s3''"
| "display_ContractRegister ContractRegister.S4 = ''s4''"
| "display_ContractRegister ContractRegister.S5 = ''s5''"
| "display_ContractRegister ContractRegister.S6 = ''s6''"
| "display_ContractRegister ContractRegister.S7 = ''s7''"
| "display_ContractRegister ContractRegister.S8 = ''s8''"
| "display_ContractRegister ContractRegister.S9 = ''s9''"
| "display_ContractRegister ContractRegister.S10 = ''s10''"
| "display_ContractRegister ContractRegister.S11 = ''s11''"
| "display_ContractRegister ContractRegister.T3 = ''t3''"
| "display_ContractRegister ContractRegister.T4 = ''t4''"
| "display_ContractRegister ContractRegister.T5 = ''t5''"
| "display_ContractRegister ContractRegister.T6 = ''t6''"

text \<open>\<open>From<EReg<u64>> for Reg\<close>.\<close>

primrec Reg_from_EReg :: "EReg \<Rightarrow> Reg" where
  "Reg_from_EReg EReg.Zero = Reg.Zero"
| "Reg_from_EReg EReg.Ra = Reg.Ra"
| "Reg_from_EReg EReg.Sp = Reg.Sp"
| "Reg_from_EReg EReg.Gp = Reg.Gp"
| "Reg_from_EReg EReg.Tp = Reg.Tp"
| "Reg_from_EReg EReg.T0 = Reg.T0"
| "Reg_from_EReg EReg.T1 = Reg.T1"
| "Reg_from_EReg EReg.T2 = Reg.T2"
| "Reg_from_EReg EReg.S0 = Reg.S0"
| "Reg_from_EReg EReg.S1 = Reg.S1"
| "Reg_from_EReg EReg.A0 = Reg.A0"
| "Reg_from_EReg EReg.A1 = Reg.A1"
| "Reg_from_EReg EReg.A2 = Reg.A2"
| "Reg_from_EReg EReg.A3 = Reg.A3"
| "Reg_from_EReg EReg.A4 = Reg.A4"
| "Reg_from_EReg EReg.A5 = Reg.A5"

section \<open>The register traits\<close>

record 'r register =
  ZERO :: 'r
  SP :: 'r
  RA :: 'r
  A0_reg :: 'r
  A1_reg :: 'r
  from_bits :: "u8 \<Rightarrow> 'r option"
  offset :: "'r \<Rightarrow> u8"
  num_regs :: nat

definition EReg_register :: "EReg register" where
  "EReg_register = \<lparr>ZERO = EReg.Zero, SP = EReg.Sp, RA = EReg.Ra, A0_reg = EReg.A0, A1_reg = EReg.A1,
     from_bits = from_bits_EReg, offset = offset_EReg, num_regs = 16\<rparr>"

definition Reg_register :: "Reg register" where
  "Reg_register = \<lparr>ZERO = Reg.Zero, SP = Reg.Sp, RA = Reg.Ra, A0_reg = Reg.A0, A1_reg = Reg.A1,
     from_bits = from_bits_Reg, offset = offset_Reg, num_regs = 32\<rparr>"

definition ContractRegister_register :: "ContractRegister register" where
  "ContractRegister_register = \<lparr>ZERO = ContractRegister.Zero, SP = ContractRegister.Sp,
     RA = ContractRegister.Ra, A0_reg = ContractRegister.A0, A1_reg = ContractRegister.A1,
     from_bits = from_bits_ContractRegister, offset = offset_ContractRegister, num_regs = 32\<rparr>"

lemmas register_defs = EReg_register_def Reg_register_def ContractRegister_register_def

locale basic_register =
  fixes R :: "'r register"
  assumes offset_bound: "unat (offset R r) < num_regs R"
    and num_regs_le: "num_regs R \<le> 32"
    and from_bits_offset: "from_bits R (offset R r) = Some r"
    and offset_from_bits: "from_bits R b = Some r \<Longrightarrow> offset R r = b"
    and offset_zero: "offset R (ZERO R) = 0"
begin

lemma offset_eq_iff: "offset R r = offset R s \<longleftrightarrow> r = s"
  by (metis from_bits_offset option.inject)

lemma from_bits_eq_Some_iff: "from_bits R b = Some r \<longleftrightarrow> offset R r = b"
  using from_bits_offset offset_from_bits by blast

lemma from_bits_zero: "from_bits R 0 = Some (ZERO R)"
  by (simp add: from_bits_eq_Some_iff offset_zero)

lemma unat_offset_eq_iff: "unat (offset R r) = unat (offset R s) \<longleftrightarrow> r = s"
  by (simp only: word_unat_eq_iff [symmetric] offset_eq_iff)

lemma offset_less_32: "offset R r < 32"
proof -
  have "unat (offset R r) < unat (32 :: u8)"
    using offset_bound [of r] num_regs_le by simp
  then show ?thesis by (simp only: word_less_nat_alt)
qed

lemma offset_eq_zero_iff: "offset R r = 0 \<longleftrightarrow> r = ZERO R"
  using offset_eq_iff [of r "ZERO R"] by (simp add: offset_zero)

end

lemma offset_from_bits_EReg: "from_bits_EReg b = Some r \<Longrightarrow> offset_EReg r = b"
  by (auto simp: from_bits_EReg_def split: if_split_asm)

lemma from_bits_offset_EReg: "from_bits_EReg (offset_EReg r) = Some r"
  by (cases r) (simp_all add: from_bits_EReg_def)

lemma offset_bound_EReg: "unat (offset_EReg r) < 16"
  by (cases r) simp_all

lemma offset_from_bits_Reg: "from_bits_Reg b = Some r \<Longrightarrow> offset_Reg r = b"
  by (auto simp: from_bits_Reg_def split: if_split_asm)

lemma from_bits_offset_Reg: "from_bits_Reg (offset_Reg r) = Some r"
  by (cases r) (simp_all add: from_bits_Reg_def)

lemma offset_bound_Reg: "unat (offset_Reg r) < 32"
  by (cases r) simp_all

lemma offset_from_bits_ContractRegister: "from_bits_ContractRegister b = Some r \<Longrightarrow> offset_ContractRegister r = b"
  by (auto simp: from_bits_ContractRegister_def split: if_split_asm)

lemma from_bits_offset_ContractRegister: "from_bits_ContractRegister (offset_ContractRegister r) = Some r"
  by (cases r) (simp_all add: from_bits_ContractRegister_def)

lemma offset_bound_ContractRegister: "unat (offset_ContractRegister r) < 32"
  by (cases r) simp_all

interpretation ereg: basic_register EReg_register
  by unfold_locales
    (simp_all add: register_defs offset_from_bits_EReg from_bits_offset_EReg offset_bound_EReg)

interpretation reg: basic_register Reg_register
  by unfold_locales
    (simp_all add: register_defs offset_from_bits_Reg from_bits_offset_Reg offset_bound_Reg)

interpretation creg: basic_register ContractRegister_register
  by unfold_locales
    (simp_all add: register_defs offset_from_bits_ContractRegister from_bits_offset_ContractRegister offset_bound_ContractRegister)

section \<open>Register files\<close>

text \<open>
  \<open>BasicRegisters\<close> and \<open>ContractRegisters\<close>: an array of register values. A read of \<open>x0\<close> is
  zero whatever the array holds; a write to \<open>x0\<close> does update the array.
\<close>

type_synonym 'a registers = "'a word list"

definition regs_default :: "'r register \<Rightarrow> 'a::len registers" where
  "regs_default R = replicate (num_regs R) 0"

definition reg_read :: "'r register \<Rightarrow> 'a::len registers \<Rightarrow> 'r \<Rightarrow> 'a word" where
  "reg_read R regs reg = (if reg = ZERO R then 0 else regs ! unat (offset R reg))"

definition reg_write ::
  "'r register \<Rightarrow> 'a::len registers \<Rightarrow> 'r \<Rightarrow> 'a word \<Rightarrow> 'a registers" where
  "reg_write R regs reg value = regs[unat (offset R reg) := value]"

definition regs_wf :: "'r register \<Rightarrow> 'a::len registers \<Rightarrow> bool" where
  "regs_wf R regs \<longleftrightarrow> length regs = num_regs R"

lemma regs_wf_default [simp, intro]: "regs_wf R (regs_default R)"
  by (simp add: regs_wf_def regs_default_def)

lemma regs_wf_write [simp]: "regs_wf R (reg_write R regs r v) = regs_wf R regs"
  by (simp add: regs_wf_def reg_write_def)

text \<open>The contract of \<open>RegisterFile\<close> for a register type with zero register \<open>zero\<close>.\<close>

locale register_file =
  fixes zero :: 'r
    and rf_read :: "'f \<Rightarrow> 'r \<Rightarrow> 'v::zero"
    and rf_write :: "'f \<Rightarrow> 'r \<Rightarrow> 'v \<Rightarrow> 'f"
    and wf :: "'f \<Rightarrow> bool"
  assumes read_zero: "wf f \<Longrightarrow> rf_read f zero = 0"
    and read_write: "wf f \<Longrightarrow> r \<noteq> zero \<Longrightarrow>
      rf_read (rf_write f r v) s = (if s = r then v else rf_read f s)"
    and read_write_zero: "wf f \<Longrightarrow> rf_read (rf_write f zero v) s = rf_read f s"
    and wf_write: "wf f \<Longrightarrow> wf (rf_write f r v)"
begin

lemma read_write_gen:
  "wf f \<Longrightarrow> rf_read (rf_write f r v) s = (if s = r \<and> r \<noteq> zero then v else rf_read f s)"
  by (cases "r = zero") (simp_all add: read_write read_write_zero)

lemma write_read_same: "wf f \<Longrightarrow> rf_read (rf_write f r (rf_read f r)) s = rf_read f s"
  by (simp add: read_write_gen)

lemma write_write_commute:
  "wf f \<Longrightarrow> r \<noteq> s \<Longrightarrow>
    rf_read (rf_write (rf_write f r v) s w) t = rf_read (rf_write (rf_write f s w) r v) t"
  by (auto simp: read_write_gen wf_write)

lemma write_write_same:
  "wf f \<Longrightarrow> rf_read (rf_write (rf_write f r v) r w) t = rf_read (rf_write f r w) t"
  by (simp add: read_write_gen wf_write)

end

context basic_register
begin

lemma reg_read_zero: "reg_read R regs (ZERO R) = 0"
  by (simp add: reg_read_def)

lemma reg_read_write:
  assumes "regs_wf R regs"
  shows "reg_read R (reg_write R regs r v) s =
    (if s = r \<and> r \<noteq> ZERO R then v else reg_read R regs s)"
proof -
  have "unat (offset R r) < length regs"
    using assms offset_bound [of r] by (simp add: regs_wf_def)
  then show ?thesis
    by (auto simp: reg_read_def reg_write_def nth_list_update unat_offset_eq_iff)
qed

lemma register_file_laws: "register_file (ZERO R) (reg_read R) (reg_write R) (regs_wf R)"
  by unfold_locales (auto simp: reg_read_write reg_read_zero)

end

interpretation ereg_file: register_file "ZERO EReg_register"
    "reg_read EReg_register" "reg_write EReg_register" "regs_wf EReg_register"
  by (rule ereg.register_file_laws)

interpretation reg_file: register_file "ZERO Reg_register"
    "reg_read Reg_register" "reg_write Reg_register" "regs_wf Reg_register"
  by (rule reg.register_file_laws)

interpretation creg_file: register_file "ZERO ContractRegister_register"
    "reg_read ContractRegister_register" "reg_write ContractRegister_register"
    "regs_wf ContractRegister_register"
  by (rule creg.register_file_laws)

end
