(* ===== verification/Riscv_Memory.thy ===== *)
theory Riscv_Memory
  imports Riscv_Registers
begin

text \<open>
  Virtual memory of the interpreter: the trait \<open>VirtualMemory\<close>
  (crates/execution/ab-riscv-interpreter/src/lib.rs) and its flat implementation \<open>BasicMemory\<close>
  (crates/execution/ab-riscv-interpreter/src/basic.rs).

  The constants \<open>BASE_ADDR\<close> and \<open>SIZE\<close> of the Rust type are the field \<open>base_addr\<close> and the length
  of \<open>mem_data\<close>. Integers are stored little-endian, as on every target the code supports. The
  contract is stated against the partial map \<open>mem_bytes\<close> from addresses to bytes: a read of \<open>n\<close>
  bytes succeeds exactly when the map is defined on them, and a write updates exactly them.
\<close>

section \<open>Definitions\<close>

datatype VirtualMemoryError = OutOfBoundsRead u64 | OutOfBoundsWrite u64

record basic_memory =
  base_addr :: u64
  mem_data :: "u8 list"

definition memory_default :: "u64 \<Rightarrow> nat \<Rightarrow> basic_memory" where
  "memory_default base n = \<lparr>base_addr = base, mem_data = replicate n 0\<rparr>"

definition mem_read :: "basic_memory \<Rightarrow> u64 \<Rightarrow> VirtualMemoryError + 'a::len word" where
  "mem_read m address =
    (case checked_sub address (base_addr m) of
       None \<Rightarrow> Inl (OutOfBoundsRead address)
     | Some off \<Rightarrow>
         if saturating_add off (of_nat (LENGTH('a) div 8)) > of_nat (length (mem_data m))
         then Inl (OutOfBoundsRead address)
         else Inr (from_le_bytes (take (LENGTH('a) div 8) (drop (unat off) (mem_data m)))))"

definition mem_read_unchecked :: "basic_memory \<Rightarrow> u64 \<Rightarrow> 'a::len word" where
  "mem_read_unchecked m address =
    from_le_bytes (take (LENGTH('a) div 8) (drop (unat (address - base_addr m)) (mem_data m)))"

definition mem_read_slice ::
  "basic_memory \<Rightarrow> u64 \<Rightarrow> u32 \<Rightarrow> VirtualMemoryError + u8 list" where
  "mem_read_slice m address len =
    (case checked_sub address (base_addr m) of
       None \<Rightarrow> Inl (OutOfBoundsRead address)
     | Some off \<Rightarrow>
         if off > of_nat (length (mem_data m)) then Inl (OutOfBoundsRead address)
         else
           let rest = drop (unat off) (mem_data m) in
           if unat len \<le> length rest then Inr (take (unat len) rest)
           else Inl (OutOfBoundsRead address))"

definition mem_read_slice_up_to :: "basic_memory \<Rightarrow> u64 \<Rightarrow> u32 \<Rightarrow> u8 list" where
  "mem_read_slice_up_to m address len =
    (case checked_sub address (base_addr m) of
       None \<Rightarrow> []
     | Some off \<Rightarrow>
         if off > of_nat (length (mem_data m)) then []
         else
           let remaining = drop (unat off) (mem_data m) in
           if unat len \<le> length remaining then take (unat len) remaining else remaining)"

text \<open>Overwriting a sub-range of the backing array, which keeps its length.\<close>

definition splice :: "'b list \<Rightarrow> nat \<Rightarrow> 'b list \<Rightarrow> 'b list" where
  "splice xs i ys = take i xs @ ys @ drop (i + length ys) xs"

definition mem_write ::
  "basic_memory \<Rightarrow> u64 \<Rightarrow> 'a::len word \<Rightarrow> VirtualMemoryError + basic_memory" where
  "mem_write m address value =
    (case checked_sub address (base_addr m) of
       None \<Rightarrow> Inl (OutOfBoundsWrite address)
     | Some off \<Rightarrow>
         if saturating_add off (of_nat (LENGTH('a) div 8)) > of_nat (length (mem_data m))
         then Inl (OutOfBoundsWrite address)
         else Inr (m\<lparr>mem_data := splice (mem_data m) (unat off) (to_le_bytes value)\<rparr>))"

definition mem_write_slice ::
  "basic_memory \<Rightarrow> u64 \<Rightarrow> u8 list \<Rightarrow> VirtualMemoryError + basic_memory" where
  "mem_write_slice m address data =
    (case checked_sub address (base_addr m) of
       None \<Rightarrow> Inl (OutOfBoundsWrite address)
     | Some off \<Rightarrow>
         if off > of_nat (length (mem_data m)) then Inl (OutOfBoundsWrite address)
         else if length data \<le> length (drop (unat off) (mem_data m))
         then Inr (m\<lparr>mem_data := splice (mem_data m) (unat off) data\<rparr>)
         else Inl (OutOfBoundsWrite address))"

text \<open>
  \<open>get_mut_bytes\<close> hands out a mutable slice; the model returns its off and length, the caller
  being free to overwrite those bytes.
\<close>

definition mem_get_mut_bytes ::
  "basic_memory \<Rightarrow> u64 \<Rightarrow> nat \<Rightarrow> VirtualMemoryError + nat \<times> nat" where
  "mem_get_mut_bytes m address n =
    (case checked_sub address (base_addr m) of
       None \<Rightarrow> Inl (OutOfBoundsRead address)
     | Some off \<Rightarrow>
         if unat off \<le> length (mem_data m) \<and> n \<le> length (mem_data m) - unat off
         then Inr (unat off, n)
         else Inl (OutOfBoundsRead address))"

text \<open>Rust caps the size of every object at \<open>isize::MAX\<close> bytes.\<close>

definition mem_wf :: "basic_memory \<Rightarrow> bool" where
  "mem_wf m \<longleftrightarrow> length (mem_data m) < 2 ^ 63"

section \<open>The abstract memory\<close>

definition mem_bytes :: "basic_memory \<Rightarrow> nat \<Rightarrow> u8 option" where
  "mem_bytes m a =
    (if unat (base_addr m) \<le> a \<and> a < unat (base_addr m) + length (mem_data m)
     then Some (mem_data m ! (a - unat (base_addr m))) else None)"

definition bytes_at :: "(nat \<Rightarrow> 'b option) \<Rightarrow> nat \<Rightarrow> nat \<Rightarrow> 'b list option" where
  "bytes_at f a n = those (map (\<lambda>i. f (a + i)) [0..<n])"

definition bytes_upd :: "(nat \<Rightarrow> 'b option) \<Rightarrow> nat \<Rightarrow> 'b list \<Rightarrow> nat \<Rightarrow> 'b option" where
  "bytes_upd f a bs x = (if a \<le> x \<and> x < a + length bs then Some (bs ! (x - a)) else f x)"

lemma those_eq_Some_iff:
  "those xs = Some ys \<longleftrightarrow> xs = map Some ys"
  by (induction xs arbitrary: ys) (auto split: option.splits)

lemma those_eq_None_iff: "those xs = None \<longleftrightarrow> None \<in> set xs"
  by (induction xs) (auto split: option.splits)

lemma bytes_at_eq_Some_iff:
  "bytes_at f a n = Some bs \<longleftrightarrow> length bs = n \<and> (\<forall>i<n. f (a + i) = Some (bs ! i))"
  by (auto simp: bytes_at_def those_eq_Some_iff list_eq_iff_nth_eq)

lemma bytes_at_eq_None_iff: "bytes_at f a n = None \<longleftrightarrow> (\<exists>i<n. f (a + i) = None)"
  by (simp add: bytes_at_def those_eq_None_iff image_iff Bex_def eq_commute [of None])

lemma bytes_at_upd_same [simp]: "bytes_at (bytes_upd f a bs) a (length bs) = Some bs"
  by (simp add: bytes_at_eq_Some_iff bytes_upd_def)

lemma bytes_at_upd_disjoint:
  assumes "a + length bs \<le> b \<or> b + n \<le> a"
  shows "bytes_at (bytes_upd f a bs) b n = bytes_at f b n"
  unfolding bytes_at_def
  by (rule arg_cong [where f = those]) (use assms in \<open>auto simp: bytes_upd_def\<close>)

lemma bytes_at_append:
  "bytes_at f a (length xs + n) = Some (xs @ ys) \<longleftrightarrow>
    bytes_at f a (length xs) = Some xs \<and> bytes_at f (a + length xs) n = Some ys"
proof -
  have "(\<forall>i<length xs + n. P i) \<longleftrightarrow> (\<forall>i<length xs. P i) \<and> (\<forall>i<n. P (length xs + i))" for P
    by (induction n) (auto simp: less_Suc_eq)
  then show ?thesis
    by (auto simp: bytes_at_eq_Some_iff nth_append ac_simps)
qed

lemma bytes_at_defined_upd:
  "(bytes_at (bytes_upd f a bs) b n = None) = (bytes_at f b n = None)"
  if "bytes_at f a (length bs) \<noteq> None"
proof -
  have "bytes_upd f a bs x = None \<longleftrightarrow> f x = None" for x
  proof (cases "a \<le> x \<and> x < a + length bs")
    case True
    then have "x - a < length bs" and "a + (x - a) = x" by auto
    then have "f x \<noteq> None" using that unfolding bytes_at_eq_None_iff by metis
    then show ?thesis using True by (simp add: bytes_upd_def)
  qed (auto simp: bytes_upd_def)
  then show ?thesis by (simp add: bytes_at_eq_None_iff)
qed

section \<open>The memory refines the abstract one\<close>

lemma length_splice [simp]: "i + length ys \<le> length xs \<Longrightarrow> length (splice xs i ys) = length xs"
  by (simp add: splice_def)

lemma nth_splice:
  "i + length ys \<le> length xs \<Longrightarrow> k < length xs \<Longrightarrow>
    splice xs i ys ! k = (if i \<le> k \<and> k < i + length ys then ys ! (k - i) else xs ! k)"
  by (auto simp: splice_def nth_append)

lemma checked_sub_eq_None_iff [simp]: "checked_sub a b = None \<longleftrightarrow> \<not> unat b \<le> unat a"
  by (simp add: checked_sub_def word_le_nat_alt)

lemma checked_sub_SomeD: "checked_sub a b = Some c \<Longrightarrow> unat b \<le> unat a \<and> unat c = unat a - unat b"
  by (auto simp: checked_sub_def word_le_nat_alt unat_sub split: if_splits)

lemma unat_of_nat_mem:
  "mem_wf m \<Longrightarrow> unat (of_nat (length (mem_data m)) :: u64) = length (mem_data m)"
  by (simp add: mem_wf_def unat_of_nat_less)

lemma saturating_in_bounds:
  assumes "mem_wf m" and "n < 2 ^ 63"
  shows "saturating_add (off :: u64) (of_nat n) > of_nat (length (mem_data m)) \<longleftrightarrow>
    \<not> unat off + n \<le> length (mem_data m)"
proof -
  have n: "unat (of_nat n :: u64) = n"
    using assms(2) by (simp add: unat_of_nat_less)
  show ?thesis
  proof (cases "unat off + n < 2 ^ 64")
    case True
    then have "unat (off + of_nat n) = unat off + n"
      using n by (simp add: unat_word_ariths)
    then show ?thesis
      using True n
      by (simp add: saturating_add_def word_less_nat_alt unat_of_nat_mem [OF assms(1)] not_le)
  next
    case False
    have len: "length (mem_data m) < 2 ^ 63"
      using assms(1) by (simp add: mem_wf_def)
    then have "of_nat (length (mem_data m)) < (- 1 :: u64)"
      by (simp add: word_less_nat_alt unat_of_nat_mem [OF assms(1)] unsigned_minus_1_eq_mask
          mask_eq_exp_minus_1)
    then show ?thesis
      using False n len by (simp add: saturating_add_def)
  qed
qed

lemma bytes_at_mem_bytes:
  assumes "0 < n"
  shows "bytes_at (mem_bytes m) a n =
    (if unat (base_addr m) \<le> a \<and> a + n \<le> unat (base_addr m) + length (mem_data m)
     then Some (take n (drop (a - unat (base_addr m)) (mem_data m))) else None)"
proof (cases "unat (base_addr m) \<le> a \<and> a + n \<le> unat (base_addr m) + length (mem_data m)")
  case True
  then show ?thesis
    by (auto simp: bytes_at_eq_Some_iff mem_bytes_def intro!: arg_cong [where f = "nth (mem_data m)"])
next
  case False
  have "\<exists>i<n. mem_bytes m (a + i) = None"
  proof (cases "unat (base_addr m) \<le> a")
    case True
    then show ?thesis using False assms
      by (intro exI [of _ "n - 1"]) (auto simp: mem_bytes_def)
  next
    case False
    then show ?thesis using assms by (intro exI [of _ 0]) (auto simp: mem_bytes_def)
  qed
  then show ?thesis using False by (simp only: bytes_at_eq_None_iff if_False)
qed

lemma word_bytes_pos: "8 dvd LENGTH('a::len) \<Longrightarrow> 0 < LENGTH('a) div 8"
  by (metis dvd_div_eq_0_iff len_gt_0 neq0_conv not_gr_zero)

lemma mem_read_spec:
  assumes "mem_wf m" and "8 dvd LENGTH('a::len)" and "LENGTH('a) \<le> 64"
  shows "(mem_read m a :: VirtualMemoryError + 'a word) =
    (case bytes_at (mem_bytes m) (unat a) (LENGTH('a) div 8) of
       None \<Rightarrow> Inl (OutOfBoundsRead a) | Some bs \<Rightarrow> Inr (from_le_bytes bs))"
proof -
  have n: "LENGTH('a) div 8 < 2 ^ 63" using assms(3) by simp
  show ?thesis
    unfolding mem_read_def bytes_at_mem_bytes [OF word_bytes_pos [OF assms(2)]]
    by (auto simp: saturating_in_bounds [OF assms(1) n] dest: checked_sub_SomeD
        split: option.splits)
qed

lemma mem_bytes_splice:
  assumes "unat (base_addr m) \<le> a"
    and "a - unat (base_addr m) + length bs \<le> length (mem_data m)"
  shows "mem_bytes (m\<lparr>mem_data := splice (mem_data m) (a - unat (base_addr m)) bs\<rparr>) =
    bytes_upd (mem_bytes m) a bs"
proof
  fix x
  show "mem_bytes (m\<lparr>mem_data := splice (mem_data m) (a - unat (base_addr m)) bs\<rparr>) x =
    bytes_upd (mem_bytes m) a bs x"
    using assms by (auto simp: mem_bytes_def bytes_upd_def nth_splice)
qed

lemma mem_write_ok:
  assumes "mem_wf m" and "8 dvd LENGTH('a::len)" and "LENGTH('a) \<le> 64"
    and "mem_write m a (v :: 'a word) = Inr m'"
  shows "mem_bytes m' = bytes_upd (mem_bytes m) (unat a) (to_le_bytes v)"
    and "mem_wf m'" and "base_addr m' = base_addr m"
proof -
  have n: "LENGTH('a) div 8 < 2 ^ 63" using assms(3) by simp
  obtain off where off: "checked_sub a (base_addr m) = Some off"
      "unat off + LENGTH('a) div 8 \<le> length (mem_data m)"
      "m' = m\<lparr>mem_data := splice (mem_data m) (unat off) (to_le_bytes v)\<rparr>"
    using assms(4)
    by (auto simp: mem_write_def saturating_in_bounds [OF assms(1) n]
        split: option.splits if_splits)
  note c = checked_sub_SomeD [OF off(1)]
  show "mem_bytes m' = bytes_upd (mem_bytes m) (unat a) (to_le_bytes v)"
    using c off(2) unfolding off(3) by (metis mem_bytes_splice length_to_le_bytes)
  show "mem_wf m'" "base_addr m' = base_addr m"
    using assms(1) off by (simp_all add: mem_wf_def)
qed

lemma mem_write_error_iff:
  assumes "mem_wf m" and "8 dvd LENGTH('a::len)" and "LENGTH('a) \<le> 64"
  shows "mem_write m a (v :: 'a word) = Inl e \<longleftrightarrow>
    e = OutOfBoundsWrite a \<and> bytes_at (mem_bytes m) (unat a) (LENGTH('a) div 8) = None"
proof -
  have n: "LENGTH('a) div 8 < 2 ^ 63" using assms(3) by simp
  show ?thesis
    unfolding mem_write_def bytes_at_mem_bytes [OF word_bytes_pos [OF assms(2)]]
    by (auto simp: saturating_in_bounds [OF assms(1) n] dest: checked_sub_SomeD
        split: option.splits)
qed

section \<open>The contract of \<open>VirtualMemory\<close> for an integer type\<close>

text \<open>
  The typed half of the trait, for one integer type \<open>'a\<close>. The provider promises that reads and
  writes act on the abstract byte map; the client facts are the read-over-write laws.
\<close>

locale virtual_memory =
  fixes vm_read :: "'m \<Rightarrow> u64 \<Rightarrow> VirtualMemoryError + 'a::len word"
    and vm_write :: "'m \<Rightarrow> u64 \<Rightarrow> 'a word \<Rightarrow> VirtualMemoryError + 'm"
    and vm_bytes :: "'m \<Rightarrow> nat \<Rightarrow> u8 option"
    and vm_wf :: "'m \<Rightarrow> bool"
  assumes width: "8 dvd LENGTH('a)"
    and read_spec: "vm_wf m \<Longrightarrow> vm_read m a =
      (case bytes_at (vm_bytes m) (unat a) (LENGTH('a) div 8) of
         None \<Rightarrow> Inl (OutOfBoundsRead a) | Some bs \<Rightarrow> Inr (from_le_bytes bs))"
    and write_ok: "vm_wf m \<Longrightarrow> vm_write m a v = Inr m' \<Longrightarrow>
      vm_bytes m' = bytes_upd (vm_bytes m) (unat a) (to_le_bytes v)"
    and write_wf: "vm_wf m \<Longrightarrow> vm_write m a v = Inr m' \<Longrightarrow> vm_wf m'"
    and write_error: "vm_wf m \<Longrightarrow> vm_write m a v = Inl e \<longleftrightarrow>
      e = OutOfBoundsWrite a \<and> bytes_at (vm_bytes m) (unat a) (LENGTH('a) div 8) = None"
begin

lemma write_succeeds_iff_read_succeeds:
  assumes "vm_wf m"
  shows "(\<exists>m'. vm_write m a v = Inr m') \<longleftrightarrow> (\<exists>w. vm_read m a = Inr w)"
proof -
  have "(\<exists>m'. vm_write m a v = Inr m') \<longleftrightarrow> \<not> (\<exists>e. vm_write m a v = Inl e)"
    by (cases "vm_write m a v") auto
  then show ?thesis
    using assms by (auto simp: write_error read_spec split: option.splits)
qed

lemma read_write_same:
  assumes "vm_wf m" and "vm_write m a v = Inr m'"
  shows "vm_read m' a = Inr v"
proof -
  have "bytes_at (vm_bytes m') (unat a) (length (to_le_bytes v)) = Some (to_le_bytes v)"
    unfolding write_ok [OF assms] by (rule bytes_at_upd_same)
  then show ?thesis
    using write_wf [OF assms] by (simp add: read_spec from_le_bytes_to_le_bytes [OF width])
qed

lemma read_write_disjoint:
  assumes "vm_wf m" and "vm_write m a v = Inr m'"
    and "unat a + LENGTH('a) div 8 \<le> unat b \<or> unat b + LENGTH('a) div 8 \<le> unat a"
  shows "vm_read m' b = vm_read m b"
  using assms(3) write_wf [OF assms(1,2)]
  by (simp add: read_spec assms(1) write_ok [OF assms(1,2)] bytes_at_upd_disjoint)

lemma read_defined_after_write:
  assumes "vm_wf m" and "vm_write m a v = Inr m'"
  shows "(\<exists>w. vm_read m' b = Inr w) \<longleftrightarrow> (\<exists>w. vm_read m b = Inr w)"
proof -
  have "bytes_at (vm_bytes m) (unat a) (length (to_le_bytes v)) \<noteq> None"
    using write_error [OF assms(1), of a v] assms(2) by (metis Inl_Inr_False length_to_le_bytes)
  from bytes_at_defined_upd [OF this]
  have "(bytes_at (vm_bytes m') (unat b) n = None) = (bytes_at (vm_bytes m) (unat b) n = None)" for n
    by (simp add: write_ok [OF assms])
  moreover have "(\<exists>w. vm_read n b = Inr w) \<longleftrightarrow>
      bytes_at (vm_bytes n) (unat b) (LENGTH('a) div 8) \<noteq> None" if "vm_wf n" for n
    using that by (auto simp: read_spec split: option.splits)
  ultimately show ?thesis
    using write_wf [OF assms] assms(1) by (simp del: not_None_eq)
qed

end

interpretation mem8: virtual_memory
    "mem_read :: _ \<Rightarrow> _ \<Rightarrow> _ + u8" mem_write mem_bytes mem_wf
  by unfold_locales
    (auto simp: mem_read_spec mem_write_ok mem_write_error_iff dest: mem_write_ok(2) [rotated 3])

interpretation mem16: virtual_memory
    "mem_read :: _ \<Rightarrow> _ \<Rightarrow> _ + u16" mem_write mem_bytes mem_wf
  by unfold_locales
    (auto simp: mem_read_spec mem_write_ok mem_write_error_iff dest: mem_write_ok(2) [rotated 3])

interpretation mem32: virtual_memory
    "mem_read :: _ \<Rightarrow> _ \<Rightarrow> _ + u32" mem_write mem_bytes mem_wf
  by unfold_locales
    (auto simp: mem_read_spec mem_write_ok mem_write_error_iff dest: mem_write_ok(2) [rotated 3])

interpretation mem64: virtual_memory
    "mem_read :: _ \<Rightarrow> _ \<Rightarrow> _ + u64" mem_write mem_bytes mem_wf
  by unfold_locales
    (auto simp: mem_read_spec mem_write_ok mem_write_error_iff dest: mem_write_ok(2) [rotated 3])

lemma mem_read_unchecked_eq:
  assumes "mem_read m a = Inr w"
  shows "mem_read_unchecked m a = w"
  using assms
  by (auto simp: mem_read_def mem_read_unchecked_def checked_sub_def split: option.splits if_splits)

section \<open>Slices\<close>

lemma offset_in_bounds:
  "mem_wf m \<Longrightarrow> (off :: u64) > of_nat (length (mem_data m)) \<longleftrightarrow> \<not> unat off \<le> length (mem_data m)"
  by (simp add: word_less_nat_alt unat_of_nat_mem not_le)

lemma mem_read_slice_spec:
  assumes "mem_wf m" and "len \<noteq> 0"
  shows "mem_read_slice m a len =
    (case bytes_at (mem_bytes m) (unat a) (unat len) of
       None \<Rightarrow> Inl (OutOfBoundsRead a) | Some bs \<Rightarrow> Inr bs)"
proof -
  have n: "0 < unat len" using assms(2) by (simp add: unat_gt_0)
  show ?thesis
    unfolding mem_read_slice_def bytes_at_mem_bytes [OF n]
    by (auto simp: offset_in_bounds [OF assms(1)] Let_def dest: checked_sub_SomeD
        split: option.splits)
qed

lemma mem_read_slice_up_to_prefix:
  "mem_read_slice m a len = Inr bs \<Longrightarrow> mem_read_slice_up_to m a len = bs"
  by (auto simp: mem_read_slice_def mem_read_slice_up_to_def Let_def
      dest: checked_sub_SomeD split: option.splits if_splits)

lemma length_mem_read_slice_up_to: "length (mem_read_slice_up_to m a len) \<le> unat len"
  by (auto simp: mem_read_slice_up_to_def Let_def split: option.splits)

lemma mem_write_slice_ok:
  assumes "mem_wf m" and "mem_write_slice m a bs = Inr m'"
  shows "mem_bytes m' = bytes_upd (mem_bytes m) (unat a) bs"
    and "mem_wf m'" and "base_addr m' = base_addr m"
proof -
  obtain off where off: "checked_sub a (base_addr m) = Some off"
      "unat off + length bs \<le> length (mem_data m)"
      "m' = m\<lparr>mem_data := splice (mem_data m) (unat off) bs\<rparr>"
    using assms
    by (auto simp: mem_write_slice_def offset_in_bounds le_diff_conv2 split: option.splits if_splits)
  note c = checked_sub_SomeD [OF off(1)]
  show "mem_bytes m' = bytes_upd (mem_bytes m) (unat a) bs"
    using c off(2) unfolding off(3) by (metis mem_bytes_splice)
  show "mem_wf m'" "base_addr m' = base_addr m"
    using assms(1) off by (simp_all add: mem_wf_def)
qed

end
