(* ===== verification/Riscv_Utils.thy ===== *)
theory Riscv_Utils
  imports Riscv_Registers
begin

text \<open>
  The 24-bit immediates \<open>U24\<close>, \<open>I24\<close> and \<open>I24WithZeroedBits\<close> of
  crates/execution/ab-riscv-primitives/src/instructions/utils.rs, and the bit fields every
  decoder of that crate extracts from an instruction word. A 24-bit number is stored as its three
  little-endian bytes. A \<open>debug_assert!\<close> of the source is a separate predicate
  (\<open>U24_fits\<close>, \<open>I24_fits\<close>, \<open>I24Z_fits\<close>): it panics only in a debug build.
\<close>

section \<open>24-bit integers\<close>

datatype U24 = U24 u8 u8 u8

definition U24_from_u32 :: "u32 \<Rightarrow> U24" where
  "U24_from_u32 v = (let b = to_le_bytes v in U24 (b ! 0) (b ! 1) (b ! 2))"

definition U24_fits :: "u32 \<Rightarrow> bool" where
  "U24_fits v \<longleftrightarrow> shr (shl v 8) 8 = v"

primrec U24_to_u32 :: "U24 \<Rightarrow> u32" where
  "U24_to_u32 (U24 a b c) = from_le_bytes [a, b, c, 0]"

definition U24_shl :: "U24 \<Rightarrow> u8 \<Rightarrow> U24" where
  "U24_shl x rhs = U24_from_u32 (shl (U24_to_u32 x) (unat rhs))"

definition U24_shr :: "U24 \<Rightarrow> u8 \<Rightarrow> U24" where
  "U24_shr x rhs = U24_from_u32 (shr (U24_to_u32 x) (unat rhs))"

datatype I24 = I24 u8 u8 u8

definition I24_from_i32 :: "i32 \<Rightarrow> I24" where
  "I24_from_i32 v = (let b = to_le_bytes v in I24 (b ! 0) (b ! 1) (b ! 2))"

definition I24_fits :: "i32 \<Rightarrow> bool" where
  "I24_fits v \<longleftrightarrow> sar (shl v 8) 8 = v"

primrec I24_to_i32 :: "I24 \<Rightarrow> i32" where
  "I24_to_i32 (I24 a b c) = sar (shl (from_le_bytes [a, b, c, 0]) 8) 8"

definition I24_to_i64 :: "I24 \<Rightarrow> i64" where
  "I24_to_i64 v = scast (I24_to_i32 v)"

definition I24_shl :: "I24 \<Rightarrow> u8 \<Rightarrow> I24" where
  "I24_shl x rhs = I24_from_i32 (shl (I24_to_i32 x) (unat rhs))"

definition I24_shr :: "I24 \<Rightarrow> u8 \<Rightarrow> I24" where
  "I24_shr x rhs = I24_from_i32 (sar (I24_to_i32 x) (unat rhs))"

text \<open>
  \<open>I24WithZeroedBits<LOW_ZEROED_BITS>\<close>: the constant is the first argument of the operations.
\<close>

datatype I24WithZeroedBits = I24Z u8 u8 u8

definition I24Z_from_i32 :: "nat \<Rightarrow> i32 \<Rightarrow> I24WithZeroedBits" where
  "I24Z_from_i32 low v_original =
    (let v = sar v_original low; b = to_le_bytes v in I24Z (b ! 0) (b ! 1) (b ! 2))"

primrec I24Z_to_i32 :: "nat \<Rightarrow> I24WithZeroedBits \<Rightarrow> i32" where
  "I24Z_to_i32 low (I24Z a b c) =
    shl (sar (shl (from_le_bytes [a, b, c, 0]) 8) 8) low AND shl (- 1) low"

definition I24Z_to_i64 :: "nat \<Rightarrow> I24WithZeroedBits \<Rightarrow> i64" where
  "I24Z_to_i64 low v = scast (I24Z_to_i32 low v)"

definition I24Z_fits :: "nat \<Rightarrow> i32 \<Rightarrow> bool" where
  "I24Z_fits low v \<longleftrightarrow> I24Z_to_i32 low (I24Z_from_i32 low v) = v"

section \<open>Instruction fields\<close>

definition opcode :: "u32 \<Rightarrow> u8" where
  "opcode w = ucast (w AND 0b1111111)"

definition rd_bits :: "u32 \<Rightarrow> u8" where
  "rd_bits w = ucast (shr w 7 AND 0x1f)"

definition funct3 :: "u32 \<Rightarrow> u8" where
  "funct3 w = ucast (shr w 12 AND 0b111)"

definition rs1_bits :: "u32 \<Rightarrow> u8" where
  "rs1_bits w = ucast (shr w 15 AND 0x1f)"

definition rs2_bits :: "u32 \<Rightarrow> u8" where
  "rs2_bits w = ucast (shr w 20 AND 0x1f)"

definition funct7 :: "u32 \<Rightarrow> u8" where
  "funct7 w = ucast (shr w 25 AND 0b1111111)"

definition funct6 :: "u32 \<Rightarrow> u32" where
  "funct6 w = shr w 26 AND 0b111111"

definition shamt6 :: "u32 \<Rightarrow> u8" where
  "shamt6 w = ucast (shr w 20) AND 0b111111"

definition shamt5 :: "u32 \<Rightarrow> u8" where
  "shamt5 w = ucast (shr w 20) AND 0b11111"

definition imm_i :: "u32 \<Rightarrow> i16" where
  "imm_i w = ucast (sar w 20)"

definition imm_s :: "u32 \<Rightarrow> i16" where
  "imm_s w =
    (let imm11_5 = shr w 25 AND 0b1111111; imm4_0 = shr w 7 AND 0b11111;
         imm = shl imm11_5 5 OR imm4_0
     in ucast (sar (shl imm 20) 20))"

definition imm_b :: "u32 \<Rightarrow> i32" where
  "imm_b w =
    (let imm12 = shr w 31 AND 1; imm10_5 = shr w 25 AND 0b111111;
         imm4_1 = shr w 8 AND 0b1111; imm11 = shr w 7 AND 1;
         imm = shl imm12 12 OR shl imm11 11 OR shl imm10_5 5 OR shl imm4_1 1
     in sar (shl imm 19) 19)"

definition imm_u :: "u32 \<Rightarrow> i32" where
  "imm_u w = w AND 0xfffff000"

definition imm_j :: "u32 \<Rightarrow> i32" where
  "imm_j w =
    (let imm20 = shr w 31 AND 1; imm10_1 = shr w 21 AND 0b1111111111;
         imm11 = shr w 20 AND 1; imm19_12 = shr w 12 AND 0b11111111;
         imm = shl imm20 20 OR shl imm19_12 12 OR shl imm11 11 OR shl imm10_1 1
     in sar (shl imm 11) 11)"

lemmas field_defs = opcode_def rd_bits_def funct3_def rs1_bits_def rs2_bits_def funct7_def
  funct6_def shamt6_def shamt5_def imm_i_def imm_s_def imm_b_def imm_u_def imm_j_def

section \<open>Bits of the fields\<close>

lemma bit_sar32:
  "n < 32 \<Longrightarrow> k < 32 \<Longrightarrow> bit (sar (w :: u32) k) n = bit w (if n + k < 32 then n + k else 31)"
  by (auto simp: sar_def bit_signed_drop_bit_iff add.commute [of k n])

lemma bit_shl32: "k < 32 \<Longrightarrow> bit (shl (w :: u32) k) n \<longleftrightarrow> k \<le> n \<and> n < 32 \<and> bit w (n - k)"
  by (auto simp: shl_def bit_push_bit_iff)

lemma bit_shr32: "k < 32 \<Longrightarrow> bit (shr (w :: u32) k) n \<longleftrightarrow> bit w (n + k)"
  by (auto simp: shr_def bit_drop_bit_eq ac_simps)

lemma odd_shr32: "k < 32 \<Longrightarrow> odd (shr (w :: u32) k) \<longleftrightarrow> bit w k"
  using bit_shr32 [of k w 0] by (simp add: bit_0)

lemmas bit_shifts32 = bit_sar32 bit_shl32 bit_shr32 odd_shr32

lemma bit_fields:
  "bit (opcode w) n \<longleftrightarrow> n < 7 \<and> bit w n"
  "bit (rd_bits w) n \<longleftrightarrow> n < 5 \<and> bit w (n + 7)"
  "bit (funct3 w) n \<longleftrightarrow> n < 3 \<and> bit w (n + 12)"
  "bit (rs1_bits w) n \<longleftrightarrow> n < 5 \<and> bit w (n + 15)"
  "bit (rs2_bits w) n \<longleftrightarrow> n < 5 \<and> bit w (n + 20)"
  "bit (funct7 w) n \<longleftrightarrow> n < 7 \<and> bit w (n + 25)"
  "bit (funct6 w) n \<longleftrightarrow> n < 6 \<and> bit w (n + 26)"
  "bit (shamt6 w) n \<longleftrightarrow> n < 6 \<and> bit w (n + 20)"
  "bit (shamt5 w) n \<longleftrightarrow> n < 5 \<and> bit w (n + 20)"
  unfolding field_defs mask_simps
  by (auto simp: bit_take_bit_iff bit_ucast_iff bit_shr32)

lemma bit_imm_i: "n < 16 \<Longrightarrow> bit (imm_i w) n = bit w (if n < 12 then n + 20 else 31)"
  by (auto simp: imm_i_def bit_ucast_iff bit_sar32)

lemma bit_imm_s:
  "n < 16 \<Longrightarrow> bit (imm_s w) n = bit w (if n < 5 then n + 7 else if n < 12 then n + 20 else 31)"
proof -
  have "list_all (\<lambda>n. bit (imm_s w) n = bit w (if n < 5 then n + 7 else if n < 12 then n + 20 else 31)) [0..<16]"
    unfolding imm_s_def mask_simps Let_def
    by (simp add: upt_simps bit_ucast_iff bit_shifts32 bit_or_iff bit_take_bit_iff del: bit_0)
  moreover assume "n < 16"
  ultimately show ?thesis by (simp add: list_all_iff)
qed

lemma bit_imm_b:
  "n < 32 \<Longrightarrow> bit (imm_b w) n \<longleftrightarrow>
    (if n = 0 then False else if n < 5 then bit w (n + 7) else if n < 11 then bit w (n + 20)
     else if n = 11 then bit w 7 else bit w 31)"
proof -
  have "list_all (\<lambda>n. bit (imm_b w) n \<longleftrightarrow>
    (if n = 0 then False else if n < 5 then bit w (n + 7) else if n < 11 then bit w (n + 20)
     else if n = 11 then bit w 7 else bit w 31)) [0..<32]"
    unfolding imm_b_def mask_simps Let_def
    by (simp add: upt_simps bit_ucast_iff bit_shifts32 bit_or_iff bit_take_bit_iff del: bit_0)
  moreover assume "n < 32"
  ultimately show ?thesis by (simp add: list_all_iff)
qed

lemma bit_imm_j:
  "n < 32 \<Longrightarrow> bit (imm_j w) n \<longleftrightarrow>
    (if n = 0 then False else if n < 11 then bit w (n + 20) else if n = 11 then bit w 20
     else if n < 20 then bit w n else bit w 31)"
proof -
  have "list_all (\<lambda>n. bit (imm_j w) n \<longleftrightarrow>
    (if n = 0 then False else if n < 11 then bit w (n + 20) else if n = 11 then bit w 20
     else if n < 20 then bit w n else bit w 31)) [0..<32]"
    unfolding imm_j_def mask_simps Let_def
    by (simp add: upt_simps bit_ucast_iff bit_shifts32 bit_or_iff bit_take_bit_iff del: bit_0)
  moreover assume "n < 32"
  ultimately show ?thesis by (simp add: list_all_iff)
qed

lemma bit_imm_u: "bit (imm_u w) n \<longleftrightarrow> 12 \<le> n \<and> n < 32 \<and> bit w n"
proof -
  have "imm_u w = push_bit 12 (drop_bit 12 w)"
    by (simp add: imm_u_def word32_eq_iff upt_32 bit_simps)
  then show ?thesis
    by (auto simp: bit_push_bit_iff bit_drop_bit_eq dest: bit_imp_le_length)
qed

lemmas bit_imms = bit_imm_i bit_imm_s bit_imm_b bit_imm_j bit_imm_u

section \<open>Round trips of the 24-bit integers\<close>

lemma to_le_bytes_32:
  "to_le_bytes (w :: u32) =
    [ucast w, ucast (drop_bit 8 w), ucast (drop_bit 16 w), ucast (drop_bit 24 w)]"
  by (simp add: to_le_bytes_def upt_rec)

lemma bit_I24_to_i32:
  "n < 32 \<Longrightarrow> bit (I24_to_i32 (I24 a b c)) n =
    (if n < 8 then bit a n else if n < 16 then bit b (n - 8)
     else if n < 24 then bit c (n - 16) else bit c 7)"
  by (auto simp: bit_sar32 bit_shl32 bit_or_iff bit_push_bit_iff bit_ucast_iff
      dest: bit_imp_le_length)

lemma I24_to_i32_from_i32: "I24_to_i32 (I24_from_i32 v) = signed_take_bit 23 v"
  by (simp add: I24_from_i32_def to_le_bytes_32 Let_def word32_eq_iff upt_32 bit_I24_to_i32
      bit_ucast_iff bit_drop_bit_eq bit_signed_take_bit_iff del: I24_to_i32.simps bit_0)

lemma I24_from_i32_to_i32 [simp]: "I24_from_i32 (I24_to_i32 x) = x"
  by (cases x)
    (simp add: I24_from_i32_def to_le_bytes_32 Let_def word8_eq_iff upt_8 bit_I24_to_i32
      bit_ucast_iff bit_drop_bit_eq del: I24_to_i32.simps bit_0)

lemma I24_fits_iff: "I24_fits v \<longleftrightarrow> signed_take_bit 23 v = v"
  by (simp add: I24_fits_def word32_eq_iff upt_32 bit_shifts32 bit_signed_take_bit_iff del: bit_0)

lemma I24_roundtrip: "I24_fits v \<longleftrightarrow> I24_to_i32 (I24_from_i32 v) = v"
  by (simp add: I24_fits_iff I24_to_i32_from_i32)

lemma I24_fits_to_i32: "I24_fits (I24_to_i32 x)"
  by (simp add: I24_roundtrip)

lemma I24_fits_imm_b: "I24_fits (imm_b w)"
  by (simp add: I24_fits_iff word32_eq_iff upt_32 bit_signed_take_bit_iff bit_imm_b del: bit_0)

lemma I24_fits_imm_j: "I24_fits (imm_j w)"
  by (simp add: I24_fits_iff word32_eq_iff upt_32 bit_signed_take_bit_iff bit_imm_j del: bit_0)

lemma U24_to_u32_from_u32: "U24_to_u32 (U24_from_u32 v) = take_bit 24 v"
  by (simp add: U24_from_u32_def to_le_bytes_32 Let_def word32_eq_iff upt_32 bit_or_iff
      bit_push_bit_iff bit_ucast_iff bit_drop_bit_eq bit_take_bit_iff del: bit_0)

lemma U24_fits_iff: "U24_fits v \<longleftrightarrow> take_bit 24 v = v"
  by (simp add: U24_fits_def word32_eq_iff upt_32 bit_shifts32 bit_take_bit_iff del: bit_0)

lemma U24_roundtrip: "U24_fits v \<longleftrightarrow> U24_to_u32 (U24_from_u32 v) = v"
  by (simp add: U24_fits_iff U24_to_u32_from_u32)

lemma U24_from_u32_to_u32 [simp]: "U24_from_u32 (U24_to_u32 x) = x"
  by (cases x)
    (simp add: U24_from_u32_def to_le_bytes_32 Let_def word8_eq_iff upt_8 bit_or_iff
      bit_push_bit_iff bit_ucast_iff bit_drop_bit_eq bit_u8_ge del: bit_0)

lemma I24Z_to_i32_12: "I24Z_to_i32 12 (I24Z a b c) = push_bit 12 (I24_to_i32 (I24 a b c))"
  by (simp add: shl_def word32_eq_iff upt_32 bit_and_iff bit_push_bit_iff bit_not_iff
      bit_mask_iff del: bit_0)

lemma I24Z_roundtrip_12:
  "I24Z_to_i32 12 (I24Z_from_i32 12 v) = push_bit 12 (drop_bit 12 v)"
  by (simp add: I24Z_from_i32_def to_le_bytes_32 Let_def I24Z_to_i32_12 word32_eq_iff upt_32
      bit_I24_to_i32 bit_ucast_iff bit_drop_bit_eq bit_push_bit_iff bit_sar32
      del: I24_to_i32.simps I24Z_to_i32.simps bit_0)

lemma I24Z_fits_imm_u: "I24Z_fits 12 (imm_u w)"
  by (simp add: I24Z_fits_def I24Z_roundtrip_12 word32_eq_iff upt_32 bit_push_bit_iff
      bit_drop_bit_eq bit_imm_u del: bit_0)

lemma I24Z_from_i32_to_i32:
  assumes "signed_take_bit 19 (I24_to_i32 (I24 a b c)) = I24_to_i32 (I24 a b c)"
  shows "I24Z_from_i32 12 (I24Z_to_i32 12 (I24Z a b c)) = I24Z a b c"
proof -
  have "sar (push_bit 12 (I24_to_i32 (I24 a b c))) 12 = I24_to_i32 (I24 a b c)"
    by (subst (2) assms [symmetric])
      (simp add: word32_eq_iff upt_32 bit_sar32 bit_push_bit_iff bit_signed_take_bit_iff
        del: I24_to_i32.simps bit_0)
  then show ?thesis
    using I24_from_i32_to_i32 [of "I24 a b c"]
    by (simp add: I24Z_from_i32_def I24_from_i32_def I24Z_to_i32_12 Let_def
        del: I24_to_i32.simps I24Z_to_i32.simps)
qed

end
