(* ===== verification/Riscv_Machine.thy ===== *)
theory Riscv_Machine
  imports Riscv_Memory Riscv_Utils
begin

text \<open>
  The interpreter without its instruction sets: errors and control flow
  (crates/execution/ab-riscv-interpreter/src/lib.rs), the program counter and instruction fetcher
  \<open>BasicInstructionFetcher\<close>, the state \<open>BasicInterpreterState\<close> and its loop \<open>execute\<close>
  (crates/execution/ab-riscv-interpreter/src/basic.rs).

  An instruction set is a record \<open>isa\<close> of the operations of the traits \<open>Instruction\<close>,
  \<open>ExecutableInstructionOperands\<close> and \<open>ExecutableInstruction\<close>; the system instruction handler
  a record \<open>sys_handler\<close> over a state of its own. The machine fixes the memory, register file and
  fetcher to the basic implementations. Every operation returns the state next to its result, as
  \<open>&mut\<close> arguments keep their changes when an error is returned. Extension state, which the modelled
  instruction sets do not use, is left out. The custom error is the unit
  \<open>CustomErrorPlaceholder\<close>.
\<close>

section \<open>Errors and control flow\<close>

datatype 'a ProgramCounterError =
    UnalignedInstruction 'a
  | PcMemoryAccess VirtualMemoryError
  | PcCustom

datatype PrivilegeLevel = User | Supervisor | Machine

datatype CsrError =
    CsrReadOnly u16
  | CsrIllegalRead u16
  | CsrIllegalWrite u16
  | CsrUnknown u16
  | CsrInsufficientPrivilege u16 PrivilegeLevel PrivilegeLevel
  | CsrCustom

datatype 'a ExecutionError =
    ProgramCounter "'a ProgramCounterError"
  | MemoryAccess VirtualMemoryError
  | EcallUnsupported 'a
  | IllegalInstruction 'a
  | InvalidInstruction 'a u32
  | CsrError CsrError
  | Custom

datatype 'c ControlFlow = Break | Continue 'c

datatype 'i FetchInstructionResult = Instruction 'i | ControlFlow "unit ControlFlow"

section \<open>Program counter and fetcher\<close>

text \<open>
  \<open>BasicInstructionFetcher<I>\<close>; the alignment \<open>I::alignment()\<close> of its type parameter is a field.
\<close>

record 'w fetcher =
  return_trap_address :: 'w
  pc :: 'w
  insn_alignment :: u8

definition fetcher_new :: "u8 \<Rightarrow> 'a::len word \<Rightarrow> 'a word \<Rightarrow> 'a word fetcher" where
  "fetcher_new align trap start =
    \<lparr>return_trap_address = trap, pc = start, insn_alignment = align\<rparr>"

definition old_pc :: "u8 \<Rightarrow> 'a::len word fetcher \<Rightarrow> 'a word" where
  "old_pc instruction_size f = pc f - ucast instruction_size"

definition set_pc ::
  "'a::len word \<Rightarrow> 'a word fetcher \<Rightarrow> ('a word ProgramCounterError + unit ControlFlow) \<times> 'a word fetcher" where
  "set_pc target f =
    (if target = return_trap_address f then (Inr Break, f)
     else if \<not> unat (insn_alignment f) dvd unat target then (Inl (UnalignedInstruction target), f)
     else (Inr (Continue ()), f\<lparr>pc := target\<rparr>))"

text \<open>The word at \<open>address\<close>, or a compressed half-word at the very end of memory.\<close>

definition fetch_word :: "basic_memory \<Rightarrow> u64 \<Rightarrow> VirtualMemoryError + u32" where
  "fetch_word m address =
    (case mem_read m address :: VirtualMemoryError + u32 of
       Inr w \<Rightarrow> Inr w
     | Inl e \<Rightarrow>
         (case mem_read m address :: VirtualMemoryError + u16 of
            Inr h \<Rightarrow> if h AND 0b11 \<noteq> 0b11 then Inr (ucast h) else Inl e
          | Inl _ \<Rightarrow> Inl e))"

definition fetch_instruction ::
  "(u32 \<Rightarrow> 'i option) \<Rightarrow> ('i \<Rightarrow> u8) \<Rightarrow> basic_memory \<Rightarrow> 'a::len word fetcher \<Rightarrow>
    ('a word ExecutionError + 'i FetchInstructionResult) \<times> 'a word fetcher" where
  "fetch_instruction decode isize m f =
    (case fetch_word m (ucast (pc f)) of
       Inl e \<Rightarrow> (Inl (MemoryAccess e), f)
     | Inr w \<Rightarrow>
         (case decode w of
            None \<Rightarrow> (Inl (IllegalInstruction (pc f)), f)
          | Some i \<Rightarrow> (Inr (Instruction i), f\<lparr>pc := pc f + ucast (isize i)\<rparr>)))"

section \<open>Machine state and system instructions\<close>

record ('w, 'h) machine =
  regs :: "'w list"
  memory :: basic_memory
  fetcher :: "'w fetcher"
  handler :: 'h

type_synonym ('w, 'r) exec_result = "'w ExecutionError + ('r \<times> 'w) ControlFlow"

record ('w, 'h) sys_handler =
  handle_fence :: "u8 \<Rightarrow> u8 \<Rightarrow> 'h \<Rightarrow> 'h"
  handle_fence_tso :: "'h \<Rightarrow> 'h"
  handle_ecall :: "('w, 'h) machine \<Rightarrow> ('w ExecutionError + unit ControlFlow) \<times> ('w, 'h) machine"
  handle_ebreak :: "'w \<Rightarrow> 'w list \<times> basic_memory \<times> 'h \<Rightarrow> 'w list \<times> basic_memory \<times> 'h"

definition illegal_ecall_handler :: "('a::len word, 'h) sys_handler" where
  "illegal_ecall_handler =
    \<lparr>handle_fence = (\<lambda>pred succ h. h), handle_fence_tso = (\<lambda>h. h),
     handle_ecall = (\<lambda>s. (Inl (IllegalInstruction (old_pc 4 (fetcher s))), s)),
     handle_ebreak = (\<lambda>target rest. rest)\<rparr>"

section \<open>Instruction sets and the interpreter loop\<close>

record ('w, 'i, 'r, 'h) isa =
  isa_reg :: "'r register"
  isa_decode :: "u32 \<Rightarrow> 'i option"
  isa_alignment :: u8
  isa_size :: "'i \<Rightarrow> u8"
  isa_operands :: "'i \<Rightarrow> 'r \<times> 'r"
  isa_execute :: "'i \<Rightarrow> 'w \<Rightarrow> 'w \<Rightarrow> ('w, 'h) machine \<Rightarrow> ('w, 'r) exec_result \<times> ('w, 'h) machine"

text \<open>
  One iteration of the loop of \<open>execute\<close>: \<open>None\<close> next to the state when the loop goes on, the
  result of the loop otherwise.
\<close>

definition step ::
  "('a::len word, 'i, 'r, 'h) isa \<Rightarrow> ('a word, 'h) machine \<Rightarrow>
    ('a word ExecutionError + unit) option \<times> ('a word, 'h) machine" where
  "step isa s =
    (case fetch_instruction (isa_decode isa) (isa_size isa) (memory s) (fetcher s) of
       (Inl e, f) \<Rightarrow> (Some (Inl e), s\<lparr>fetcher := f\<rparr>)
     | (Inr (ControlFlow (Continue _)), f) \<Rightarrow> (None, s\<lparr>fetcher := f\<rparr>)
     | (Inr (ControlFlow Break), f) \<Rightarrow> (Some (Inr ()), s\<lparr>fetcher := f\<rparr>)
     | (Inr (Instruction i), f) \<Rightarrow>
         (let (rs1, rs2) = isa_operands isa i;
              rs1_value = reg_read (isa_reg isa) (regs s) rs1;
              rs2_value = reg_read (isa_reg isa) (regs s) rs2
          in case isa_execute isa i rs1_value rs2_value (s\<lparr>fetcher := f\<rparr>) of
               (Inr (Continue (rd, rd_value)), s') \<Rightarrow>
                 (None, s'\<lparr>regs := reg_write (isa_reg isa) (regs s') rd rd_value\<rparr>)
             | (Inr Break, s') \<Rightarrow> (Some (Inr ()), s')
             | (Inl e, s') \<Rightarrow> (Some (Inl e), s')))"

text \<open>The loop; a program that never leaves it has no result.\<close>

partial_function (option) execute ::
  "('a::len word, 'i, 'r, 'h) isa \<Rightarrow> ('a word, 'h) machine \<Rightarrow>
    (('a word ExecutionError + unit) \<times> ('a word, 'h) machine) option" where
  "execute isa s =
    (case fst (step isa s) of
       None \<Rightarrow> execute isa (snd (step isa s))
     | Some r \<Rightarrow> Some (r, snd (step isa s)))"

text \<open>The loop cut off after \<open>n\<close> iterations, for evaluation and for proofs of termination.\<close>

fun execute_fuel ::
  "nat \<Rightarrow> ('a::len word, 'i, 'r, 'h) isa \<Rightarrow> ('a word, 'h) machine \<Rightarrow>
    (('a word ExecutionError + unit) \<times> ('a word, 'h) machine) option" where
  "execute_fuel 0 isa s = None"
| "execute_fuel (Suc n) isa s =
    (case step isa s of
       (None, s') \<Rightarrow> execute_fuel n isa s'
     | (Some r, s') \<Rightarrow> Some (r, s'))"

section \<open>Results of the helpers\<close>

text \<open>
  What the arms of the \<open>execute\<close> functions return: \<open>Ok(Continue((rd, value)))\<close>,
  \<open>Ok(Continue(Default::default()))\<close>, the result of \<open>set_pc\<close> with its unit replaced, and the
  \<open>?\<close> operator on memory accesses.
\<close>

definition cont :: "'r \<Rightarrow> 'w \<Rightarrow> ('w, 'h) machine \<Rightarrow> ('w, 'r) exec_result \<times> ('w, 'h) machine" where
  "cont rd value s = (Inr (Continue (rd, value)), s)"

definition skip ::
  "'r register \<Rightarrow> ('a::len word, 'h) machine \<Rightarrow> ('a word, 'r) exec_result \<times> ('a word, 'h) machine" where
  "skip R s = cont (ZERO R) 0 s"

definition map_continue :: "('b \<Rightarrow> 'c) \<Rightarrow> 'b ControlFlow \<Rightarrow> 'c ControlFlow" where
  "map_continue f cf = (case cf of Break \<Rightarrow> Break | Continue x \<Rightarrow> Continue (f x))"

definition jump ::
  "'r register \<Rightarrow> 'a::len word \<Rightarrow> ('a word, 'h) machine \<Rightarrow> ('a word, 'r) exec_result \<times> ('a word, 'h) machine" where
  "jump R target s =
    (case set_pc target (fetcher s) of
       (Inl e, f) \<Rightarrow> (Inl (ProgramCounter e), s\<lparr>fetcher := f\<rparr>)
     | (Inr cf, f) \<Rightarrow> (Inr (map_continue (\<lambda>_. (ZERO R, 0)) cf), s\<lparr>fetcher := f\<rparr>))"

definition load ::
  "'r \<Rightarrow> ('b \<Rightarrow> 'a::len word) \<Rightarrow> VirtualMemoryError + 'b \<Rightarrow> ('a word, 'h) machine \<Rightarrow>
    ('a word, 'r) exec_result \<times> ('a word, 'h) machine" where
  "load rd ext result s =
    (case result of Inl e \<Rightarrow> (Inl (MemoryAccess e), s) | Inr v \<Rightarrow> cont rd (ext v) s)"

definition store ::
  "'r register \<Rightarrow> VirtualMemoryError + basic_memory \<Rightarrow> ('a::len word, 'h) machine \<Rightarrow>
    ('a word, 'r) exec_result \<times> ('a word, 'h) machine" where
  "store R result s =
    (case result of Inl e \<Rightarrow> (Inl (MemoryAccess e), s) | Inr m \<Rightarrow> skip R (s\<lparr>memory := m\<rparr>))"

definition branch ::
  "'r register \<Rightarrow> u8 \<Rightarrow> bool \<Rightarrow> 'a::len word \<Rightarrow> ('a word, 'h) machine \<Rightarrow>
    ('a word, 'r) exec_result \<times> ('a word, 'h) machine" where
  "branch R isize taken imm s =
    (if taken then jump R (old_pc isize (fetcher s) + imm) s else skip R s)"

named_theorems exec_helpers \<open>what the arms of the execute functions return\<close>

lemmas [exec_helpers] = cont_def skip_def map_continue_def jump_def load_def store_def branch_def
  set_pc_def

section \<open>The loop and its cut-off\<close>

lemma execute_unfold:
  "execute isa s = (case step isa s of (None, s') \<Rightarrow> execute isa s' | (Some r, s') \<Rightarrow> Some (r, s'))"
  by (subst execute.simps) (simp split: prod.split option.split)

lemma execute_fuel_execute: "execute_fuel n isa s = Some r \<Longrightarrow> execute isa s = Some r"
proof (induction n arbitrary: s)
  case (Suc n)
  then show ?case
    by (subst execute_unfold) (auto split: prod.splits option.splits)
qed simp

lemma execute_fuel_exists:
  assumes "execute isa s = Some r"
  shows "\<exists>n. execute_fuel n isa s = Some r"
proof (rule execute.raw_induct [where P = "\<lambda>isa s r. \<exists>n. execute_fuel n isa s = Some r", OF _ assms])
  fix exec isa s r
  assume IH: "\<And>isa s r. exec isa s = Some r \<Longrightarrow> \<exists>n. execute_fuel n isa s = Some r"
    and body: "(case fst (step isa s) of None \<Rightarrow> exec isa (snd (step isa s))
      | Some r \<Rightarrow> Some (r, snd (step isa s))) = Some r"
  show "\<exists>n. execute_fuel n isa s = Some r"
  proof (cases "fst (step isa s)")
    case None
    then obtain n where "execute_fuel n isa (snd (step isa s)) = Some r"
      using IH [of isa "snd (step isa s)" r] body by auto
    then have "execute_fuel (Suc n) isa s = Some r"
      using None by (simp add: case_prod_beta)
    then show ?thesis by blast
  next
    case (Some a)
    then have "execute_fuel (Suc 0) isa s = Some r"
      using body by (simp add: case_prod_beta)
    then show ?thesis by blast
  qed
qed

lemma execute_eq_Some_iff: "execute isa s = Some r \<longleftrightarrow> (\<exists>n. execute_fuel n isa s = Some r)"
  using execute_fuel_execute execute_fuel_exists by blast

section \<open>Well-formed machines\<close>

definition fetcher_wf :: "'a::len word fetcher \<Rightarrow> bool" where
  "fetcher_wf f \<longleftrightarrow> unat (insn_alignment f) dvd unat (pc f)"

definition machine_wf :: "'r register \<Rightarrow> ('a::len word, 'h) machine \<Rightarrow> bool" where
  "machine_wf R s \<longleftrightarrow> regs_wf R (regs s) \<and> mem_wf (memory s) \<and> fetcher_wf (fetcher s)"

text \<open>What never changes while a program runs.\<close>

definition same_layout :: "('a::len word, 'h) machine \<Rightarrow> ('a word, 'h) machine \<Rightarrow> bool" where
  "same_layout s t \<longleftrightarrow>
    base_addr (memory t) = base_addr (memory s) \<and>
    length (mem_data (memory t)) = length (mem_data (memory s)) \<and>
    return_trap_address (fetcher t) = return_trap_address (fetcher s) \<and>
    insn_alignment (fetcher t) = insn_alignment (fetcher s)"

lemma same_layout_refl [simp, intro]: "same_layout s s"
  by (simp add: same_layout_def)

lemma same_layout_trans [trans]: "same_layout s t \<Longrightarrow> same_layout t u \<Longrightarrow> same_layout s u"
  by (simp add: same_layout_def)

text \<open>An execution result whose state is still well-formed and has the layout of \<open>s\<close>.\<close>

definition keeps :: "'r register \<Rightarrow> ('a::len word, 'h) machine \<Rightarrow> 'x \<times> ('a word, 'h) machine \<Rightarrow> bool" where
  "keeps R s res \<longleftrightarrow> machine_wf R (snd res) \<and> same_layout s (snd res)"

lemma set_pc_wf:
  "set_pc target f = (r, f') \<Longrightarrow> fetcher_wf f \<Longrightarrow>
    fetcher_wf f' \<and> return_trap_address f' = return_trap_address f \<and>
    insn_alignment f' = insn_alignment f"
  by (auto simp: set_pc_def fetcher_wf_def split: if_splits)

named_theorems keeps_simps \<open>helpers keep the machine well-formed\<close>

lemma keeps_cont [keeps_simps]: "machine_wf R s \<Longrightarrow> keeps R s (cont rd v s)"
  by (simp add: keeps_def cont_def)

lemma keeps_skip [keeps_simps]: "machine_wf R s \<Longrightarrow> keeps R s (skip Q s)"
  by (simp add: skip_def keeps_cont)

lemma keeps_error [keeps_simps]: "machine_wf R s \<Longrightarrow> keeps R s (x, s)"
  by (simp add: keeps_def)

lemma keeps_jump [keeps_simps]: "machine_wf R s \<Longrightarrow> keeps R s (jump Q target s)"
  by (auto simp: jump_def keeps_def machine_wf_def same_layout_def split: prod.splits sum.splits
      dest: set_pc_wf)

lemma keeps_branch [keeps_simps]: "machine_wf R s \<Longrightarrow> keeps R s (branch Q n c imm s)"
  by (simp add: branch_def keeps_skip keeps_jump)

lemma keeps_load [keeps_simps]: "machine_wf R s \<Longrightarrow> keeps R s (load rd f x s)"
  by (simp add: load_def keeps_cont keeps_error split: sum.split)

lemma keeps_link [keeps_simps]:
  assumes "machine_wf R s"
  shows "keeps R s (jump Q target (s\<lparr>regs := reg_write R (regs s) rd v\<rparr>))"
  using keeps_jump [of R "s\<lparr>regs := reg_write R (regs s) rd v\<rparr>" Q target] assms
  by (simp add: keeps_def machine_wf_def same_layout_def)

lemma keeps_handler [keeps_simps]:
  "machine_wf R s \<Longrightarrow> keeps R s (skip Q (s\<lparr>handler := h\<rparr>))"
  by (simp add: keeps_def skip_def cont_def machine_wf_def same_layout_def)

lemma mem_write_layout:
  assumes "mem_write m a (v :: 'a::len word) = Inr m'" and "mem_wf m" and "LENGTH('a) div 8 < 2 ^ 63"
  shows "length (mem_data m') = length (mem_data m)" "base_addr m' = base_addr m" "mem_wf m'"
  using assms
  by (auto simp: mem_write_def saturating_in_bounds mem_wf_def split: option.splits if_splits)

lemma step_cases:
  assumes "step isa s = (r, s')"
  obtains q f where
    "fetch_instruction (isa_decode isa) (isa_size isa) (memory s) (fetcher s) = (q, f)"
    "s' = s\<lparr>fetcher := f\<rparr>"
  | q f i v1 v2 x u where
    "fetch_instruction (isa_decode isa) (isa_size isa) (memory s) (fetcher s) = (q, f)"
    "isa_execute isa i v1 v2 (s\<lparr>fetcher := f\<rparr>) = (x, u)" "s' = u"
  | q f i v1 v2 x u rd v where
    "fetch_instruction (isa_decode isa) (isa_size isa) (memory s) (fetcher s) = (q, f)"
    "isa_execute isa i v1 v2 (s\<lparr>fetcher := f\<rparr>) = (x, u)"
    "s' = u\<lparr>regs := reg_write (isa_reg isa) (regs u) rd v\<rparr>"
  using assms unfolding step_def Let_def
  by (auto split: prod.splits sum.splits FetchInstructionResult.splits ControlFlow.splits)

lemma keeps_store [keeps_simps]:
  assumes "machine_wf R s" and "LENGTH('b::len) div 8 < 2 ^ 63"
  shows "keeps R s (store Q (mem_write (memory s) a (v :: 'b word)) s)"
proof (cases "mem_write (memory s) a v")
  case (Inl e)
  then show ?thesis using assms(1) by (simp add: store_def keeps_error)
next
  case (Inr m)
  then show ?thesis
    using mem_write_layout [OF Inr _ assms(2)] assms(1)
    by (simp add: store_def skip_def cont_def keeps_def machine_wf_def same_layout_def)
qed

text \<open>
  What the trait \<open>SystemInstructionHandler\<close> leaves to its implementations, as far as the loop
  relies on it: \<open>ecall\<close> and \<open>ebreak\<close> handlers keep the machine well-formed and its layout.
\<close>

locale system_handler =
  fixes R :: "'r register" and H :: "('a::len word, 'h) sys_handler"
  assumes ecall_wf: "machine_wf R s \<Longrightarrow> keeps R s (handle_ecall H s)"
    and ebreak_wf: "machine_wf R s \<Longrightarrow>
      handle_ebreak H target (regs s, memory s, handler s) = (rf, m, h) \<Longrightarrow>
      keeps R s (skip R (s\<lparr>regs := rf, memory := m, handler := h\<rparr>))"

lemma illegal_ecall_handler_laws: "system_handler R illegal_ecall_handler"
  by unfold_locales (auto simp: illegal_ecall_handler_def keeps_simps)

interpretation illegal_ecall: system_handler Reg_register
    "illegal_ecall_handler :: (u64, unit) sys_handler"
  by (rule illegal_ecall_handler_laws)

text \<open>
  The contract between the loop and an instruction set: execution keeps the machine well-formed
  and its layout, provided the fetched instruction left the program counter aligned. The loop then
  keeps both, whatever the program does and however it ends.
\<close>

locale instruction_set =
  fixes isa :: "('a::len word, 'i, 'r, 'h) isa"
  assumes exec_wf: "machine_wf (isa_reg isa) s \<Longrightarrow>
      keeps (isa_reg isa) s (isa_execute isa i v1 v2 s)"
    and size_aligned: "unat (isa_alignment isa) dvd unat (isa_size isa i)"
    and alignment_pow2: "isa_alignment isa \<in> {1, 2, 4}"
    and address_width: "8 \<le> LENGTH('a)"
begin

lemma alignment_dvd: "unat (isa_alignment isa) dvd 2 ^ LENGTH('a)"
proof -
  have "unat (isa_alignment isa) dvd (2 :: nat) ^ 2"
    using alignment_pow2 by auto
  also have "(2 :: nat) ^ 2 dvd 2 ^ LENGTH('a)"
    using address_width by (intro le_imp_power_dvd) simp
  finally show ?thesis .
qed

lemma pc_advance_aligned:
  assumes "unat (isa_alignment isa) dvd unat (p :: 'a word)"
  shows "unat (isa_alignment isa) dvd unat (p + ucast (isa_size isa i))"
proof -
  have "unat (ucast (isa_size isa i) :: 'a word) = unat (isa_size isa i)"
    using address_width by (simp add: unat_ucast_up)
  then show ?thesis
    using assms size_aligned alignment_dvd
    by (simp add: unat_word_ariths dvd_mod_iff)
qed

lemma fetch_wf:
  fixes f :: "'a word fetcher"
  assumes "fetch_instruction (isa_decode isa) (isa_size isa) m f = (r, f')"
    and "fetcher_wf f" and "insn_alignment f = isa_alignment isa"
  shows "fetcher_wf f' \<and> return_trap_address f' = return_trap_address f \<and>
    insn_alignment f' = insn_alignment f"
  using assms pc_advance_aligned [of "pc f"]
  by (auto simp: fetch_instruction_def fetcher_wf_def split: sum.splits option.splits)

lemma step_wf:
  assumes "machine_wf (isa_reg isa) s" and "insn_alignment (fetcher s) = isa_alignment isa"
    and "step isa s = (r, s')"
  shows "machine_wf (isa_reg isa) s' \<and> same_layout s s'"
proof -
  have fetched: "machine_wf (isa_reg isa) (s\<lparr>fetcher := f\<rparr>) \<and> same_layout s (s\<lparr>fetcher := f\<rparr>)"
    if "fetch_instruction (isa_decode isa) (isa_size isa) (memory s) (fetcher s) = (q, f)" for q f
    using fetch_wf [OF that] assms(1,2) by (auto simp: machine_wf_def same_layout_def)
  have executed: "machine_wf (isa_reg isa) u \<and> same_layout s u"
    if "fetch_instruction (isa_decode isa) (isa_size isa) (memory s) (fetcher s) = (q, f)"
      and "isa_execute isa i v1 v2 (s\<lparr>fetcher := f\<rparr>) = (x, u)" for q f i v1 v2 x u
    using fetched [OF that(1)] exec_wf [of "s\<lparr>fetcher := f\<rparr>" i v1 v2] that(2) same_layout_trans
    by (auto simp: keeps_def)
  have written: "machine_wf (isa_reg isa) (u\<lparr>regs := reg_write (isa_reg isa) (regs u) rd v\<rparr>) \<and>
      same_layout s (u\<lparr>regs := reg_write (isa_reg isa) (regs u) rd v\<rparr>)"
    if "machine_wf (isa_reg isa) u \<and> same_layout s u" for u rd v
    using that by (simp add: machine_wf_def same_layout_def)
  show ?thesis
    using assms(3)
  proof (cases rule: step_cases)
    case 1
    then show ?thesis using fetched by blast
  next
    case 2
    then show ?thesis using executed by blast
  next
    case (3 q f i v1 v2 x u rd v)
    then show ?thesis using written [OF executed [OF 3(1,2)]] by simp
  qed
qed

lemma execute_fuel_wf:
  assumes "machine_wf (isa_reg isa) s" and "insn_alignment (fetcher s) = isa_alignment isa"
    and "execute_fuel n isa s = Some (r, s')"
  shows "machine_wf (isa_reg isa) s' \<and> same_layout s s'"
  using assms
proof (induction n arbitrary: s)
  case (Suc n)
  obtain q t where step: "step isa s = (q, t)" by fastforce
  note t = step_wf [OF Suc.prems(1,2) step]
  show ?case
  proof (cases q)
    case None
    then have "machine_wf (isa_reg isa) s' \<and> same_layout t s'"
      using Suc.IH [of t] Suc.prems t step by (simp add: same_layout_def)
    then show ?thesis using t same_layout_trans by blast
  qed (use Suc.prems t step in simp)
qed simp

lemma execute_wf:
  assumes "machine_wf (isa_reg isa) s" and "insn_alignment (fetcher s) = isa_alignment isa"
    and "execute isa s = Some (r, s')"
  shows "machine_wf (isa_reg isa) s' \<and> same_layout s s'"
  using assms execute_fuel_wf execute_fuel_exists by blast

end

end
