(* ===== verification/Riscv_Formats.thy ===== *)
theory Riscv_Formats
  imports Riscv_Utils
begin

text \<open>
  Reference encoders for the instruction formats of the RISC-V ISA manual (R, I, shift-immediate,
  S, B, U and J), against which the decoders of the sources are judged, and the facts that the
  field extractors of \<open>Riscv_Utils\<close> invert them. The encoders are specification; no code of
  the repository encodes instructions.
\<close>

section \<open>Encoders\<close>

definition enc_r :: "u8 \<Rightarrow> u8 \<Rightarrow> u8 \<Rightarrow> u8 \<Rightarrow> u8 \<Rightarrow> u8 \<Rightarrow> u32" where
  "enc_r op f3 f7 rd rs1 rs2 = ucast op OR push_bit 7 (ucast rd) OR push_bit 12 (ucast f3) OR
     push_bit 15 (ucast rs1) OR push_bit 20 (ucast rs2) OR push_bit 25 (ucast f7)"

definition enc_i :: "u8 \<Rightarrow> u8 \<Rightarrow> u8 \<Rightarrow> u8 \<Rightarrow> i16 \<Rightarrow> u32" where
  "enc_i op f3 rd rs1 imm = ucast op OR push_bit 7 (ucast rd) OR push_bit 12 (ucast f3) OR
     push_bit 15 (ucast rs1) OR push_bit 20 (ucast imm)"

definition enc_sh :: "u8 \<Rightarrow> u8 \<Rightarrow> u32 \<Rightarrow> u8 \<Rightarrow> u8 \<Rightarrow> u8 \<Rightarrow> u32" where
  "enc_sh op f3 f6 rd rs1 shamt = ucast op OR push_bit 7 (ucast rd) OR push_bit 12 (ucast f3) OR
     push_bit 15 (ucast rs1) OR push_bit 20 (ucast shamt) OR push_bit 26 f6"

definition enc_s :: "u8 \<Rightarrow> u8 \<Rightarrow> u8 \<Rightarrow> u8 \<Rightarrow> i16 \<Rightarrow> u32" where
  "enc_s op f3 rs1 rs2 imm = ucast op OR push_bit 7 (take_bit 5 (ucast imm)) OR
     push_bit 12 (ucast f3) OR push_bit 15 (ucast rs1) OR push_bit 20 (ucast rs2) OR
     push_bit 25 (drop_bit 5 (ucast imm))"

definition enc_b :: "u8 \<Rightarrow> u8 \<Rightarrow> u8 \<Rightarrow> u8 \<Rightarrow> i32 \<Rightarrow> u32" where
  "enc_b op f3 rs1 rs2 imm = ucast op OR push_bit 7 (take_bit 1 (drop_bit 11 imm)) OR
     push_bit 8 (take_bit 4 (drop_bit 1 imm)) OR push_bit 12 (ucast f3) OR
     push_bit 15 (ucast rs1) OR push_bit 20 (ucast rs2) OR
     push_bit 25 (take_bit 6 (drop_bit 5 imm)) OR push_bit 31 (drop_bit 12 imm)"

definition enc_u :: "u8 \<Rightarrow> u8 \<Rightarrow> i32 \<Rightarrow> u32" where
  "enc_u op rd imm = ucast op OR push_bit 7 (ucast rd) OR push_bit 12 (drop_bit 12 imm)"

definition enc_j :: "u8 \<Rightarrow> u8 \<Rightarrow> i32 \<Rightarrow> u32" where
  "enc_j op rd imm = ucast op OR push_bit 7 (ucast rd) OR
     push_bit 12 (take_bit 8 (drop_bit 12 imm)) OR push_bit 20 (take_bit 1 (drop_bit 11 imm)) OR
     push_bit 21 (take_bit 10 (drop_bit 1 imm)) OR push_bit 31 (drop_bit 20 imm)"

lemmas enc_defs = enc_r_def enc_i_def enc_sh_def enc_s_def enc_b_def enc_u_def enc_j_def

text \<open>Branch and jump offsets are even: the encodings have no place for bit 0.\<close>

definition clear_bit0 :: "'a::len word \<Rightarrow> 'a word" where
  "clear_bit0 w = w AND NOT 1"

lemma bit_clear_bit0: "bit (clear_bit0 w) n \<longleftrightarrow> 0 < n \<and> bit w n"
  by (auto simp: clear_bit0_def bit_and_iff bit_not_iff bit_1_iff dest: bit_imp_le_length)

lemmas bit_enc_simps = bit_or_iff bit_push_bit_iff bit_ucast_iff bit_take_bit_iff bit_drop_bit_eq
  bit_iff_odd_drop_bit [symmetric] bit_clear_bit0 numeral_2_eq_2 [symmetric]

text \<open>The ranges of the fields, as facts on the bits beyond them.\<close>

lemma field_high_bits:
  "(op :: u8) < 128 \<Longrightarrow> 7 \<le> n \<Longrightarrow> bit op n = False"
  "(r :: u8) < 32 \<Longrightarrow> 5 \<le> n \<Longrightarrow> bit r n = False"
  "(f3 :: u8) < 8 \<Longrightarrow> 3 \<le> n \<Longrightarrow> bit f3 n = False"
  "(sh :: u8) < 64 \<Longrightarrow> 6 \<le> n \<Longrightarrow> bit sh n = False"
  "(f6 :: u32) < 64 \<Longrightarrow> 6 \<le> n \<Longrightarrow> bit f6 n = False"
  using not_bit_of_less [of op 7 n] not_bit_of_less [of r 5 n] not_bit_of_less [of f3 3 n]
    not_bit_of_less [of sh 6 n] not_bit_of_less [of f6 6 n]
  by simp_all

section \<open>Decoding an encoding\<close>

lemma enc_r_fields:
  assumes "op < 128" "f3 < 8" "f7 < 128" "rd < 32" "rs1 < 32" "rs2 < 32"
  shows "opcode (enc_r op f3 f7 rd rs1 rs2) = op" "funct3 (enc_r op f3 f7 rd rs1 rs2) = f3"
    "funct7 (enc_r op f3 f7 rd rs1 rs2) = f7" "rd_bits (enc_r op f3 f7 rd rs1 rs2) = rd"
    "rs1_bits (enc_r op f3 f7 rd rs1 rs2) = rs1" "rs2_bits (enc_r op f3 f7 rd rs1 rs2) = rs2"
  by (simp_all add: word8_eq_iff upt_8 bit_fields enc_r_def bit_enc_simps
      field_high_bits(1) [OF assms(1)] field_high_bits(3) [OF assms(2)]
      field_high_bits(1) [OF assms(3)] field_high_bits(2) [OF assms(4)]
      field_high_bits(2) [OF assms(5)] field_high_bits(2) [OF assms(6)] del: bit_0)

lemma enc_i_fields:
  assumes "op < 128" "f3 < 8" "rd < 32" "rs1 < 32"
  shows "opcode (enc_i op f3 rd rs1 imm) = op" "funct3 (enc_i op f3 rd rs1 imm) = f3"
    "rd_bits (enc_i op f3 rd rs1 imm) = rd" "rs1_bits (enc_i op f3 rd rs1 imm) = rs1"
  by (simp_all add: word8_eq_iff upt_8 bit_fields enc_i_def bit_enc_simps
      field_high_bits(1) [OF assms(1)] field_high_bits(3) [OF assms(2)]
      field_high_bits(2) [OF assms(3)] field_high_bits(2) [OF assms(4)] del: bit_0)

lemma imm_i_enc_i:
  assumes "op < 128" "f3 < 8" "rd < 32" "rs1 < 32"
  shows "imm_i (enc_i op f3 rd rs1 imm) = signed_take_bit 11 imm"
  by (simp add: word16_eq_iff upt_16 bit_imm_i enc_i_def bit_enc_simps bit_signed_take_bit_iff
      bit_u8_ge field_high_bits(1) [OF assms(1)] field_high_bits(3) [OF assms(2)]
      field_high_bits(2) [OF assms(3)] field_high_bits(2) [OF assms(4)] del: bit_0)

lemma enc_sh_fields:
  assumes "op < 128" "f3 < 8" "f6 < 64" "rd < 32" "rs1 < 32" "shamt < 64"
  shows "opcode (enc_sh op f3 f6 rd rs1 shamt) = op" "funct3 (enc_sh op f3 f6 rd rs1 shamt) = f3"
    "rd_bits (enc_sh op f3 f6 rd rs1 shamt) = rd" "rs1_bits (enc_sh op f3 f6 rd rs1 shamt) = rs1"
    "shamt6 (enc_sh op f3 f6 rd rs1 shamt) = shamt"
  by (simp_all add: word8_eq_iff upt_8 bit_fields enc_sh_def bit_enc_simps
      field_high_bits(1) [OF assms(1)] field_high_bits(3) [OF assms(2)]
      field_high_bits(5) [OF assms(3)] field_high_bits(2) [OF assms(4)]
      field_high_bits(2) [OF assms(5)] field_high_bits(4) [OF assms(6)] del: bit_0)

lemma funct6_enc_sh:
  assumes "op < 128" "f3 < 8" "f6 < 64" "rd < 32" "rs1 < 32" "shamt < 64"
  shows "funct6 (enc_sh op f3 f6 rd rs1 shamt) = f6"
  by (simp add: word32_eq_iff upt_32 bit_fields enc_sh_def bit_enc_simps bit_u8_ge
      field_high_bits(5) [OF assms(3)] field_high_bits(4) [OF assms(6)] del: bit_0)

lemma enc_s_fields:
  assumes "op < 128" "f3 < 8" "rs1 < 32" "rs2 < 32"
  shows "opcode (enc_s op f3 rs1 rs2 imm) = op" "funct3 (enc_s op f3 rs1 rs2 imm) = f3"
    "rs1_bits (enc_s op f3 rs1 rs2 imm) = rs1" "rs2_bits (enc_s op f3 rs1 rs2 imm) = rs2"
  by (simp_all add: word8_eq_iff upt_8 bit_fields enc_s_def bit_enc_simps
      field_high_bits(1) [OF assms(1)] field_high_bits(3) [OF assms(2)]
      field_high_bits(2) [OF assms(3)] field_high_bits(2) [OF assms(4)] del: bit_0)

lemma imm_s_enc_s:
  assumes "op < 128" "f3 < 8" "rs1 < 32" "rs2 < 32"
  shows "imm_s (enc_s op f3 rs1 rs2 imm) = signed_take_bit 11 imm"
  by (simp add: word16_eq_iff upt_16 bit_imm_s enc_s_def bit_enc_simps bit_signed_take_bit_iff
      bit_u8_ge field_high_bits(1) [OF assms(1)] field_high_bits(3) [OF assms(2)]
      field_high_bits(2) [OF assms(3)] field_high_bits(2) [OF assms(4)] del: bit_0)

lemma enc_b_fields:
  assumes "op < 128" "f3 < 8" "rs1 < 32" "rs2 < 32"
  shows "opcode (enc_b op f3 rs1 rs2 imm) = op" "funct3 (enc_b op f3 rs1 rs2 imm) = f3"
    "rs1_bits (enc_b op f3 rs1 rs2 imm) = rs1" "rs2_bits (enc_b op f3 rs1 rs2 imm) = rs2"
  by (simp_all add: word8_eq_iff upt_8 bit_fields enc_b_def bit_enc_simps
      field_high_bits(1) [OF assms(1)] field_high_bits(3) [OF assms(2)]
      field_high_bits(2) [OF assms(3)] field_high_bits(2) [OF assms(4)] del: bit_0)

lemma imm_b_enc_b:
  assumes "op < 128" "f3 < 8" "rs1 < 32" "rs2 < 32"
  shows "imm_b (enc_b op f3 rs1 rs2 imm) = signed_take_bit 12 (clear_bit0 imm)"
  by (simp add: word32_eq_iff upt_32 bit_imm_b enc_b_def bit_enc_simps bit_signed_take_bit_iff
      bit_u8_ge field_high_bits(1) [OF assms(1)] field_high_bits(3) [OF assms(2)]
      field_high_bits(2) [OF assms(3)] field_high_bits(2) [OF assms(4)] del: bit_0)

lemma enc_u_fields:
  assumes "op < 128" "rd < 32"
  shows "opcode (enc_u op rd imm) = op" "rd_bits (enc_u op rd imm) = rd"
  by (simp_all add: word8_eq_iff upt_8 bit_fields enc_u_def bit_enc_simps
      field_high_bits(1) [OF assms(1)] field_high_bits(2) [OF assms(2)] del: bit_0)

lemma imm_u_enc_u:
  assumes "op < 128" "rd < 32"
  shows "imm_u (enc_u op rd imm) = push_bit 12 (drop_bit 12 imm)"
  by (simp add: word32_eq_iff upt_32 bit_imm_u enc_u_def bit_enc_simps bit_u8_ge
      field_high_bits(1) [OF assms(1)] field_high_bits(2) [OF assms(2)] del: bit_0)

lemma enc_j_fields:
  assumes "op < 128" "rd < 32"
  shows "opcode (enc_j op rd imm) = op" "rd_bits (enc_j op rd imm) = rd"
  by (simp_all add: word8_eq_iff upt_8 bit_fields enc_j_def bit_enc_simps
      field_high_bits(1) [OF assms(1)] field_high_bits(2) [OF assms(2)] del: bit_0)

lemma imm_j_enc_j:
  assumes "op < 128" "rd < 32"
  shows "imm_j (enc_j op rd imm) = signed_take_bit 20 (clear_bit0 imm)"
  by (simp add: word32_eq_iff upt_32 bit_imm_j enc_j_def bit_enc_simps bit_signed_take_bit_iff
      bit_u8_ge field_high_bits(1) [OF assms(1)] field_high_bits(2) [OF assms(2)] del: bit_0)

section \<open>Encoding a decoding\<close>

lemma enc_r_of_fields:
  "enc_r (opcode w) (funct3 w) (funct7 w) (rd_bits w) (rs1_bits w) (rs2_bits w) = w"
  by (simp add: word32_eq_iff upt_32 enc_r_def bit_enc_simps bit_fields del: bit_0)

lemma enc_i_of_fields:
  "enc_i (opcode w) (funct3 w) (rd_bits w) (rs1_bits w) (imm_i w) = w"
  by (simp add: word32_eq_iff upt_32 enc_i_def bit_enc_simps bit_fields bit_imm_i del: bit_0)

lemma enc_sh_of_fields:
  "enc_sh (opcode w) (funct3 w) (funct6 w) (rd_bits w) (rs1_bits w) (shamt6 w) = w"
  by (simp add: word32_eq_iff upt_32 enc_sh_def bit_enc_simps bit_fields del: bit_0)

lemma enc_s_of_fields:
  "enc_s (opcode w) (funct3 w) (rs1_bits w) (rs2_bits w) (imm_s w) = w"
  by (simp add: word32_eq_iff upt_32 enc_s_def bit_enc_simps bit_fields bit_imm_s del: bit_0)

lemma enc_b_of_fields:
  "enc_b (opcode w) (funct3 w) (rs1_bits w) (rs2_bits w) (imm_b w) = w"
  by (simp add: word32_eq_iff upt_32 enc_b_def bit_enc_simps bit_fields bit_imm_b del: bit_0)

lemma enc_u_of_fields: "enc_u (opcode w) (rd_bits w) (imm_u w) = w"
  by (simp add: word32_eq_iff upt_32 enc_u_def bit_enc_simps bit_fields bit_imm_u del: bit_0)

lemma enc_j_of_fields: "enc_j (opcode w) (rd_bits w) (imm_j w) = w"
  by (simp add: word32_eq_iff upt_32 enc_j_def bit_enc_simps bit_fields bit_imm_j del: bit_0)

text \<open>The immediates the decoders produce are in range.\<close>

lemma imm_i_range: "signed_take_bit 11 (imm_i w) = imm_i w"
  by (simp add: word16_eq_iff upt_16 bit_imm_i bit_signed_take_bit_iff del: bit_0)

lemma imm_s_range: "signed_take_bit 11 (imm_s w) = imm_s w"
  by (simp add: word16_eq_iff upt_16 bit_imm_s bit_signed_take_bit_iff del: bit_0)

lemma imm_b_range: "signed_take_bit 12 (clear_bit0 (imm_b w)) = imm_b w"
  by (simp add: word32_eq_iff upt_32 bit_imm_b bit_signed_take_bit_iff bit_clear_bit0
      del: bit_0)

lemma imm_j_range: "signed_take_bit 20 (clear_bit0 (imm_j w)) = imm_j w"
  by (simp add: word32_eq_iff upt_32 bit_imm_j bit_signed_take_bit_iff bit_clear_bit0
      del: bit_0)

lemma imm_u_range: "push_bit 12 (drop_bit 12 (imm_u w)) = imm_u w"
  by (simp add: word32_eq_iff upt_32 bit_imm_u bit_push_bit_iff bit_drop_bit_eq del: bit_0)

lemma shamt6_less: "shamt6 w < 64"
  using take_bit_lessI [of 6, where 'a = 8] by (simp add: shamt6_def mask_simps)

lemma shamt5_less: "shamt5 w < 32"
  using take_bit_lessI [of 5, where 'a = 8] by (simp add: shamt5_def mask_simps)

lemma shamt5_eq_rs2: "shamt5 w = rs2_bits w"
  by (simp add: word8_eq_iff upt_8 bit_fields del: bit_0)

end
