(* ===== verification/Rv64_Decode.thy ===== *)
theory Rv64_Decode
  imports Riscv_Formats
begin

text \<open>
  The base RV64 instruction set of crates/execution/ab-riscv-primitives/src/instructions/rv64.rs:
  the enumeration \<open>Rv64Instruction\<close> and its decoder \<open>try_decode\<close>, one definition per arm of the
  match on the opcode. \<open>Reg::from_bits\<close> is the \<open>from_bits\<close> of the register record \<open>R\<close>, so
  the decoder is the generic one of the source; the \<open>?\<close> operator is monadic bind on \<open>option\<close>.

  Against the reference encoders the decoder is shown to be a bijection between the words it
  accepts and the well-formed instructions: it inverts the encoding, and every word it accepts is
  the encoding of what it returns.
\<close>

section \<open>Instructions\<close>

datatype (plugins only: size) 'r Rv64Instruction =
    Add 'r 'r 'r
  | Sub 'r 'r 'r
  | Sll 'r 'r 'r
  | Slt 'r 'r 'r
  | Sltu 'r 'r 'r
  | Xor 'r 'r 'r
  | Srl 'r 'r 'r
  | Sra 'r 'r 'r
  | Or 'r 'r 'r
  | And 'r 'r 'r
  | Addw 'r 'r 'r
  | Subw 'r 'r 'r
  | Sllw 'r 'r 'r
  | Srlw 'r 'r 'r
  | Sraw 'r 'r 'r
  | Addi 'r 'r i16
  | Slti 'r 'r i16
  | Sltiu 'r 'r i16
  | Xori 'r 'r i16
  | Ori 'r 'r i16
  | Andi 'r 'r i16
  | Slli 'r 'r u8
  | Srli 'r 'r u8
  | Srai 'r 'r u8
  | Addiw 'r 'r i16
  | Slliw 'r 'r u8
  | Srliw 'r 'r u8
  | Sraiw 'r 'r u8
  | Lb 'r 'r i16
  | Lh 'r 'r i16
  | Lw 'r 'r i16
  | Ld 'r 'r i16
  | Lbu 'r 'r i16
  | Lhu 'r 'r i16
  | Lwu 'r 'r i16
  | Jalr 'r 'r i16
  | Sb 'r 'r i16
  | Sh 'r 'r i16
  | Sw 'r 'r i16
  | Sd 'r 'r i16
  | Beq 'r 'r I24
  | Bne 'r 'r I24
  | Blt 'r 'r I24
  | Bge 'r 'r I24
  | Bltu 'r 'r I24
  | Bgeu 'r 'r I24
  | Lui 'r I24WithZeroedBits
  | Auipc 'r I24WithZeroedBits
  | Jal 'r I24
  | Fence u8 u8
  | FenceTso
  | Ecall
  | Ebreak
  | Unimp

text \<open>
  Operands are in the order of the source's fields: \<open>rd rs1 rs2\<close>, \<open>rd rs1 imm\<close>, \<open>rs2 rs1 imm\<close>
  for stores and \<open>rs1 rs2 imm\<close> for branches.
\<close>

section \<open>Decoder\<close>

definition rv64_decode_op :: "'r register \<Rightarrow> u32 \<Rightarrow> 'r Rv64Instruction option" where
  "rv64_decode_op R w = do {
     rd \<leftarrow> from_bits R (rd_bits w);
     rs1 \<leftarrow> from_bits R (rs1_bits w);
     rs2 \<leftarrow> from_bits R (rs2_bits w);
     if funct3 w = 0b000 \<and> funct7 w = 0b0000000 then Some (Add rd rs1 rs2)
     else if funct3 w = 0b000 \<and> funct7 w = 0b0100000 then Some (Sub rd rs1 rs2)
     else if funct3 w = 0b001 \<and> funct7 w = 0b0000000 then Some (Sll rd rs1 rs2)
     else if funct3 w = 0b010 \<and> funct7 w = 0b0000000 then Some (Slt rd rs1 rs2)
     else if funct3 w = 0b011 \<and> funct7 w = 0b0000000 then Some (Sltu rd rs1 rs2)
     else if funct3 w = 0b100 \<and> funct7 w = 0b0000000 then Some (Xor rd rs1 rs2)
     else if funct3 w = 0b101 \<and> funct7 w = 0b0000000 then Some (Srl rd rs1 rs2)
     else if funct3 w = 0b101 \<and> funct7 w = 0b0100000 then Some (Sra rd rs1 rs2)
     else if funct3 w = 0b110 \<and> funct7 w = 0b0000000 then Some (Or rd rs1 rs2)
     else if funct3 w = 0b111 \<and> funct7 w = 0b0000000 then Some (And rd rs1 rs2)
     else None
   }"

definition rv64_decode_op_32 :: "'r register \<Rightarrow> u32 \<Rightarrow> 'r Rv64Instruction option" where
  "rv64_decode_op_32 R w = do {
     rd \<leftarrow> from_bits R (rd_bits w);
     rs1 \<leftarrow> from_bits R (rs1_bits w);
     rs2 \<leftarrow> from_bits R (rs2_bits w);
     if funct3 w = 0b000 \<and> funct7 w = 0b0000000 then Some (Addw rd rs1 rs2)
     else if funct3 w = 0b000 \<and> funct7 w = 0b0100000 then Some (Subw rd rs1 rs2)
     else if funct3 w = 0b001 \<and> funct7 w = 0b0000000 then Some (Sllw rd rs1 rs2)
     else if funct3 w = 0b101 \<and> funct7 w = 0b0000000 then Some (Srlw rd rs1 rs2)
     else if funct3 w = 0b101 \<and> funct7 w = 0b0100000 then Some (Sraw rd rs1 rs2)
     else None
   }"

definition rv64_decode_op_imm :: "'r register \<Rightarrow> u32 \<Rightarrow> 'r Rv64Instruction option" where
  "rv64_decode_op_imm R w = do {
     rd \<leftarrow> from_bits R (rd_bits w);
     rs1 \<leftarrow> from_bits R (rs1_bits w);
     let imm = imm_i w in
     if funct3 w = 0b000 then Some (Addi rd rs1 imm)
     else if funct3 w = 0b010 then Some (Slti rd rs1 imm)
     else if funct3 w = 0b011 then Some (Sltiu rd rs1 imm)
     else if funct3 w = 0b100 then Some (Xori rd rs1 imm)
     else if funct3 w = 0b110 then Some (Ori rd rs1 imm)
     else if funct3 w = 0b111 then Some (Andi rd rs1 imm)
     else if funct3 w = 0b001 then
       (if funct6 w = 0b000000 then Some (Slli rd rs1 (shamt6 w)) else None)
     else if funct3 w = 0b101 then
       (if funct6 w = 0b000000 then Some (Srli rd rs1 (shamt6 w))
        else if funct6 w = 0b010000 then Some (Srai rd rs1 (shamt6 w))
        else None)
     else None
   }"

definition rv64_decode_op_imm_32 :: "'r register \<Rightarrow> u32 \<Rightarrow> 'r Rv64Instruction option" where
  "rv64_decode_op_imm_32 R w = do {
     rd \<leftarrow> from_bits R (rd_bits w);
     rs1 \<leftarrow> from_bits R (rs1_bits w);
     let imm = imm_i w; shamt = shamt5 w in
     if funct3 w = 0b000 then Some (Addiw rd rs1 imm)
     else if funct3 w = 0b001 then
       (if funct7 w = 0b0000000 then Some (Slliw rd rs1 shamt) else None)
     else if funct3 w = 0b101 then
       (if funct7 w = 0b0000000 then Some (Srliw rd rs1 shamt)
        else if funct7 w = 0b0100000 then Some (Sraiw rd rs1 shamt)
        else None)
     else None
   }"

definition rv64_decode_load :: "'r register \<Rightarrow> u32 \<Rightarrow> 'r Rv64Instruction option" where
  "rv64_decode_load R w = do {
     rd \<leftarrow> from_bits R (rd_bits w);
     rs1 \<leftarrow> from_bits R (rs1_bits w);
     let imm = imm_i w in
     if funct3 w = 0b000 then Some (Lb rd rs1 imm)
     else if funct3 w = 0b001 then Some (Lh rd rs1 imm)
     else if funct3 w = 0b010 then Some (Lw rd rs1 imm)
     else if funct3 w = 0b011 then Some (Ld rd rs1 imm)
     else if funct3 w = 0b100 then Some (Lbu rd rs1 imm)
     else if funct3 w = 0b101 then Some (Lhu rd rs1 imm)
     else if funct3 w = 0b110 then Some (Lwu rd rs1 imm)
     else None
   }"

definition rv64_decode_jalr :: "'r register \<Rightarrow> u32 \<Rightarrow> 'r Rv64Instruction option" where
  "rv64_decode_jalr R w = do {
     rd \<leftarrow> from_bits R (rd_bits w);
     rs1 \<leftarrow> from_bits R (rs1_bits w);
     if funct3 w = 0b000 then Some (Jalr rd rs1 (imm_i w)) else None
   }"

definition rv64_decode_store :: "'r register \<Rightarrow> u32 \<Rightarrow> 'r Rv64Instruction option" where
  "rv64_decode_store R w = do {
     rs1 \<leftarrow> from_bits R (rs1_bits w);
     rs2 \<leftarrow> from_bits R (rs2_bits w);
     let imm = imm_s w in
     if funct3 w = 0b000 then Some (Sb rs2 rs1 imm)
     else if funct3 w = 0b001 then Some (Sh rs2 rs1 imm)
     else if funct3 w = 0b010 then Some (Sw rs2 rs1 imm)
     else if funct3 w = 0b011 then Some (Sd rs2 rs1 imm)
     else None
   }"

definition rv64_decode_branch :: "'r register \<Rightarrow> u32 \<Rightarrow> 'r Rv64Instruction option" where
  "rv64_decode_branch R w = do {
     rs1 \<leftarrow> from_bits R (rs1_bits w);
     rs2 \<leftarrow> from_bits R (rs2_bits w);
     let imm = I24_from_i32 (imm_b w) in
     if funct3 w = 0b000 then Some (Beq rs1 rs2 imm)
     else if funct3 w = 0b001 then Some (Bne rs1 rs2 imm)
     else if funct3 w = 0b100 then Some (Blt rs1 rs2 imm)
     else if funct3 w = 0b101 then Some (Bge rs1 rs2 imm)
     else if funct3 w = 0b110 then Some (Bltu rs1 rs2 imm)
     else if funct3 w = 0b111 then Some (Bgeu rs1 rs2 imm)
     else None
   }"

definition rv64_decode_fence :: "u32 \<Rightarrow> 'r Rv64Instruction option" where
  "rv64_decode_fence w =
    (if funct3 w = 0b000 \<and> rd_bits w = 0 \<and> rs1_bits w = 0 then
       (let fm = shr w 28 AND 0b1111; pred = ucast (shr w 24 AND 0xf);
            succ = ucast (shr w 20 AND 0xf)
        in if fm = 0b0000 then Some (Fence pred succ)
           else if fm = 0b1000 then
             (if pred = 0b0011 \<and> succ = 0b0011 then Some FenceTso else None)
           else None)
     else None)"

definition rv64_decode_system :: "u32 \<Rightarrow> 'r Rv64Instruction option" where
  "rv64_decode_system w =
    (let imm = shr w 20 AND 0xfff
     in if funct3 w = 0 \<and> rd_bits w = 0 \<and> rs1_bits w = 0 then
          (if imm = 0 then Some Ecall else if imm = 1 then Some Ebreak else None)
        else if funct3 w = 0b001 \<and> rd_bits w = 0 \<and> rs1_bits w = 0 \<and> imm = 0xc00 then Some Unimp
        else None)"

definition rv64_try_decode :: "'r register \<Rightarrow> u32 \<Rightarrow> 'r Rv64Instruction option" where
  "rv64_try_decode R w =
    (if opcode w = 0b0110011 then rv64_decode_op R w
     else if opcode w = 0b0111011 then rv64_decode_op_32 R w
     else if opcode w = 0b0010011 then rv64_decode_op_imm R w
     else if opcode w = 0b0011011 then rv64_decode_op_imm_32 R w
     else if opcode w = 0b0000011 then rv64_decode_load R w
     else if opcode w = 0b1100111 then rv64_decode_jalr R w
     else if opcode w = 0b0100011 then rv64_decode_store R w
     else if opcode w = 0b1100011 then rv64_decode_branch R w
     else if opcode w = 0b0110111 then
       do { rd \<leftarrow> from_bits R (rd_bits w); Some (Lui rd (I24Z_from_i32 12 (imm_u w))) }
     else if opcode w = 0b0010111 then
       do { rd \<leftarrow> from_bits R (rd_bits w); Some (Auipc rd (I24Z_from_i32 12 (imm_u w))) }
     else if opcode w = 0b1101111 then
       do { rd \<leftarrow> from_bits R (rd_bits w); Some (Jal rd (I24_from_i32 (imm_j w))) }
     else if opcode w = 0b0001111 then rv64_decode_fence w
     else if opcode w = 0b1110011 then rv64_decode_system w
     else None)"

definition rv64_alignment :: u8 where
  "rv64_alignment = 4"

definition rv64_size :: "'r Rv64Instruction \<Rightarrow> u8" where
  "rv64_size i = 4"

section \<open>Reference encoding\<close>

primrec rv64_encode :: "'r register \<Rightarrow> 'r Rv64Instruction \<Rightarrow> u32" where
  "rv64_encode R (Add rd rs1 rs2) = enc_r 0x33 0 0 (offset R rd) (offset R rs1) (offset R rs2)"
| "rv64_encode R (Sub rd rs1 rs2) = enc_r 0x33 0 32 (offset R rd) (offset R rs1) (offset R rs2)"
| "rv64_encode R (Sll rd rs1 rs2) = enc_r 0x33 1 0 (offset R rd) (offset R rs1) (offset R rs2)"
| "rv64_encode R (Slt rd rs1 rs2) = enc_r 0x33 2 0 (offset R rd) (offset R rs1) (offset R rs2)"
| "rv64_encode R (Sltu rd rs1 rs2) = enc_r 0x33 3 0 (offset R rd) (offset R rs1) (offset R rs2)"
| "rv64_encode R (Xor rd rs1 rs2) = enc_r 0x33 4 0 (offset R rd) (offset R rs1) (offset R rs2)"
| "rv64_encode R (Srl rd rs1 rs2) = enc_r 0x33 5 0 (offset R rd) (offset R rs1) (offset R rs2)"
| "rv64_encode R (Sra rd rs1 rs2) = enc_r 0x33 5 32 (offset R rd) (offset R rs1) (offset R rs2)"
| "rv64_encode R (Or rd rs1 rs2) = enc_r 0x33 6 0 (offset R rd) (offset R rs1) (offset R rs2)"
| "rv64_encode R (And rd rs1 rs2) = enc_r 0x33 7 0 (offset R rd) (offset R rs1) (offset R rs2)"
| "rv64_encode R (Addw rd rs1 rs2) = enc_r 0x3b 0 0 (offset R rd) (offset R rs1) (offset R rs2)"
| "rv64_encode R (Subw rd rs1 rs2) = enc_r 0x3b 0 32 (offset R rd) (offset R rs1) (offset R rs2)"
| "rv64_encode R (Sllw rd rs1 rs2) = enc_r 0x3b 1 0 (offset R rd) (offset R rs1) (offset R rs2)"
| "rv64_encode R (Srlw rd rs1 rs2) = enc_r 0x3b 5 0 (offset R rd) (offset R rs1) (offset R rs2)"
| "rv64_encode R (Sraw rd rs1 rs2) = enc_r 0x3b 5 32 (offset R rd) (offset R rs1) (offset R rs2)"
| "rv64_encode R (Addi rd rs1 imm) = enc_i 0x13 0 (offset R rd) (offset R rs1) imm"
| "rv64_encode R (Slti rd rs1 imm) = enc_i 0x13 2 (offset R rd) (offset R rs1) imm"
| "rv64_encode R (Sltiu rd rs1 imm) = enc_i 0x13 3 (offset R rd) (offset R rs1) imm"
| "rv64_encode R (Xori rd rs1 imm) = enc_i 0x13 4 (offset R rd) (offset R rs1) imm"
| "rv64_encode R (Ori rd rs1 imm) = enc_i 0x13 6 (offset R rd) (offset R rs1) imm"
| "rv64_encode R (Andi rd rs1 imm) = enc_i 0x13 7 (offset R rd) (offset R rs1) imm"
| "rv64_encode R (Slli rd rs1 shamt) = enc_sh 0x13 1 0 (offset R rd) (offset R rs1) shamt"
| "rv64_encode R (Srli rd rs1 shamt) = enc_sh 0x13 5 0 (offset R rd) (offset R rs1) shamt"
| "rv64_encode R (Srai rd rs1 shamt) = enc_sh 0x13 5 16 (offset R rd) (offset R rs1) shamt"
| "rv64_encode R (Addiw rd rs1 imm) = enc_i 0x1b 0 (offset R rd) (offset R rs1) imm"
| "rv64_encode R (Slliw rd rs1 shamt) = enc_r 0x1b 1 0 (offset R rd) (offset R rs1) shamt"
| "rv64_encode R (Srliw rd rs1 shamt) = enc_r 0x1b 5 0 (offset R rd) (offset R rs1) shamt"
| "rv64_encode R (Sraiw rd rs1 shamt) = enc_r 0x1b 5 32 (offset R rd) (offset R rs1) shamt"
| "rv64_encode R (Lb rd rs1 imm) = enc_i 0x03 0 (offset R rd) (offset R rs1) imm"
| "rv64_encode R (Lh rd rs1 imm) = enc_i 0x03 1 (offset R rd) (offset R rs1) imm"
| "rv64_encode R (Lw rd rs1 imm) = enc_i 0x03 2 (offset R rd) (offset R rs1) imm"
| "rv64_encode R (Ld rd rs1 imm) = enc_i 0x03 3 (offset R rd) (offset R rs1) imm"
| "rv64_encode R (Lbu rd rs1 imm) = enc_i 0x03 4 (offset R rd) (offset R rs1) imm"
| "rv64_encode R (Lhu rd rs1 imm) = enc_i 0x03 5 (offset R rd) (offset R rs1) imm"
| "rv64_encode R (Lwu rd rs1 imm) = enc_i 0x03 6 (offset R rd) (offset R rs1) imm"
| "rv64_encode R (Jalr rd rs1 imm) = enc_i 0x67 0 (offset R rd) (offset R rs1) imm"
| "rv64_encode R (Sb rs2 rs1 imm) = enc_s 0x23 0 (offset R rs1) (offset R rs2) imm"
| "rv64_encode R (Sh rs2 rs1 imm) = enc_s 0x23 1 (offset R rs1) (offset R rs2) imm"
| "rv64_encode R (Sw rs2 rs1 imm) = enc_s 0x23 2 (offset R rs1) (offset R rs2) imm"
| "rv64_encode R (Sd rs2 rs1 imm) = enc_s 0x23 3 (offset R rs1) (offset R rs2) imm"
| "rv64_encode R (Beq rs1 rs2 imm) = enc_b 0x63 0 (offset R rs1) (offset R rs2) (I24_to_i32 imm)"
| "rv64_encode R (Bne rs1 rs2 imm) = enc_b 0x63 1 (offset R rs1) (offset R rs2) (I24_to_i32 imm)"
| "rv64_encode R (Blt rs1 rs2 imm) = enc_b 0x63 4 (offset R rs1) (offset R rs2) (I24_to_i32 imm)"
| "rv64_encode R (Bge rs1 rs2 imm) = enc_b 0x63 5 (offset R rs1) (offset R rs2) (I24_to_i32 imm)"
| "rv64_encode R (Bltu rs1 rs2 imm) = enc_b 0x63 6 (offset R rs1) (offset R rs2) (I24_to_i32 imm)"
| "rv64_encode R (Bgeu rs1 rs2 imm) = enc_b 0x63 7 (offset R rs1) (offset R rs2) (I24_to_i32 imm)"
| "rv64_encode R (Lui rd imm) = enc_u 0x37 (offset R rd) (I24Z_to_i32 12 imm)"
| "rv64_encode R (Auipc rd imm) = enc_u 0x17 (offset R rd) (I24Z_to_i32 12 imm)"
| "rv64_encode R (Jal rd imm) = enc_j 0x6f (offset R rd) (I24_to_i32 imm)"
| "rv64_encode R (Fence pred succ) = enc_i 0x0f 0 0 0 (ucast succ OR push_bit 4 (ucast pred))"
| "rv64_encode R FenceTso = 0x8330000f"
| "rv64_encode R Ecall = 0x00000073"
| "rv64_encode R Ebreak = 0x00100073"
| "rv64_encode R Unimp = 0xc0001073"

text \<open>
  Immediates and shift amounts in the range of their encoding: 12-bit signed for I and S, even
  13-bit signed for B, even 21-bit signed for J, 20 upper bits for U.
\<close>

definition imm12_ok :: "i16 \<Rightarrow> bool" where
  "imm12_ok imm \<longleftrightarrow> signed_take_bit 11 imm = imm"

definition imm13_ok :: "I24 \<Rightarrow> bool" where
  "imm13_ok imm \<longleftrightarrow> signed_take_bit 12 (clear_bit0 (I24_to_i32 imm)) = I24_to_i32 imm"

definition imm21_ok :: "I24 \<Rightarrow> bool" where
  "imm21_ok imm \<longleftrightarrow> signed_take_bit 20 (clear_bit0 (I24_to_i32 imm)) = I24_to_i32 imm"

definition imm20_ok :: "I24WithZeroedBits \<Rightarrow> bool" where
  "imm20_ok imm \<longleftrightarrow> I24Z_from_i32 12 (I24Z_to_i32 12 imm) = imm"

primrec rv64_wf :: "'r Rv64Instruction \<Rightarrow> bool" where
  "rv64_wf (Addi rd rs1 imm) = imm12_ok imm"
| "rv64_wf (Slti rd rs1 imm) = imm12_ok imm"
| "rv64_wf (Sltiu rd rs1 imm) = imm12_ok imm"
| "rv64_wf (Xori rd rs1 imm) = imm12_ok imm"
| "rv64_wf (Ori rd rs1 imm) = imm12_ok imm"
| "rv64_wf (Andi rd rs1 imm) = imm12_ok imm"
| "rv64_wf (Addiw rd rs1 imm) = imm12_ok imm"
| "rv64_wf (Lb rd rs1 imm) = imm12_ok imm"
| "rv64_wf (Lh rd rs1 imm) = imm12_ok imm"
| "rv64_wf (Lw rd rs1 imm) = imm12_ok imm"
| "rv64_wf (Ld rd rs1 imm) = imm12_ok imm"
| "rv64_wf (Lbu rd rs1 imm) = imm12_ok imm"
| "rv64_wf (Lhu rd rs1 imm) = imm12_ok imm"
| "rv64_wf (Lwu rd rs1 imm) = imm12_ok imm"
| "rv64_wf (Jalr rd rs1 imm) = imm12_ok imm"
| "rv64_wf (Sb rs2 rs1 imm) = imm12_ok imm"
| "rv64_wf (Sh rs2 rs1 imm) = imm12_ok imm"
| "rv64_wf (Sw rs2 rs1 imm) = imm12_ok imm"
| "rv64_wf (Sd rs2 rs1 imm) = imm12_ok imm"
| "rv64_wf (Slli rd rs1 shamt) = (shamt < 64)"
| "rv64_wf (Srli rd rs1 shamt) = (shamt < 64)"
| "rv64_wf (Srai rd rs1 shamt) = (shamt < 64)"
| "rv64_wf (Slliw rd rs1 shamt) = (shamt < 32)"
| "rv64_wf (Srliw rd rs1 shamt) = (shamt < 32)"
| "rv64_wf (Sraiw rd rs1 shamt) = (shamt < 32)"
| "rv64_wf (Beq rs1 rs2 imm) = imm13_ok imm"
| "rv64_wf (Bne rs1 rs2 imm) = imm13_ok imm"
| "rv64_wf (Blt rs1 rs2 imm) = imm13_ok imm"
| "rv64_wf (Bge rs1 rs2 imm) = imm13_ok imm"
| "rv64_wf (Bltu rs1 rs2 imm) = imm13_ok imm"
| "rv64_wf (Bgeu rs1 rs2 imm) = imm13_ok imm"
| "rv64_wf (Lui rd imm) = imm20_ok imm"
| "rv64_wf (Auipc rd imm) = imm20_ok imm"
| "rv64_wf (Jal rd imm) = imm21_ok imm"
| "rv64_wf (Fence pred succ) = (pred < 16 \<and> succ < 16)"
| "rv64_wf (Add rd rs1 rs2) = True"
| "rv64_wf (Sub rd rs1 rs2) = True"
| "rv64_wf (Sll rd rs1 rs2) = True"
| "rv64_wf (Slt rd rs1 rs2) = True"
| "rv64_wf (Sltu rd rs1 rs2) = True"
| "rv64_wf (Xor rd rs1 rs2) = True"
| "rv64_wf (Srl rd rs1 rs2) = True"
| "rv64_wf (Sra rd rs1 rs2) = True"
| "rv64_wf (Or rd rs1 rs2) = True"
| "rv64_wf (And rd rs1 rs2) = True"
| "rv64_wf (Addw rd rs1 rs2) = True"
| "rv64_wf (Subw rd rs1 rs2) = True"
| "rv64_wf (Sllw rd rs1 rs2) = True"
| "rv64_wf (Srlw rd rs1 rs2) = True"
| "rv64_wf (Sraw rd rs1 rs2) = True"
| "rv64_wf FenceTso = True"
| "rv64_wf Ecall = True"
| "rv64_wf Ebreak = True"
| "rv64_wf Unimp = True"

section \<open>The decoder and the encoding\<close>

named_theorems rv64_decode_defs \<open>the arms of the RV64 decoder\<close>

lemmas [rv64_decode_defs] = rv64_decode_op_def rv64_decode_op_32_def rv64_decode_op_imm_def
  rv64_decode_op_imm_32_def rv64_decode_load_def rv64_decode_jalr_def rv64_decode_store_def
  rv64_decode_branch_def rv64_decode_fence_def rv64_decode_system_def

lemmas format_fields = enc_r_fields enc_i_fields imm_i_enc_i enc_sh_fields funct6_enc_sh
  enc_s_fields imm_s_enc_s enc_b_fields imm_b_enc_b enc_u_fields imm_u_enc_u enc_j_fields
  imm_j_enc_j

lemma I24Z_from_push_drop:
  "I24Z_from_i32 12 (push_bit 12 (drop_bit 12 (I24Z_to_i32 12 imm))) =
    I24Z_from_i32 12 (I24Z_to_i32 12 imm)"
proof -
  have "push_bit 12 (drop_bit 12 (I24Z_to_i32 12 imm)) = I24Z_to_i32 12 imm"
    by (cases imm) (simp only: I24Z_to_i32_12, simp add: word32_eq_iff
        upt_32 bit_push_bit_iff bit_drop_bit_eq del: I24_to_i32.simps bit_0)
  then show ?thesis by simp
qed

lemma fence_fields:
  fixes pred succ :: u8
  assumes "pred < 16" "succ < 16"
  defines "w \<equiv> enc_i 0x0f 0 0 0 (ucast succ OR push_bit 4 (ucast pred))"
  shows "shr w 28 AND 0xf = 0" "ucast (shr w 24 AND 0xf) = pred" "ucast (shr w 20 AND 0xf) = succ"
proof -
  note high = not_bit_of_less [of pred 4, simplified, OF assms(1)]
    not_bit_of_less [of succ 4, simplified, OF assms(2)]
  show "shr w 28 AND 0xf = 0"
    by (simp add: w_def enc_i_def mask_simps word32_eq_iff upt_32 bit_enc_simps bit_shr32 high
        bit_u8_ge del: bit_0)
  show "ucast (shr w 24 AND 0xf) = pred" "ucast (shr w 20 AND 0xf) = succ"
    by (simp_all add: w_def enc_i_def mask_simps word8_eq_iff upt_8 bit_enc_simps bit_shr32 high
        del: bit_0)
qed

lemma system_fields:
  "opcode 0x8330000f = 0x0f" "funct3 0x8330000f = 0" "rd_bits 0x8330000f = 0"
  "rs1_bits 0x8330000f = 0" "shr 0x8330000f 28 AND 0xf = (8 :: u32)"
  "shr 0x8330000f 24 AND 0xf = (3 :: u32)" "shr 0x8330000f 20 AND 0xf = (3 :: u32)"
  "opcode 0x73 = 0x73" "funct3 0x73 = 0" "rd_bits 0x73 = 0" "rs1_bits 0x73 = 0"
  "shr 0x73 20 AND 0xfff = (0 :: u32)"
  "opcode 0x100073 = 0x73" "funct3 0x100073 = 0" "rd_bits 0x100073 = 0" "rs1_bits 0x100073 = 0"
  "shr 0x100073 20 AND 0xfff = (1 :: u32)"
  "opcode 0xc0001073 = 0x73" "funct3 0xc0001073 = 1" "rd_bits 0xc0001073 = 0"
  "rs1_bits 0xc0001073 = 0" "shr 0xc0001073 20 AND 0xfff = (0xc00 :: u32)"
  by code_simp+

lemma fence_imm:
  assumes "shr w 28 AND 0xf = (0 :: u32)"
  shows "ucast (ucast (shr w 20 AND 0xf) :: u8) OR push_bit 4 (ucast (ucast (shr w 24 AND 0xf) :: u8)) =
    imm_i w"
proof -
  have "\<not> bit w 28 \<and> \<not> bit w 29 \<and> \<not> bit w 30 \<and> \<not> bit w 31"
    using assms
    by (simp add: mask_simps word32_eq_iff upt_32 bit_take_bit_iff bit_shr32 del: bit_0)
  then show ?thesis
    by (simp add: mask_simps word16_eq_iff upt_16 bit_imm_i bit_enc_simps bit_shr32 del: bit_0)
qed

lemma fence_range: "ucast (x AND 0xf :: u32) < (16 :: u8)"
proof -
  have "ucast (x AND 0xf) = take_bit 4 (ucast x :: u8)"
    by (simp add: mask_simps word8_eq_iff upt_8 bit_enc_simps del: bit_0)
  then show ?thesis using take_bit_lessI [of 4, where 'a = 8] by simp
qed

lemma imm_i_eq: "imm_i w = ucast (signed_take_bit 11 (shr w 20 AND 0xfff))"
  by (simp add: mask_simps word16_eq_iff upt_16 bit_imm_i bit_enc_simps bit_signed_take_bit_iff
      bit_shr32 del: bit_0)

lemma tso_imm:
  assumes "shr w 28 AND 0xf = (8 :: u32)" "ucast (shr w 20 AND 0xf :: u32) = (3 :: u8)"
    "ucast (shr w 24 AND 0xf :: u32) = (3 :: u8)"
  shows "imm_i w = 0xf833"
  using assms
  by (simp add: mask_simps word32_eq_iff upt_32 word16_eq_iff upt_16 word8_eq_iff upt_8 bit_imm_i
      bit_enc_simps bit_shr32 del: bit_0)

context basic_register
begin

lemma rv64_decode_encode:
  assumes "rv64_wf i"
  shows "rv64_try_decode R (rv64_encode R i) = Some i"
  using assms
  by (cases i)
    (simp_all add: rv64_try_decode_def rv64_decode_defs format_fields offset_less_32
      from_bits_offset imm12_ok_def imm13_ok_def imm21_ok_def imm20_ok_def I24Z_from_push_drop
      shamt5_eq_rs2 fence_fields system_fields)

lemma rv64_decode_op_sound:
  "opcode w = 0x33 \<Longrightarrow> rv64_decode_op R w = Some i \<Longrightarrow> rv64_encode R i = w \<and> rv64_wf i"
  using enc_r_of_fields [of w]
  by (auto simp: rv64_decode_op_def bind_eq_Some_conv from_bits_eq_Some_iff split: if_splits)

lemma rv64_decode_op_32_sound:
  "opcode w = 0x3b \<Longrightarrow> rv64_decode_op_32 R w = Some i \<Longrightarrow> rv64_encode R i = w \<and> rv64_wf i"
  using enc_r_of_fields [of w]
  by (auto simp: rv64_decode_op_32_def bind_eq_Some_conv from_bits_eq_Some_iff split: if_splits)

lemma rv64_decode_op_imm_sound:
  "opcode w = 0x13 \<Longrightarrow> rv64_decode_op_imm R w = Some i \<Longrightarrow> rv64_encode R i = w \<and> rv64_wf i"
  using enc_i_of_fields [of w] enc_sh_of_fields [of w] shamt6_less [of w] imm_i_range [of w]
  by (auto simp: rv64_decode_op_imm_def bind_eq_Some_conv from_bits_eq_Some_iff Let_def
      imm12_ok_def split: if_splits)

lemma rv64_decode_op_imm_32_sound:
  "opcode w = 0x1b \<Longrightarrow> rv64_decode_op_imm_32 R w = Some i \<Longrightarrow> rv64_encode R i = w \<and> rv64_wf i"
  using enc_i_of_fields [of w] enc_r_of_fields [of w] shamt5_less [of w] imm_i_range [of w]
  by (auto simp: rv64_decode_op_imm_32_def bind_eq_Some_conv from_bits_eq_Some_iff Let_def
      imm12_ok_def shamt5_eq_rs2 split: if_splits)

lemma rv64_decode_load_sound:
  "opcode w = 0x03 \<Longrightarrow> rv64_decode_load R w = Some i \<Longrightarrow> rv64_encode R i = w \<and> rv64_wf i"
  using enc_i_of_fields [of w] imm_i_range [of w]
  by (auto simp: rv64_decode_load_def bind_eq_Some_conv from_bits_eq_Some_iff Let_def
      imm12_ok_def split: if_splits)

lemma rv64_decode_jalr_sound:
  "opcode w = 0x67 \<Longrightarrow> rv64_decode_jalr R w = Some i \<Longrightarrow> rv64_encode R i = w \<and> rv64_wf i"
  using enc_i_of_fields [of w] imm_i_range [of w]
  by (auto simp: rv64_decode_jalr_def bind_eq_Some_conv from_bits_eq_Some_iff
      imm12_ok_def split: if_splits)

lemma rv64_decode_store_sound:
  "opcode w = 0x23 \<Longrightarrow> rv64_decode_store R w = Some i \<Longrightarrow> rv64_encode R i = w \<and> rv64_wf i"
  using enc_s_of_fields [of w] imm_s_range [of w]
  by (auto simp: rv64_decode_store_def bind_eq_Some_conv from_bits_eq_Some_iff Let_def
      imm12_ok_def split: if_splits)

lemma rv64_decode_branch_sound:
  "opcode w = 0x63 \<Longrightarrow> rv64_decode_branch R w = Some i \<Longrightarrow> rv64_encode R i = w \<and> rv64_wf i"
  using enc_b_of_fields [of w] imm_b_range [of w] I24_fits_imm_b [of w]
  by (auto simp: rv64_decode_branch_def bind_eq_Some_conv from_bits_eq_Some_iff Let_def
      imm13_ok_def I24_roundtrip split: if_splits)

lemma rv64_decode_fence_sound:
  "opcode w = 0x0f \<Longrightarrow> rv64_decode_fence w = Some i \<Longrightarrow> rv64_encode R i = w \<and> rv64_wf i"
  using enc_i_of_fields [of w] fence_imm [of w] tso_imm [of w]
  by (auto simp: rv64_decode_fence_def Let_def enc_i_def fence_range split: if_splits)

lemma rv64_decode_system_sound:
  "opcode w = 0x73 \<Longrightarrow> rv64_decode_system w = Some i \<Longrightarrow> rv64_encode R i = w \<and> rv64_wf i"
  using enc_i_of_fields [of w] 
  by (auto simp: rv64_decode_system_def Let_def enc_i_def imm_i_eq split: if_splits)

lemma rv64_decode_upper_sound:
  assumes "offset R rd = rd_bits w"
  shows "opcode w = 0x37 \<Longrightarrow> rv64_encode R (Lui rd (I24Z_from_i32 12 (imm_u w))) = w"
    and "opcode w = 0x17 \<Longrightarrow> rv64_encode R (Auipc rd (I24Z_from_i32 12 (imm_u w))) = w"
    and "imm20_ok (I24Z_from_i32 12 (imm_u w))"
  using enc_u_of_fields [of w] I24Z_fits_imm_u [of w] assms
  by (simp_all add: I24Z_fits_def imm20_ok_def)

lemma rv64_decode_jal_sound:
  assumes "offset R rd = rd_bits w"
  shows "opcode w = 0x6f \<Longrightarrow> rv64_encode R (Jal rd (I24_from_i32 (imm_j w))) = w"
    and "imm21_ok (I24_from_i32 (imm_j w))"
  using enc_j_of_fields [of w] I24_fits_imm_j [of w] imm_j_range [of w] assms
  by (simp_all add: I24_roundtrip imm21_ok_def)

lemmas rv64_decode_sound = rv64_decode_op_sound rv64_decode_op_32_sound rv64_decode_op_imm_sound
  rv64_decode_op_imm_32_sound rv64_decode_load_sound rv64_decode_jalr_sound
  rv64_decode_store_sound rv64_decode_branch_sound rv64_decode_fence_sound
  rv64_decode_system_sound

lemma rv64_encode_decode:
  assumes "rv64_try_decode R w = Some i"
  shows "rv64_encode R i = w \<and> rv64_wf i"
  using assms rv64_decode_sound [of w i]
  by (auto simp: rv64_try_decode_def bind_eq_Some_conv from_bits_eq_Some_iff
      rv64_decode_upper_sound rv64_decode_jal_sound
      simp del: rv64_encode.simps split: if_split_asm)

lemma rv64_decode_iff_encode:
  "rv64_try_decode R w = Some i \<longleftrightarrow> rv64_wf i \<and> rv64_encode R i = w"
  using rv64_decode_encode rv64_encode_decode by blast

end

section \<open>Properties\<close>

text \<open>
  C1. For every register type that satisfies the contract of \<open>BasicRegister\<close>, \<open>try_decode\<close> accepts
  a word and returns an instruction exactly when the instruction is well-formed (its immediates and
  shift amounts are in range) and the word is its encoding in the formats of the ISA manual. So the
  decoder accepts nothing but valid encodings, misses none, and two different words never decode to
  the same instruction.
\<close>

theorem rv64_decode_correct:
  assumes "basic_register R"
  shows "rv64_try_decode R w = Some i \<longleftrightarrow> rv64_wf i \<and> rv64_encode R i = w"
  by (rule basic_register.rv64_decode_iff_encode [OF assms])

theorem rv64_decode_correct_witness:
  "rv64_try_decode Reg_register 0xfe628ce3 = Some (Beq Reg.T0 Reg.T1 (I24_from_i32 (- 8)))"
proof -
  have "rv64_encode Reg_register (Beq Reg.T0 Reg.T1 (I24_from_i32 (- 8))) = 0xfe628ce3"
    by (simp only: rv64_encode.simps) code_simp
  moreover have "rv64_wf (Beq Reg.T0 Reg.T1 (I24_from_i32 (- 8)))"
    by (simp only: rv64_wf.simps) code_simp
  ultimately show ?thesis
    using rv64_decode_correct [OF reg.basic_register_axioms] by blast
qed

end
