(* ===== verification/Rv64_Exec.thy ===== *)
theory Rv64_Exec
  imports Riscv_Machine Rv64_Decode
begin

text \<open>
  Execution of the base RV64 instruction set:
  crates/execution/ab-riscv-interpreter/src/rv64.rs. \<open>rv64_execute\<close> has one equation per arm of
  the source's match; \<open>rv64_operands\<close> is the \<open>get_rs1_rs2_operands\<close> the macro derives from the
  field names. Casts between Rust integers are \<open>ucast\<close> (truncation, or zero extension of unsigned
  values) and \<open>scast\<close> (sign extension).
\<close>

section \<open>Operands\<close>

primrec rv64_operands :: "'r register \<Rightarrow> 'r Rv64Instruction \<Rightarrow> 'r \<times> 'r" where
  "rv64_operands R (Add rd rs1 rs2) = (rs1, rs2)"
| "rv64_operands R (Sub rd rs1 rs2) = (rs1, rs2)"
| "rv64_operands R (Sll rd rs1 rs2) = (rs1, rs2)"
| "rv64_operands R (Slt rd rs1 rs2) = (rs1, rs2)"
| "rv64_operands R (Sltu rd rs1 rs2) = (rs1, rs2)"
| "rv64_operands R (Xor rd rs1 rs2) = (rs1, rs2)"
| "rv64_operands R (Srl rd rs1 rs2) = (rs1, rs2)"
| "rv64_operands R (Sra rd rs1 rs2) = (rs1, rs2)"
| "rv64_operands R (Or rd rs1 rs2) = (rs1, rs2)"
| "rv64_operands R (And rd rs1 rs2) = (rs1, rs2)"
| "rv64_operands R (Addw rd rs1 rs2) = (rs1, rs2)"
| "rv64_operands R (Subw rd rs1 rs2) = (rs1, rs2)"
| "rv64_operands R (Sllw rd rs1 rs2) = (rs1, rs2)"
| "rv64_operands R (Srlw rd rs1 rs2) = (rs1, rs2)"
| "rv64_operands R (Sraw rd rs1 rs2) = (rs1, rs2)"
| "rv64_operands R (Addi rd rs1 imm) = (rs1, ZERO R)"
| "rv64_operands R (Slti rd rs1 imm) = (rs1, ZERO R)"
| "rv64_operands R (Sltiu rd rs1 imm) = (rs1, ZERO R)"
| "rv64_operands R (Xori rd rs1 imm) = (rs1, ZERO R)"
| "rv64_operands R (Ori rd rs1 imm) = (rs1, ZERO R)"
| "rv64_operands R (Andi rd rs1 imm) = (rs1, ZERO R)"
| "rv64_operands R (Slli rd rs1 shamt) = (rs1, ZERO R)"
| "rv64_operands R (Srli rd rs1 shamt) = (rs1, ZERO R)"
| "rv64_operands R (Srai rd rs1 shamt) = (rs1, ZERO R)"
| "rv64_operands R (Addiw rd rs1 imm) = (rs1, ZERO R)"
| "rv64_operands R (Slliw rd rs1 shamt) = (rs1, ZERO R)"
| "rv64_operands R (Srliw rd rs1 shamt) = (rs1, ZERO R)"
| "rv64_operands R (Sraiw rd rs1 shamt) = (rs1, ZERO R)"
| "rv64_operands R (Lb rd rs1 imm) = (rs1, ZERO R)"
| "rv64_operands R (Lh rd rs1 imm) = (rs1, ZERO R)"
| "rv64_operands R (Lw rd rs1 imm) = (rs1, ZERO R)"
| "rv64_operands R (Ld rd rs1 imm) = (rs1, ZERO R)"
| "rv64_operands R (Lbu rd rs1 imm) = (rs1, ZERO R)"
| "rv64_operands R (Lhu rd rs1 imm) = (rs1, ZERO R)"
| "rv64_operands R (Lwu rd rs1 imm) = (rs1, ZERO R)"
| "rv64_operands R (Jalr rd rs1 imm) = (rs1, ZERO R)"
| "rv64_operands R (Sb rs2 rs1 imm) = (rs1, rs2)"
| "rv64_operands R (Sh rs2 rs1 imm) = (rs1, rs2)"
| "rv64_operands R (Sw rs2 rs1 imm) = (rs1, rs2)"
| "rv64_operands R (Sd rs2 rs1 imm) = (rs1, rs2)"
| "rv64_operands R (Beq rs1 rs2 imm) = (rs1, rs2)"
| "rv64_operands R (Bne rs1 rs2 imm) = (rs1, rs2)"
| "rv64_operands R (Blt rs1 rs2 imm) = (rs1, rs2)"
| "rv64_operands R (Bge rs1 rs2 imm) = (rs1, rs2)"
| "rv64_operands R (Bltu rs1 rs2 imm) = (rs1, rs2)"
| "rv64_operands R (Bgeu rs1 rs2 imm) = (rs1, rs2)"
| "rv64_operands R (Lui rd imm) = (ZERO R, ZERO R)"
| "rv64_operands R (Auipc rd imm) = (ZERO R, ZERO R)"
| "rv64_operands R (Jal rd imm) = (ZERO R, ZERO R)"
| "rv64_operands R (Fence pred succ) = (ZERO R, ZERO R)"
| "rv64_operands R FenceTso = (ZERO R, ZERO R)"
| "rv64_operands R Ecall = (ZERO R, ZERO R)"
| "rv64_operands R Ebreak = (ZERO R, ZERO R)"
| "rv64_operands R Unimp = (ZERO R, ZERO R)"

section \<open>Execution\<close>

primrec rv64_execute ::
  "'r register \<Rightarrow> (u64, 'h) sys_handler \<Rightarrow> 'r Rv64Instruction \<Rightarrow> u64 \<Rightarrow> u64 \<Rightarrow> (u64, 'h) machine \<Rightarrow>
    (u64, 'r) exec_result \<times> (u64, 'h) machine" where
  "rv64_execute R H (Add rd rs1 rs2) rs1_value rs2_value s =
     cont rd (rs1_value + rs2_value) s"
| "rv64_execute R H (Sub rd rs1 rs2) rs1_value rs2_value s =
     cont rd (rs1_value - rs2_value) s"
| "rv64_execute R H (Sll rd rs1 rs2) rs1_value rs2_value s =
     cont rd (shl rs1_value (unat (rs2_value AND 0x3f))) s"
| "rv64_execute R H (Slt rd rs1 rs2) rs1_value rs2_value s =
     cont rd (if rs1_value <s rs2_value then 1 else 0) s"
| "rv64_execute R H (Sltu rd rs1 rs2) rs1_value rs2_value s =
     cont rd (if rs1_value < rs2_value then 1 else 0) s"
| "rv64_execute R H (Xor rd rs1 rs2) rs1_value rs2_value s =
     cont rd (rs1_value XOR rs2_value) s"
| "rv64_execute R H (Srl rd rs1 rs2) rs1_value rs2_value s =
     cont rd (shr rs1_value (unat (rs2_value AND 0x3f))) s"
| "rv64_execute R H (Sra rd rs1 rs2) rs1_value rs2_value s =
     cont rd (sar rs1_value (unat (rs2_value AND 0x3f))) s"
| "rv64_execute R H (Or rd rs1 rs2) rs1_value rs2_value s =
     cont rd (rs1_value OR rs2_value) s"
| "rv64_execute R H (And rd rs1 rs2) rs1_value rs2_value s =
     cont rd (rs1_value AND rs2_value) s"
| "rv64_execute R H (Addw rd rs1 rs2) rs1_value rs2_value s =
     cont rd (scast (ucast rs1_value + ucast rs2_value :: i32)) s"
| "rv64_execute R H (Subw rd rs1 rs2) rs1_value rs2_value s =
     cont rd (scast (ucast rs1_value - ucast rs2_value :: i32)) s"
| "rv64_execute R H (Sllw rd rs1 rs2) rs1_value rs2_value s =
     cont rd (scast (shl (ucast rs1_value) (unat (rs2_value AND 0x1f)) :: i32)) s"
| "rv64_execute R H (Srlw rd rs1 rs2) rs1_value rs2_value s =
     cont rd (scast (shr (ucast rs1_value) (unat (rs2_value AND 0x1f)) :: i32)) s"
| "rv64_execute R H (Sraw rd rs1 rs2) rs1_value rs2_value s =
     cont rd (scast (sar (ucast rs1_value) (unat (rs2_value AND 0x1f)) :: i32)) s"
| "rv64_execute R H (Addi rd rs1 imm) rs1_value rs2_value s =
     cont rd (rs1_value + scast imm) s"
| "rv64_execute R H (Slti rd rs1 imm) rs1_value rs2_value s =
     cont rd (if rs1_value <s scast imm then 1 else 0) s"
| "rv64_execute R H (Sltiu rd rs1 imm) rs1_value rs2_value s =
     cont rd (if rs1_value < scast imm then 1 else 0) s"
| "rv64_execute R H (Xori rd rs1 imm) rs1_value rs2_value s =
     cont rd (rs1_value XOR scast imm) s"
| "rv64_execute R H (Ori rd rs1 imm) rs1_value rs2_value s =
     cont rd (rs1_value OR scast imm) s"
| "rv64_execute R H (Andi rd rs1 imm) rs1_value rs2_value s =
     cont rd (rs1_value AND scast imm) s"
| "rv64_execute R H (Slli rd rs1 shamt) rs1_value rs2_value s =
     cont rd (shl rs1_value (unat shamt)) s"
| "rv64_execute R H (Srli rd rs1 shamt) rs1_value rs2_value s =
     cont rd (shr rs1_value (unat shamt)) s"
| "rv64_execute R H (Srai rd rs1 shamt) rs1_value rs2_value s =
     cont rd (sar rs1_value (unat shamt)) s"
| "rv64_execute R H (Addiw rd rs1 imm) rs1_value rs2_value s =
     cont rd (scast (ucast rs1_value + scast imm :: i32)) s"
| "rv64_execute R H (Slliw rd rs1 shamt) rs1_value rs2_value s =
     cont rd (scast (shl (ucast rs1_value) (unat shamt) :: i32)) s"
| "rv64_execute R H (Srliw rd rs1 shamt) rs1_value rs2_value s =
     cont rd (scast (shr (ucast rs1_value) (unat shamt) :: i32)) s"
| "rv64_execute R H (Sraiw rd rs1 shamt) rs1_value rs2_value s =
     cont rd (scast (sar (ucast rs1_value) (unat shamt) :: i32)) s"
| "rv64_execute R H (Lb rd rs1 imm) rs1_value rs2_value s =
     load rd (\<lambda>v :: i8. scast v) (mem_read (memory s) (rs1_value + scast imm)) s"
| "rv64_execute R H (Lh rd rs1 imm) rs1_value rs2_value s =
     load rd (\<lambda>v :: i16. scast v) (mem_read (memory s) (rs1_value + scast imm)) s"
| "rv64_execute R H (Lw rd rs1 imm) rs1_value rs2_value s =
     load rd (\<lambda>v :: i32. scast v) (mem_read (memory s) (rs1_value + scast imm)) s"
| "rv64_execute R H (Ld rd rs1 imm) rs1_value rs2_value s =
     load rd (\<lambda>v :: u64. v) (mem_read (memory s) (rs1_value + scast imm)) s"
| "rv64_execute R H (Lbu rd rs1 imm) rs1_value rs2_value s =
     load rd (\<lambda>v :: u8. ucast v) (mem_read (memory s) (rs1_value + scast imm)) s"
| "rv64_execute R H (Lhu rd rs1 imm) rs1_value rs2_value s =
     load rd (\<lambda>v :: u16. ucast v) (mem_read (memory s) (rs1_value + scast imm)) s"
| "rv64_execute R H (Lwu rd rs1 imm) rs1_value rs2_value s =
     load rd (\<lambda>v :: u32. ucast v) (mem_read (memory s) (rs1_value + scast imm)) s"
| "rv64_execute R H (Jalr rd rs1 imm) rs1_value rs2_value s =
     jump R ((rs1_value + scast imm) AND NOT 1)
       (s\<lparr>regs := reg_write R (regs s) rd (pc (fetcher s))\<rparr>)"
| "rv64_execute R H (Sb rs2 rs1 imm) rs1_value rs2_value s =
     store R (mem_write (memory s) (rs1_value + scast imm) (ucast rs2_value :: u8)) s"
| "rv64_execute R H (Sh rs2 rs1 imm) rs1_value rs2_value s =
     store R (mem_write (memory s) (rs1_value + scast imm) (ucast rs2_value :: u16)) s"
| "rv64_execute R H (Sw rs2 rs1 imm) rs1_value rs2_value s =
     store R (mem_write (memory s) (rs1_value + scast imm) (ucast rs2_value :: u32)) s"
| "rv64_execute R H (Sd rs2 rs1 imm) rs1_value rs2_value s =
     store R (mem_write (memory s) (rs1_value + scast imm) rs2_value) s"
| "rv64_execute R H (Beq rs1 rs2 imm) rs1_value rs2_value s =
     branch R 4 (rs1_value = rs2_value) (I24_to_i64 imm) s"
| "rv64_execute R H (Bne rs1 rs2 imm) rs1_value rs2_value s =
     branch R 4 (rs1_value \<noteq> rs2_value) (I24_to_i64 imm) s"
| "rv64_execute R H (Blt rs1 rs2 imm) rs1_value rs2_value s =
     branch R 4 (rs1_value <s rs2_value) (I24_to_i64 imm) s"
| "rv64_execute R H (Bge rs1 rs2 imm) rs1_value rs2_value s =
     branch R 4 (rs2_value \<le>s rs1_value) (I24_to_i64 imm) s"
| "rv64_execute R H (Bltu rs1 rs2 imm) rs1_value rs2_value s =
     branch R 4 (rs1_value < rs2_value) (I24_to_i64 imm) s"
| "rv64_execute R H (Bgeu rs1 rs2 imm) rs1_value rs2_value s =
     branch R 4 (rs2_value \<le> rs1_value) (I24_to_i64 imm) s"
| "rv64_execute R H (Lui rd imm) rs1_value rs2_value s = cont rd (I24Z_to_i64 12 imm) s"
| "rv64_execute R H (Auipc rd imm) rs1_value rs2_value s =
     cont rd (old_pc 4 (fetcher s) + I24Z_to_i64 12 imm) s"
| "rv64_execute R H (Jal rd imm) rs1_value rs2_value s =
     jump R (old_pc 4 (fetcher s) + I24_to_i64 imm)
       (s\<lparr>regs := reg_write R (regs s) rd (pc (fetcher s))\<rparr>)"
| "rv64_execute R H (Fence pred succ) rs1_value rs2_value s =
     skip R (s\<lparr>handler := handle_fence H pred succ (handler s)\<rparr>)"
| "rv64_execute R H FenceTso rs1_value rs2_value s =
     skip R (s\<lparr>handler := handle_fence_tso H (handler s)\<rparr>)"
| "rv64_execute R H Ecall rs1_value rs2_value s =
     (case handle_ecall H s of
        (Inl e, s') \<Rightarrow> (Inl e, s')
      | (Inr cf, s') \<Rightarrow> (Inr (map_continue (\<lambda>_. (ZERO R, 0)) cf), s'))"
| "rv64_execute R H Ebreak rs1_value rs2_value s =
     (let (rf, m, h) = handle_ebreak H (pc (fetcher s)) (regs s, memory s, handler s)
      in skip R (s\<lparr>regs := rf, memory := m, handler := h\<rparr>))"
| "rv64_execute R H Unimp rs1_value rs2_value s =
     (Inl (IllegalInstruction (old_pc 4 (fetcher s))), s)"

definition rv64_isa ::
  "'r register \<Rightarrow> (u64, 'h) sys_handler \<Rightarrow> (u64, 'r Rv64Instruction, 'r, 'h) isa" where
  "rv64_isa R H =
    \<lparr>isa_reg = R, isa_decode = rv64_try_decode R, isa_alignment = rv64_alignment,
     isa_size = rv64_size, isa_operands = rv64_operands R, isa_execute = rv64_execute R H\<rparr>"

section \<open>Integer semantics of the computational instructions\<close>

text \<open>
  The results of the computational instructions as the ISA manual states them, in integer
  arithmetic on the signed (\<open>sint\<close>) or unsigned (\<open>uint\<close>) values of the operands; the result is
  taken modulo \<open>2 ^ 64\<close>, or sign-extended from 32 bits for the \<open>W\<close> instructions.
\<close>

definition sext32 :: "int \<Rightarrow> int" where
  "sext32 k = signed_take_bit 31 k"

definition rv64_alu_spec :: "'r Rv64Instruction \<Rightarrow> u64 \<Rightarrow> u64 \<Rightarrow> ('r \<times> int) option" where
  "rv64_alu_spec i x y =
    (case i of
       Add rd _ _ \<Rightarrow> Some (rd, uint x + uint y)
     | Sub rd _ _ \<Rightarrow> Some (rd, uint x - uint y)
     | Sll rd _ _ \<Rightarrow> Some (rd, uint x * 2 ^ (unat y mod 64))
     | Slt rd _ _ \<Rightarrow> Some (rd, of_bool (sint x < sint y))
     | Sltu rd _ _ \<Rightarrow> Some (rd, of_bool (uint x < uint y))
     | Xor rd _ _ \<Rightarrow> Some (rd, uint x XOR uint y)
     | Srl rd _ _ \<Rightarrow> Some (rd, uint x div 2 ^ (unat y mod 64))
     | Sra rd _ _ \<Rightarrow> Some (rd, sint x div 2 ^ (unat y mod 64))
     | Or rd _ _ \<Rightarrow> Some (rd, uint x OR uint y)
     | And rd _ _ \<Rightarrow> Some (rd, uint x AND uint y)
     | Addw rd _ _ \<Rightarrow> Some (rd, sext32 (uint x + uint y))
     | Subw rd _ _ \<Rightarrow> Some (rd, sext32 (uint x - uint y))
     | Sllw rd _ _ \<Rightarrow> Some (rd, sext32 (uint x * 2 ^ (unat y mod 32)))
     | Srlw rd _ _ \<Rightarrow> Some (rd, sext32 (uint x mod 2 ^ 32 div 2 ^ (unat y mod 32)))
     | Sraw rd _ _ \<Rightarrow> Some (rd, sext32 (uint x) div 2 ^ (unat y mod 32))
     | Addi rd _ imm \<Rightarrow> Some (rd, uint x + sint imm)
     | Slti rd _ imm \<Rightarrow> Some (rd, of_bool (sint x < sint imm))
     | Sltiu rd _ imm \<Rightarrow> Some (rd, of_bool (uint x < sint imm mod 2 ^ 64))
     | Xori rd _ imm \<Rightarrow> Some (rd, sint x XOR sint imm)
     | Ori rd _ imm \<Rightarrow> Some (rd, sint x OR sint imm)
     | Andi rd _ imm \<Rightarrow> Some (rd, sint x AND sint imm)
     | Slli rd _ shamt \<Rightarrow> Some (rd, uint x * 2 ^ (unat shamt mod 64))
     | Srli rd _ shamt \<Rightarrow> Some (rd, uint x div 2 ^ (unat shamt mod 64))
     | Srai rd _ shamt \<Rightarrow> Some (rd, sint x div 2 ^ (unat shamt mod 64))
     | Addiw rd _ imm \<Rightarrow> Some (rd, sext32 (uint x + sint imm))
     | Slliw rd _ shamt \<Rightarrow> Some (rd, sext32 (uint x * 2 ^ (unat shamt mod 32)))
     | Srliw rd _ shamt \<Rightarrow> Some (rd, sext32 (uint x mod 2 ^ 32 div 2 ^ (unat shamt mod 32)))
     | Sraiw rd _ shamt \<Rightarrow> Some (rd, sext32 (uint x) div 2 ^ (unat shamt mod 32))
     | Lui rd imm \<Rightarrow> Some (rd, sint (I24Z_to_i32 12 imm))
     | _ \<Rightarrow> None)"

lemma unat_and_masks: "unat (y AND 0x3f) = unat (y :: u64) mod 64" "unat (y AND 0x1f) = unat y mod 32"
  unfolding mask_simps by (simp_all add: take_bit_eq_mod unat_mod_distrib)

lemma shl_int: "shl (x :: 'a::len word) n = word_of_int (uint x * 2 ^ (n mod LENGTH('a)))"
  by (simp add: shl_def push_bit_eq_mult)

lemma shr_int: "shr (x :: 'a::len word) n = word_of_int (uint x div 2 ^ (n mod LENGTH('a)))"
proof -
  have "uint (shr x n) = uint x div 2 ^ (n mod LENGTH('a))"
    by (simp add: shr_def unsigned_drop_bit_eq take_bit_int_eq_self flip: drop_bit_eq_div)
  moreover have "shr x n = word_of_int (uint (shr x n))" by simp
  ultimately show ?thesis by simp
qed

lemma sar_int: "sar (x :: 'a::len word) n = word_of_int (sint x div 2 ^ (n mod LENGTH('a)))"
proof -
  have "sint (sar x n) = sint x div 2 ^ (n mod LENGTH('a))"
    by (simp add: sar_def sint_signed_drop_bit_eq flip: drop_bit_eq_div)
  moreover have "sar x n = word_of_int (sint (sar x n))" by simp
  ultimately show ?thesis by simp
qed

lemma scast32_int: "(scast (w :: i32) :: i64) = word_of_int (sint w)"
  by simp

lemma sint32_of_int: "sint (word_of_int k :: i32) = sext32 k"
  by (simp add: sext32_def signed_of_int)

lemma uint_ucast32: "uint (ucast (x :: u64) :: u32) = uint x mod 2 ^ 32"
  by (simp add: unsigned_ucast_eq take_bit_eq_mod)

lemma sint_ucast32: "sint (ucast (x :: u64) :: u32) = sext32 (uint x)"
  by (simp add: sext32_def signed_ucast_eq)

lemma scast_w32:
  fixes x y :: u64
  shows "(scast (ucast x + ucast y :: i32) :: i64) = word_of_int (sext32 (uint x + uint y))"
    "(scast (ucast x - ucast y :: i32) :: i64) = word_of_int (sext32 (uint x - uint y))"
    "(scast (ucast x + scast (imm :: i16) :: i32) :: i64) = word_of_int (sext32 (uint x + sint imm))"
    "(scast (shl (ucast x) n :: i32) :: i64) = word_of_int (sext32 (uint x * 2 ^ (n mod 32)))"
    "(scast (shr (ucast x) n :: i32) :: i64) =
      word_of_int (sext32 (uint x mod 2 ^ 32 div 2 ^ (n mod 32)))"
    "(scast (sar (ucast x) n :: i32) :: i64) = word_of_int (sext32 (uint x) div 2 ^ (n mod 32))"
proof -
  have w: "(scast (word_of_int k :: i32) :: i64) = word_of_int (sext32 k)" for k
    by (simp flip: sint32_of_int)
  have "ucast x + ucast y = (word_of_int (uint x + uint y) :: i32)"
    "ucast x - ucast y = (word_of_int (uint x - uint y) :: i32)"
    "ucast x + scast imm = (word_of_int (uint x + sint imm) :: i32)" by simp_all
  then show "(scast (ucast x + ucast y :: i32) :: i64) = word_of_int (sext32 (uint x + uint y))"
    "(scast (ucast x - ucast y :: i32) :: i64) = word_of_int (sext32 (uint x - uint y))"
    "(scast (ucast x + scast imm :: i32) :: i64) = word_of_int (sext32 (uint x + sint imm))"
    by (simp_all only: w)
  have "shl (ucast x) n = (word_of_int (uint x * 2 ^ (n mod 32)) :: i32)"
    by (simp add: shl_int)
  then show "(scast (shl (ucast x) n :: i32) :: i64) = word_of_int (sext32 (uint x * 2 ^ (n mod 32)))"
    by (simp only: w)
  show "(scast (shr (ucast x) n :: i32) :: i64) =
      word_of_int (sext32 (uint x mod 2 ^ 32 div 2 ^ (n mod 32)))"
    unfolding shr_int w uint_ucast32 by simp
  have "sext32 (sint (ucast x :: i32) div 2 ^ (n mod 32)) = sint (ucast x :: i32) div 2 ^ (n mod 32)"
    using sint32_of_int [of "sint (ucast x :: i32) div 2 ^ (n mod 32)"]
    by (simp add: sint_signed_drop_bit_eq drop_bit_eq_div sar_def
        flip: sar_int [of "ucast x :: i32" n, simplified])
  then show "(scast (sar (ucast x) n :: i32) :: i64) = word_of_int (sext32 (uint x) div 2 ^ (n mod 32))"
    unfolding sar_int w sint_ucast32 by simp
qed

lemma word_bitwise_int:
  fixes x y :: u64
  shows "word_of_int (uint x XOR uint y) = x XOR y" "word_of_int (uint x OR uint y) = x OR y"
    "word_of_int (uint x AND uint y) = x AND y"
    "word_of_int (sint x XOR sint (imm :: i16)) = x XOR scast imm"
    "word_of_int (sint x OR sint imm) = x OR scast imm"
    "word_of_int (sint x AND sint imm) = x AND scast imm"
  by (rule bit_word_eqI, simp add: bit_simps)+

lemma scast_imm_int:
  fixes imm :: i16
  shows "sint (scast imm :: u64) = sint imm" "uint (scast imm :: u64) = sint imm mod 2 ^ 64"
proof -
  show "sint (scast imm :: u64) = sint imm"
    using sint_ge [of imm] sint_lt [of imm]
    by (simp add: signed_scast_eq signed_take_bit_int_eq_self)
  have "uint (word_of_int (sint imm) :: u64) = sint imm mod 2 ^ 64"
    by (simp only: uint_word_of_int) simp
  then show "uint (scast imm :: u64) = sint imm mod 2 ^ 64" by simp
qed

lemmas rv64_int_simps = scast_w32 word_bitwise_int scast_imm_int word_sless_alt [where 'a = 64]
  word_less_def [where 'a = 64] shl_int [where 'a = 64] shr_int [where 'a = 64]
  sar_int [where 'a = 64]

lemma rv64_alu_execute:
  assumes "rv64_alu_spec i x y = Some (rd, v)"
  shows "rv64_execute R H i x y s = cont rd (word_of_int v) s"
  using assms
  by (cases i)
    (auto simp: rv64_alu_spec_def cont_def unat_and_masks rv64_int_simps I24Z_to_i64_def)

section \<open>Well-formedness and the contract of the interpreter loop\<close>

lemma rv64_execute_keeps:
  assumes "system_handler R H" and "machine_wf R s"
  shows "keeps R s (rv64_execute R H i v1 v2 s)"
proof (cases i)
  case Ecall
  have "keeps R s (case handle_ecall H s of (Inl e, s') \<Rightarrow> (Inl e, s')
      | (Inr cf, s') \<Rightarrow> (Inr (map_continue (\<lambda>_. (ZERO R, 0)) cf), s'))"
    using system_handler.ecall_wf [OF assms]
    by (auto simp: keeps_def split: prod.splits sum.splits)
  then show ?thesis using Ecall by simp
next
  case Ebreak
  then show ?thesis
    using system_handler.ebreak_wf [OF assms] by (simp split: prod.split)
qed (simp_all add: keeps_simps assms(2))

lemma rv64_instruction_set:
  "system_handler R H \<Longrightarrow> instruction_set (rv64_isa R H)"
  by unfold_locales
    (auto simp: rv64_isa_def rv64_execute_keeps rv64_size_def rv64_alignment_def)

interpretation rv64: instruction_set
    "rv64_isa Reg_register (illegal_ecall_handler :: (u64, unit) sys_handler)"
  by (rule rv64_instruction_set) (rule illegal_ecall_handler_laws)

interpretation rv64e: instruction_set
    "rv64_isa EReg_register (illegal_ecall_handler :: (u64, unit) sys_handler)"
  by (rule rv64_instruction_set) (rule illegal_ecall_handler_laws)

section \<open>Fetching and executing one instruction\<close>

text \<open>The bytes of a program, instruction after instruction.\<close>

definition rv64_code :: "'r register \<Rightarrow> 'r Rv64Instruction list \<Rightarrow> u8 list" where
  "rv64_code R is = concat (map (\<lambda>i. to_le_bytes (rv64_encode R i)) is)"

lemma rv64_code_simps [simp]:
  "rv64_code R [] = []"
  "rv64_code R (i # is) = to_le_bytes (rv64_encode R i) @ rv64_code R is"
  by (simp_all add: rv64_code_def)

lemma length_rv64_code [simp]: "length (rv64_code R is) = 4 * length is"
  by (induction "is") auto

lemma rv64_fetch:
  fixes f :: "u64 fetcher"
  assumes "basic_register R" and "mem_wf m" and "rv64_wf i"
    and "bytes_at (mem_bytes m) (unat (pc f)) 4 = Some (to_le_bytes (rv64_encode R i))"
  shows "fetch_instruction (rv64_try_decode R) rv64_size m f =
    (Inr (Instruction i), f\<lparr>pc := pc f + 4\<rparr>)"
proof -
  have "(mem_read m (pc f) :: _ + u32) = Inr (rv64_encode R i)"
    using assms(2,4) by (simp add: mem_read_spec from_le_bytes_to_le_bytes)
  moreover have "rv64_try_decode R (rv64_encode R i) = Some i"
    using basic_register.rv64_decode_encode [OF assms(1,3)] .
  ultimately show ?thesis
    by (simp add: fetch_instruction_def fetch_word_def rv64_size_def)
qed

lemma rv64_step:
  assumes "basic_register R" and "mem_wf (memory s)" and "rv64_wf i"
    and "bytes_at (mem_bytes (memory s)) (unat (pc (fetcher s))) 4 =
      Some (to_le_bytes (rv64_encode R i))"
    and "rv64_execute R H i
        (reg_read R (regs s) (fst (rv64_operands R i)))
        (reg_read R (regs s) (snd (rv64_operands R i)))
        (s\<lparr>fetcher := (fetcher s)\<lparr>pc := pc (fetcher s) + 4\<rparr>\<rparr>) = (r, t)"
  shows "step (rv64_isa R H) s =
    (case r of
       Inl e \<Rightarrow> (Some (Inl e), t)
     | Inr Break \<Rightarrow> (Some (Inr ()), t)
     | Inr (Continue (rd, v)) \<Rightarrow> (None, t\<lparr>regs := reg_write R (regs t) rd v\<rparr>))"
  using rv64_fetch [OF assms(1-4)] assms(5)
  by (simp add: step_def rv64_isa_def Let_def case_prod_beta split: sum.split ControlFlow.split)

section \<open>Straight-line programs\<close>

text \<open>
  The effect of a list of computational instructions on the registers, by the integer
  semantics alone.
\<close>

fun rv64_alu_regs :: "'r register \<Rightarrow> u64 list \<Rightarrow> 'r Rv64Instruction list \<Rightarrow> u64 list option" where
  "rv64_alu_regs R rf [] = Some rf"
| "rv64_alu_regs R rf (i # is) =
    (case rv64_alu_spec i (reg_read R rf (fst (rv64_operands R i)))
        (reg_read R rf (snd (rv64_operands R i))) of
       None \<Rightarrow> None
     | Some (rd, v) \<Rightarrow> rv64_alu_regs R (reg_write R rf rd (word_of_int v)) is)"

lemma rv64_alu_step:
  assumes "basic_register R" and "mem_wf (memory s)" and "rv64_wf i"
    and "bytes_at (mem_bytes (memory s)) (unat (pc (fetcher s))) 4 =
      Some (to_le_bytes (rv64_encode R i))"
    and "rv64_alu_spec i (reg_read R (regs s) (fst (rv64_operands R i)))
        (reg_read R (regs s) (snd (rv64_operands R i))) = Some (rd, v)"
  shows "step (rv64_isa R H) s =
    (None, s\<lparr>regs := reg_write R (regs s) rd (word_of_int v),
             fetcher := (fetcher s)\<lparr>pc := pc (fetcher s) + 4\<rparr>\<rparr>)"
  using rv64_step [OF assms(1-4) rv64_alu_execute [OF assms(5), unfolded cont_def], of H]
  by simp

lemma rv64_return_step:
  assumes "basic_register R" and "mem_wf (memory s)"
    and "bytes_at (mem_bytes (memory s)) (unat (pc (fetcher s))) 4 =
      Some (to_le_bytes (rv64_encode R (Jalr (ZERO R) ra 0)))"
    and "reg_read R (regs s) ra AND NOT 1 = return_trap_address (fetcher s)"
  shows "step (rv64_isa R H) s =
    (Some (Inr ()),
     s\<lparr>regs := reg_write R (regs s) (ZERO R) (pc (fetcher s) + 4),
       fetcher := (fetcher s)\<lparr>pc := pc (fetcher s) + 4\<rparr>\<rparr>)"
proof -
  have wf: "rv64_wf (Jalr (ZERO R) ra 0)" by (simp add: imm12_ok_def)
  show ?thesis
    using rv64_step [OF assms(1,2) wf assms(3), of H] assms(4)
    by (simp add: exec_helpers)
qed

lemma rv64_straight_line:
  assumes R: "basic_register R" and "mem_wf (memory s)" and "list_all rv64_wf is"
    and "bytes_at (mem_bytes (memory s)) (unat (pc (fetcher s))) (4 * length is + 4) =
      Some (rv64_code R (is @ [Jalr (ZERO R) ra 0]))"
    and "unat (pc (fetcher s)) + 4 * length is + 4 < 2 ^ 64"
    and "rv64_alu_regs R (regs s) is = Some rf"
    and "reg_read R rf ra AND NOT 1 = return_trap_address (fetcher s)"
  shows "\<exists>t. execute_fuel (length is + 1) (rv64_isa R H) s = Some (Inr (), t) \<and>
    memory t = memory s \<and> handler t = handler s \<and>
    regs t = reg_write R rf (ZERO R) (pc (fetcher t))"
  using assms(2-)
proof (induction "is" arbitrary: s)
  case Nil
  then show ?case using rv64_return_step [OF R Nil.prems(1), of ra H] by simp
next
  case (Cons i "is")
  let ?x = "reg_read R (regs s) (fst (rv64_operands R i))"
  let ?y = "reg_read R (regs s) (snd (rv64_operands R i))"
  obtain rd v where spec: "rv64_alu_spec i ?x ?y = Some (rd, v)"
      and rest: "rv64_alu_regs R (reg_write R (regs s) rd (word_of_int v)) is = Some rf"
    using Cons.prems(5) by (auto split: option.splits)
  let ?t = "s\<lparr>regs := reg_write R (regs s) rd (word_of_int v),
             fetcher := (fetcher s)\<lparr>pc := pc (fetcher s) + 4\<rparr>\<rparr>"
  have code: "bytes_at (mem_bytes (memory s)) (unat (pc (fetcher s))) 4 =
        Some (to_le_bytes (rv64_encode R i))"
      "bytes_at (mem_bytes (memory s)) (unat (pc (fetcher s)) + 4) (4 * length is + 4) =
        Some (rv64_code R (is @ [Jalr (ZERO R) ra 0]))"
    using Cons.prems(3)
      bytes_at_append [of "mem_bytes (memory s)" "unat (pc (fetcher s))"
        "to_le_bytes (rv64_encode R i)" "4 * length is + 4"
        "rv64_code R (is @ [Jalr (ZERO R) ra 0])"]
    by (simp_all add: ac_simps)
  have pc: "unat (pc (fetcher s) + 4) = unat (pc (fetcher s)) + 4"
    using Cons.prems(4) by (simp add: unat_word_ariths)
  have "step (rv64_isa R H) s = (None, ?t)"
    using rv64_alu_step [OF R Cons.prems(1) _ code(1) spec] Cons.prems(2) by simp
  moreover have "\<exists>t. execute_fuel (length is + 1) (rv64_isa R H) ?t = Some (Inr (), t) \<and>
      memory t = memory ?t \<and> handler t = handler ?t \<and>
      regs t = reg_write R rf (ZERO R) (pc (fetcher t))"
    by (rule Cons.IH) (use Cons.prems code(2) pc rest in simp_all)
  ultimately show ?case by simp
qed

section \<open>Memory effects\<close>

text \<open>The address and bytes an instruction writes.\<close>

definition rv64_writes :: "'r Rv64Instruction \<Rightarrow> u64 \<Rightarrow> u64 \<Rightarrow> (nat \<times> u8 list) option" where
  "rv64_writes i a v =
    (case i of
       Sb _ _ imm \<Rightarrow> Some (unat (a + scast imm), to_le_bytes (ucast v :: u8))
     | Sh _ _ imm \<Rightarrow> Some (unat (a + scast imm), to_le_bytes (ucast v :: u16))
     | Sw _ _ imm \<Rightarrow> Some (unat (a + scast imm), to_le_bytes (ucast v :: u32))
     | Sd _ _ imm \<Rightarrow> Some (unat (a + scast imm), to_le_bytes v)
     | _ \<Rightarrow> None)"

lemma memory_jump [simp]: "memory (snd (jump R target s)) = memory s"
  by (simp add: jump_def split: prod.split sum.split)

lemma memory_load [simp]: "memory (snd (load rd f x s)) = memory s"
  by (simp add: load_def cont_def split: sum.split)

lemma memory_branch [simp]: "memory (snd (branch R n c imm s)) = memory s"
  by (simp add: branch_def skip_def cont_def)

lemma memory_cont [simp]: "memory (snd (cont rd v s)) = memory s"
  by (simp add: cont_def)

lemma memory_skip [simp]: "memory (snd (skip R s)) = memory s"
  by (simp add: skip_def)

lemma memory_store:
  assumes "mem_wf (memory s)" and "8 dvd LENGTH('b::len)" and "LENGTH('b) \<le> 64"
  shows "mem_bytes (memory (snd (store R (mem_write (memory s) a (v :: 'b word)) s))) =
    (case fst (store R (mem_write (memory s) a v) s) of
       Inl e \<Rightarrow> mem_bytes (memory s)
     | Inr c \<Rightarrow> bytes_upd (mem_bytes (memory s)) (unat a) (to_le_bytes v))"
  using mem_write_ok(1) [OF assms]
  by (simp add: store_def skip_def cont_def split: sum.split)

lemma rv64_memory_effect:
  assumes "mem_wf (memory s)" and "i \<noteq> Ecall" and "i \<noteq> Ebreak"
  shows "mem_bytes (memory (snd (rv64_execute R H i a v s))) =
    (case (fst (rv64_execute R H i a v s), rv64_writes i a v) of
       (Inr c, Some (p, bs)) \<Rightarrow> bytes_upd (mem_bytes (memory s)) p bs
     | _ \<Rightarrow> mem_bytes (memory s))"
  using assms by (cases i) (simp_all add: rv64_writes_def memory_store split: sum.split)

lemma store_ok:
  assumes "store R (mem_write (memory s) a v) s = (Inr c, t)"
  obtains m where "mem_write (memory s) a v = Inr m" "memory t = m"
  using assms by (auto simp: store_def skip_def cont_def split: sum.splits)

lemma narrow_values:
  fixes v :: u64
  shows "ucast (ucast v :: u8) = take_bit 8 v" "ucast (ucast v :: u16) = take_bit 16 v"
    "ucast (ucast v :: u32) = take_bit 32 v"
    "scast (ucast v :: u8) = signed_take_bit 7 v" "scast (ucast v :: u16) = signed_take_bit 15 v"
    "scast (ucast v :: u32) = signed_take_bit 31 v"
  by (rule bit_word_eqI, auto simp: bit_simps)+

section \<open>Properties\<close>

text \<open>
  C2. Every computational RV64 instruction (register-register, register-immediate and their
  32-bit \<open>W\<close> forms, shifts, comparisons, \<open>lui\<close>) returns to its destination register the value
  that the ISA manual defines by integer arithmetic on the signed or unsigned operand values, and
  changes nothing else of the machine.
\<close>

theorem rv64_alu_correct:
  assumes "rv64_alu_spec i x y = Some (rd, v)"
  shows "rv64_execute R H i x y s = (Inr (Continue (rd, word_of_int v)), s)"
  using rv64_alu_execute [OF assms] by (simp add: cont_def)

text \<open>A small machine for the examples: 64 bytes of memory at \<open>0x1000\<close>, returning to address 0.\<close>

definition rv64_demo :: "u8 list \<Rightarrow> (u64, unit) machine" where
  "rv64_demo code =
    \<lparr>regs = regs_default Reg_register,
     memory = \<lparr>base_addr = 0x1000, mem_data = code @ replicate 64 0\<rparr>,
     fetcher = fetcher_new rv64_alignment 0 0x1000, handler = ()\<rparr>"

theorem rv64_alu_correct_witness:
  "rv64_execute Reg_register illegal_ecall_handler (Sraw Reg.A0 Reg.A1 Reg.A2) 0xffffffff80000000 33
     (rv64_demo []) = (Inr (Continue (Reg.A0, - 0x40000000)), rv64_demo [])"
proof -
  have "rv64_alu_spec (Sraw Reg.A0 Reg.A1 Reg.A2) 0xffffffff80000000 33 =
      Some (Reg.A0, - 0x40000000)"
    by (simp add: rv64_alu_spec_def) code_simp
  from rv64_alu_correct [OF this] show ?thesis by simp
qed

text \<open>
  C3. Fetch, decode and execute agree: if the four bytes at the program counter are the encoding of
  a well-formed instruction, one iteration of the interpreter loop executes exactly that
  instruction, on the values of its operand registers, with the program counter already advanced by
  four, and then writes the destination register or ends the loop with the error or break.
\<close>

theorem rv64_step_correct:
  assumes "basic_register R" and "mem_wf (memory s)" and "rv64_wf i"
    and "bytes_at (mem_bytes (memory s)) (unat (pc (fetcher s))) 4 =
      Some (to_le_bytes (rv64_encode R i))"
    and "rv64_execute R H i
        (reg_read R (regs s) (fst (rv64_operands R i)))
        (reg_read R (regs s) (snd (rv64_operands R i)))
        (s\<lparr>fetcher := (fetcher s)\<lparr>pc := pc (fetcher s) + 4\<rparr>\<rparr>) = (r, t)"
  shows "step (rv64_isa R H) s =
    (case r of
       Inl e \<Rightarrow> (Some (Inl e), t)
     | Inr Break \<Rightarrow> (Some (Inr ()), t)
     | Inr (Continue (rd, v)) \<Rightarrow> (None, t\<lparr>regs := reg_write R (regs t) rd v\<rparr>))"
  by (rule rv64_step [OF assms])

lemma rv64_demo_simps:
  "memory (rv64_demo code) = \<lparr>base_addr = 0x1000, mem_data = code @ replicate 64 0\<rparr>"
  "regs (rv64_demo code) = regs_default Reg_register"
  "pc (fetcher (rv64_demo code)) = 0x1000" "return_trap_address (fetcher (rv64_demo code)) = 0"
  "insn_alignment (fetcher (rv64_demo code)) = 4"
  by (simp_all add: rv64_demo_def fetcher_new_def rv64_alignment_def)

lemma rv64_demo_code:
  "0 < n \<Longrightarrow> n \<le> length code \<Longrightarrow>
    bytes_at (mem_bytes (memory (rv64_demo code))) 0x1000 n = Some (take n code)"
  by (simp add: bytes_at_mem_bytes rv64_demo_simps)

lemma rv64_demo_mem_wf: "length code < 2 ^ 32 \<Longrightarrow> mem_wf (memory (rv64_demo code))"
  by (simp add: mem_wf_def rv64_demo_simps)

theorem rv64_step_correct_witness:
  "fst (step (rv64_isa Reg_register illegal_ecall_handler)
     (rv64_demo (to_le_bytes (rv64_encode Reg_register Unimp)))) =
     Some (Inl (IllegalInstruction 0x1000))"
proof -
  let ?s = "rv64_demo (to_le_bytes (rv64_encode Reg_register Unimp))"
  have "bytes_at (mem_bytes (memory ?s)) (unat (pc (fetcher ?s))) 4 =
      Some (to_le_bytes (rv64_encode Reg_register Unimp))"
    using rv64_demo_code [of 4 "to_le_bytes (rv64_encode Reg_register Unimp)"]
    by (simp add: rv64_demo_simps)
  then show ?thesis
    using rv64_step_correct [OF reg.basic_register_axioms, of ?s Unimp illegal_ecall_handler]
      rv64_demo_mem_wf [of "to_le_bytes (rv64_encode Reg_register Unimp)"]
    by (simp add: old_pc_def rv64_demo_simps)
qed

text \<open>The example program: \<open>a0 := 21; a0 := a0 + a0; ret\<close>.\<close>

definition rv64_demo_program :: "Reg Rv64Instruction list" where
  "rv64_demo_program = [Addi Reg.A0 Reg.Zero 21, Add Reg.A0 Reg.A0 Reg.A0]"

definition rv64_demo_bytes :: "u8 list" where
  "rv64_demo_bytes = rv64_code Reg_register (rv64_demo_program @ [Jalr Reg.Zero Reg.Ra 0])"

definition rv64_demo_regs :: "u64 list" where
  "rv64_demo_regs = reg_write Reg_register
     (reg_write Reg_register (regs_default Reg_register) Reg.A0 21) Reg.A0 42"

lemma Reg_register_simps [simp]: "ZERO Reg_register = Reg.Zero" "RA Reg_register = Reg.Ra"
  by (simp_all add: Reg_register_def)

lemma reg_read_default:
  "basic_register R \<Longrightarrow> reg_read R (regs_default R) r = 0"
  using basic_register.offset_bound by (fastforce simp: reg_read_def regs_default_def)

lemma rv64_demo_hyps:
  "mem_wf (memory (rv64_demo rv64_demo_bytes))" "list_all rv64_wf rv64_demo_program"
  "bytes_at (mem_bytes (memory (rv64_demo rv64_demo_bytes)))
     (unat (pc (fetcher (rv64_demo rv64_demo_bytes)))) (4 * length rv64_demo_program + 4) =
     Some (rv64_code Reg_register
       (rv64_demo_program @ [Jalr (ZERO Reg_register) (RA Reg_register) 0]))"
  "rv64_alu_regs Reg_register (regs (rv64_demo rv64_demo_bytes)) rv64_demo_program =
     Some rv64_demo_regs"
proof -
  have len: "length rv64_demo_bytes = 12"
    by (simp add: rv64_demo_bytes_def rv64_demo_program_def)
  show "mem_wf (memory (rv64_demo rv64_demo_bytes))"
    by (rule rv64_demo_mem_wf) (simp add: len)
  show "list_all rv64_wf rv64_demo_program"
    by (simp add: rv64_demo_program_def imm12_ok_def)
  show "bytes_at (mem_bytes (memory (rv64_demo rv64_demo_bytes)))
     (unat (pc (fetcher (rv64_demo rv64_demo_bytes)))) (4 * length rv64_demo_program + 4) =
     Some (rv64_code Reg_register
       (rv64_demo_program @ [Jalr (ZERO Reg_register) (RA Reg_register) 0]))"
    using rv64_demo_code [of 12 rv64_demo_bytes]
    by (simp add: len rv64_demo_simps rv64_demo_program_def flip: rv64_demo_bytes_def)
       (simp add: rv64_demo_bytes_def rv64_demo_program_def)
  show "rv64_alu_regs Reg_register (regs (rv64_demo rv64_demo_bytes)) rv64_demo_program =
     Some rv64_demo_regs"
    by (simp add: rv64_demo_program_def rv64_demo_regs_def rv64_alu_spec_def rv64_demo_simps
        reg_read_default [OF reg.basic_register_axioms] reg.reg_read_write)
qed

text \<open>
  C4. Straight-line programs run to completion: a program of well-formed computational
  instructions followed by a return through \<open>ra\<close>, when the registers computed by the integer
  semantics leave the return trap address in \<open>ra\<close>, makes the interpreter loop return \<open>Ok\<close>, with
  the registers the integer semantics computes and memory and handler state untouched.
\<close>

theorem rv64_program_returns:
  assumes "basic_register R" and "mem_wf (memory s)" and "list_all rv64_wf is"
    and "bytes_at (mem_bytes (memory s)) (unat (pc (fetcher s))) (4 * length is + 4) =
      Some (rv64_code R (is @ [Jalr (ZERO R) (RA R) 0]))"
    and "unat (pc (fetcher s)) + 4 * length is + 4 < 2 ^ 64"
    and "rv64_alu_regs R (regs s) is = Some rf"
    and "reg_read R rf (RA R) AND NOT 1 = return_trap_address (fetcher s)"
  shows "\<exists>t. execute (rv64_isa R H) s = Some (Inr (), t) \<and>
    memory t = memory s \<and> handler t = handler s \<and>
    regs t = reg_write R rf (ZERO R) (pc (fetcher t))"
  using rv64_straight_line [OF assms, of H] execute_fuel_execute by blast

lemma rv64_demo_ra: "reg_read Reg_register rv64_demo_regs (RA Reg_register) = 0"
  "reg_read Reg_register rv64_demo_regs Reg.A0 = 42" "regs_wf Reg_register rv64_demo_regs"
  by (simp_all add: rv64_demo_regs_def reg.reg_read_write
      reg_read_default [OF reg.basic_register_axioms])

theorem rv64_program_returns_witness:
  "\<exists>t. execute (rv64_isa Reg_register illegal_ecall_handler) (rv64_demo rv64_demo_bytes) =
      Some (Inr (), t) \<and> reg_read Reg_register (regs t) Reg.A0 = 42"
proof -
  obtain t where "execute (rv64_isa Reg_register illegal_ecall_handler) (rv64_demo rv64_demo_bytes) =
      Some (Inr (), t)"
      "regs t = reg_write Reg_register rv64_demo_regs Reg.Zero (pc (fetcher t))"
    using rv64_program_returns [OF reg.basic_register_axioms rv64_demo_hyps(1-3) _
        rv64_demo_hyps(4), of illegal_ecall_handler] rv64_demo_ra(1)
    by (auto simp: rv64_demo_simps rv64_demo_program_def)
  then show ?thesis using rv64_demo_ra by (auto simp: reg.reg_read_write)
qed

text \<open>
  C5. Whatever the program in memory, running it keeps the machine well-formed (register count,
  memory size, aligned program counter), does not move memory or the return trap, provided the
  system instruction handler does.
\<close>

theorem rv64_run_invariant:
  assumes "system_handler R H" and "machine_wf R s"
    and "insn_alignment (fetcher s) = rv64_alignment"
    and "execute (rv64_isa R H) s = Some (r, t)"
  shows "machine_wf R t \<and> same_layout s t"
  using instruction_set.execute_wf [OF rv64_instruction_set [OF assms(1)], of s r t] assms
  by (simp add: rv64_isa_def)

theorem rv64_run_invariant_witness:
  "\<exists>r t. execute (rv64_isa Reg_register illegal_ecall_handler) (rv64_demo rv64_demo_bytes) =
      Some (r, t) \<and> machine_wf Reg_register t \<and> same_layout (rv64_demo rv64_demo_bytes) t"
proof -
  obtain t where "execute_fuel (length rv64_demo_program + 1)
      (rv64_isa Reg_register illegal_ecall_handler) (rv64_demo rv64_demo_bytes) = Some (Inr (), t)"
    using rv64_straight_line [OF reg.basic_register_axioms rv64_demo_hyps(1-3) _
        rv64_demo_hyps(4), of illegal_ecall_handler] rv64_demo_ra(1)
    by (auto simp: rv64_demo_simps rv64_demo_program_def)
  note t = execute_fuel_execute [OF this]
  have "machine_wf Reg_register (rv64_demo rv64_demo_bytes)"
    using rv64_demo_hyps(1) by (simp add: machine_wf_def fetcher_wf_def rv64_demo_simps)
  from rv64_run_invariant [OF illegal_ecall_handler_laws this _ t] t show ?thesis
    by (auto simp: rv64_demo_simps rv64_alignment_def)
qed

text \<open>
  C6. Memory effects: apart from the handlers of \<open>ecall\<close> and \<open>ebreak\<close>, an instruction changes
  memory only if it is a store that succeeds, and then exactly the bytes at its effective address,
  to the little-endian bytes of the low part of the stored register.
\<close>

theorem rv64_memory_effects:
  assumes "mem_wf (memory s)" and "i \<noteq> Ecall" and "i \<noteq> Ebreak"
  shows "mem_bytes (memory (snd (rv64_execute R H i a v s))) =
    (case (fst (rv64_execute R H i a v s), rv64_writes i a v) of
       (Inr c, Some (p, bs)) \<Rightarrow> bytes_upd (mem_bytes (memory s)) p bs
     | _ \<Rightarrow> mem_bytes (memory s))"
  by (rule rv64_memory_effect [OF assms])

theorem rv64_memory_effects_witness:
  "mem_bytes (memory (snd (rv64_execute Reg_register illegal_ecall_handler
      (Sh Reg.A1 Reg.A0 (- 2)) 0x1006 0xabcd1234 (rv64_demo [])))) =
    bytes_upd (mem_bytes (memory (rv64_demo []))) 0x1004 [0x34, 0x12]"
proof -
  have "to_le_bytes (0xabcd1234 :: u16) = [0x34, 0x12]" by code_simp
  moreover have "\<exists>c t. rv64_execute Reg_register illegal_ecall_handler (Sh Reg.A1 Reg.A0 (- 2))
      0x1006 0xabcd1234 (rv64_demo []) = (Inr c, t)"
    by (simp add: store_def skip_def cont_def mem_write_def checked_sub_def saturating_add_def
        rv64_demo_simps)
  ultimately show ?thesis
    using rv64_memory_effects [where s = "rv64_demo []" and i = "Sh Reg.A1 Reg.A0 (- 2)" and
        R = Reg_register and H = illegal_ecall_handler and a = "0x1006" and v = "0xabcd1234"]
      rv64_demo_mem_wf [of "[]"]
    by (auto simp: rv64_writes_def)
qed

text \<open>
  Loads return what was stored: after a store that succeeded, the load of the same width from
  the same address returns the stored value, zero- or sign-extended from that width.
\<close>

lemma rv64_load_after_store:
  assumes "mem_wf (memory s)"
  shows "(rv64_execute R H (Sb r2 r1 imm) a v s = (Inr c, t) \<longrightarrow>
      rv64_execute R H (Lbu rd r imm) a w t = cont rd (take_bit 8 v) t \<and>
      rv64_execute R H (Lb rd r imm) a w t = cont rd (signed_take_bit 7 v) t) \<and>
    (rv64_execute R H (Sh r2 r1 imm) a v s = (Inr c, t) \<longrightarrow>
      rv64_execute R H (Lhu rd r imm) a w t = cont rd (take_bit 16 v) t \<and>
      rv64_execute R H (Lh rd r imm) a w t = cont rd (signed_take_bit 15 v) t) \<and>
    (rv64_execute R H (Sw r2 r1 imm) a v s = (Inr c, t) \<longrightarrow>
      rv64_execute R H (Lwu rd r imm) a w t = cont rd (take_bit 32 v) t \<and>
      rv64_execute R H (Lw rd r imm) a w t = cont rd (signed_take_bit 31 v) t) \<and>
    (rv64_execute R H (Sd r2 r1 imm) a v s = (Inr c, t) \<longrightarrow>
      rv64_execute R H (Ld rd r imm) a w t = cont rd v t)"
  using mem8.read_write_same [OF assms] mem16.read_write_same [OF assms]
    mem32.read_write_same [OF assms] mem64.read_write_same [OF assms]
  by (auto elim!: store_ok simp: load_def narrow_values)

lemma rv64_load_after_store_witness:
  "\<exists>c t. rv64_execute Reg_register illegal_ecall_handler (Sh Reg.A1 Reg.A0 (- 2)) 0x1006 0xff80
        (rv64_demo []) = (Inr c, t) \<and>
      rv64_execute Reg_register illegal_ecall_handler (Lh Reg.A2 Reg.A0 (- 2)) 0x1006 0 t =
        cont Reg.A2 (- 128) t"
proof -
  have "\<exists>c t. rv64_execute Reg_register illegal_ecall_handler (Sh Reg.A1 Reg.A0 (- 2))
      0x1006 0xff80 (rv64_demo []) = (Inr c, t)"
    by (simp add: store_def skip_def cont_def mem_write_def checked_sub_def saturating_add_def
        rv64_demo_simps)
  moreover have "signed_take_bit 15 (0xff80 :: u64) = - 128" by code_simp
  ultimately show ?thesis
    using rv64_load_after_store [where s = "rv64_demo []" and R = Reg_register and
        H = illegal_ecall_handler and imm = "- 2" and a = "0x1006" and v = "0xff80" and w = 0]
      rv64_demo_mem_wf [of "[]"]
    by (metis list.size(3) zero_less_numeral zero_less_power)
qed

end
