(* ===== verification/Rv64_M.thy ===== *)
theory Rv64_M
  imports Rv64_Exec
begin

text \<open>
  The M extension for RV64: multiplication and division.
  Decoder: crates/execution/ab-riscv-primitives/src/instructions/rv64/m.rs. Execution:
  crates/execution/ab-riscv-interpreter/src/rv64/m.rs. The high halves are taken from a 128-bit
  product, as in the source; Rust's \<open>/\<close> and \<open>%\<close> on signed integers truncate towards zero
  (\<open>sdiv\<close>, \<open>smod\<close>).
\<close>

section \<open>Instructions and decoder\<close>

datatype (plugins only: code size) 'r Rv64MInstruction =
    Mul 'r 'r 'r
  | Mulh 'r 'r 'r
  | Mulhsu 'r 'r 'r
  | Mulhu 'r 'r 'r
  | Div 'r 'r 'r
  | Divu 'r 'r 'r
  | Rem 'r 'r 'r
  | Remu 'r 'r 'r
  | Mulw 'r 'r 'r
  | Divw 'r 'r 'r
  | Divuw 'r 'r 'r
  | Remw 'r 'r 'r
  | Remuw 'r 'r 'r

definition rv64m_decode_op :: "'r register \<Rightarrow> u32 \<Rightarrow> 'r Rv64MInstruction option" where
  "rv64m_decode_op R w = do {
     rd \<leftarrow> from_bits R (rd_bits w);
     rs1 \<leftarrow> from_bits R (rs1_bits w);
     rs2 \<leftarrow> from_bits R (rs2_bits w);
     if funct3 w = 0b000 \<and> funct7 w = 0b0000001 then Some (Mul rd rs1 rs2)
     else if funct3 w = 0b001 \<and> funct7 w = 0b0000001 then Some (Mulh rd rs1 rs2)
     else if funct3 w = 0b010 \<and> funct7 w = 0b0000001 then Some (Mulhsu rd rs1 rs2)
     else if funct3 w = 0b011 \<and> funct7 w = 0b0000001 then Some (Mulhu rd rs1 rs2)
     else if funct3 w = 0b100 \<and> funct7 w = 0b0000001 then Some (Div rd rs1 rs2)
     else if funct3 w = 0b101 \<and> funct7 w = 0b0000001 then Some (Divu rd rs1 rs2)
     else if funct3 w = 0b110 \<and> funct7 w = 0b0000001 then Some (Rem rd rs1 rs2)
     else if funct3 w = 0b111 \<and> funct7 w = 0b0000001 then Some (Remu rd rs1 rs2)
     else None
   }"

definition rv64m_decode_op_32 :: "'r register \<Rightarrow> u32 \<Rightarrow> 'r Rv64MInstruction option" where
  "rv64m_decode_op_32 R w = do {
     rd \<leftarrow> from_bits R (rd_bits w);
     rs1 \<leftarrow> from_bits R (rs1_bits w);
     rs2 \<leftarrow> from_bits R (rs2_bits w);
     if funct3 w = 0b000 \<and> funct7 w = 0b0000001 then Some (Mulw rd rs1 rs2)
     else if funct3 w = 0b100 \<and> funct7 w = 0b0000001 then Some (Divw rd rs1 rs2)
     else if funct3 w = 0b101 \<and> funct7 w = 0b0000001 then Some (Divuw rd rs1 rs2)
     else if funct3 w = 0b110 \<and> funct7 w = 0b0000001 then Some (Remw rd rs1 rs2)
     else if funct3 w = 0b111 \<and> funct7 w = 0b0000001 then Some (Remuw rd rs1 rs2)
     else None
   }"

definition rv64m_try_decode :: "'r register \<Rightarrow> u32 \<Rightarrow> 'r Rv64MInstruction option" where
  "rv64m_try_decode R w =
    (if opcode w = 0b0110011 then rv64m_decode_op R w
     else if opcode w = 0b0111011 then rv64m_decode_op_32 R w
     else None)"

primrec rv64m_encode :: "'r register \<Rightarrow> 'r Rv64MInstruction \<Rightarrow> u32" where
  "rv64m_encode R (Mul rd rs1 rs2) = enc_r 0x33 0 1 (offset R rd) (offset R rs1) (offset R rs2)"
| "rv64m_encode R (Mulh rd rs1 rs2) = enc_r 0x33 1 1 (offset R rd) (offset R rs1) (offset R rs2)"
| "rv64m_encode R (Mulhsu rd rs1 rs2) = enc_r 0x33 2 1 (offset R rd) (offset R rs1) (offset R rs2)"
| "rv64m_encode R (Mulhu rd rs1 rs2) = enc_r 0x33 3 1 (offset R rd) (offset R rs1) (offset R rs2)"
| "rv64m_encode R (Div rd rs1 rs2) = enc_r 0x33 4 1 (offset R rd) (offset R rs1) (offset R rs2)"
| "rv64m_encode R (Divu rd rs1 rs2) = enc_r 0x33 5 1 (offset R rd) (offset R rs1) (offset R rs2)"
| "rv64m_encode R (Rem rd rs1 rs2) = enc_r 0x33 6 1 (offset R rd) (offset R rs1) (offset R rs2)"
| "rv64m_encode R (Remu rd rs1 rs2) = enc_r 0x33 7 1 (offset R rd) (offset R rs1) (offset R rs2)"
| "rv64m_encode R (Mulw rd rs1 rs2) = enc_r 0x3b 0 1 (offset R rd) (offset R rs1) (offset R rs2)"
| "rv64m_encode R (Divw rd rs1 rs2) = enc_r 0x3b 4 1 (offset R rd) (offset R rs1) (offset R rs2)"
| "rv64m_encode R (Divuw rd rs1 rs2) = enc_r 0x3b 5 1 (offset R rd) (offset R rs1) (offset R rs2)"
| "rv64m_encode R (Remw rd rs1 rs2) = enc_r 0x3b 6 1 (offset R rd) (offset R rs1) (offset R rs2)"
| "rv64m_encode R (Remuw rd rs1 rs2) = enc_r 0x3b 7 1 (offset R rd) (offset R rs1) (offset R rs2)"

context basic_register
begin

lemma rv64m_decode_iff_encode: "rv64m_try_decode R w = Some i \<longleftrightarrow> rv64m_encode R i = w"
proof
  assume "rv64m_try_decode R w = Some i"
  then show "rv64m_encode R i = w"
    using enc_r_of_fields [of w]
    by (auto simp: rv64m_try_decode_def rv64m_decode_op_def rv64m_decode_op_32_def
        bind_eq_Some_conv from_bits_eq_Some_iff split: if_split_asm)
next
  have "rv64m_try_decode R (rv64m_encode R i) = Some i"
    by (cases i) (simp_all add: rv64m_try_decode_def rv64m_decode_op_def rv64m_decode_op_32_def
        format_fields offset_less_32 from_bits_offset)
  then show "rv64m_try_decode R w = Some i" if "rv64m_encode R i = w" using that by simp
qed

end

section \<open>Execution\<close>

primrec rv64m_operands :: "'r Rv64MInstruction \<Rightarrow> 'r \<times> 'r" where
  "rv64m_operands (Mul rd rs1 rs2) = (rs1, rs2)"
| "rv64m_operands (Mulh rd rs1 rs2) = (rs1, rs2)"
| "rv64m_operands (Mulhsu rd rs1 rs2) = (rs1, rs2)"
| "rv64m_operands (Mulhu rd rs1 rs2) = (rs1, rs2)"
| "rv64m_operands (Div rd rs1 rs2) = (rs1, rs2)"
| "rv64m_operands (Divu rd rs1 rs2) = (rs1, rs2)"
| "rv64m_operands (Rem rd rs1 rs2) = (rs1, rs2)"
| "rv64m_operands (Remu rd rs1 rs2) = (rs1, rs2)"
| "rv64m_operands (Mulw rd rs1 rs2) = (rs1, rs2)"
| "rv64m_operands (Divw rd rs1 rs2) = (rs1, rs2)"
| "rv64m_operands (Divuw rd rs1 rs2) = (rs1, rs2)"
| "rv64m_operands (Remw rd rs1 rs2) = (rs1, rs2)"
| "rv64m_operands (Remuw rd rs1 rs2) = (rs1, rs2)"

text \<open>\<open>i64::MIN\<close> and \<open>i32::MIN\<close>.\<close>

definition i64_min :: i64 where "i64_min = 0x8000000000000000"
definition i32_min :: i32 where "i32_min = 0x80000000"

primrec rv64m_execute ::
  "'r Rv64MInstruction \<Rightarrow> u64 \<Rightarrow> u64 \<Rightarrow> (u64, 'h) machine \<Rightarrow>
    (u64, 'r) exec_result \<times> (u64, 'h) machine" where
  "rv64m_execute (Mul rd rs1 rs2) rs1_value rs2_value s = cont rd (rs1_value * rs2_value) s"
| "rv64m_execute (Mulh rd rs1 rs2) rs1_value rs2_value s =
     cont rd (ucast (sar (scast rs1_value * scast rs2_value :: i128) 64)) s"
| "rv64m_execute (Mulhsu rd rs1 rs2) rs1_value rs2_value s =
     cont rd (ucast (sar (scast rs1_value * ucast rs2_value :: i128) 64)) s"
| "rv64m_execute (Mulhu rd rs1 rs2) rs1_value rs2_value s =
     cont rd (ucast (shr (ucast rs1_value * ucast rs2_value :: u128) 64)) s"
| "rv64m_execute (Div rd rs1 rs2) rs1_value rs2_value s =
     cont rd (if rs2_value = 0 then - 1
              else if rs1_value = i64_min \<and> rs2_value = - 1 then i64_min
              else word_of_int (sint rs1_value sdiv sint rs2_value)) s"
| "rv64m_execute (Divu rd rs1 rs2) rs1_value rs2_value s =
     cont rd (case checked_div rs1_value rs2_value of None \<Rightarrow> - 1 | Some q \<Rightarrow> q) s"
| "rv64m_execute (Rem rd rs1 rs2) rs1_value rs2_value s =
     cont rd (if rs2_value = 0 then rs1_value
              else if rs1_value = i64_min \<and> rs2_value = - 1 then 0
              else word_of_int (sint rs1_value smod sint rs2_value)) s"
| "rv64m_execute (Remu rd rs1 rs2) rs1_value rs2_value s =
     cont rd (if rs2_value = 0 then rs1_value else rs1_value mod rs2_value) s"
| "rv64m_execute (Mulw rd rs1 rs2) rs1_value rs2_value s =
     cont rd (scast (ucast rs1_value * ucast rs2_value :: i32)) s"
| "rv64m_execute (Divw rd rs1 rs2) rs1_value rs2_value s =
     (let dividend = ucast rs1_value :: i32; divisor = ucast rs2_value :: i32
      in cont rd (if divisor = 0 then - 1
                  else if dividend = i32_min \<and> divisor = - 1 then scast i32_min
                  else scast (word_of_int (sint dividend sdiv sint divisor) :: i32)) s)"
| "rv64m_execute (Divuw rd rs1 rs2) rs1_value rs2_value s =
     (let dividend = ucast rs1_value :: u32; divisor = ucast rs2_value :: u32
      in cont rd (case checked_div dividend divisor of None \<Rightarrow> - 1 | Some q \<Rightarrow> scast q) s)"
| "rv64m_execute (Remw rd rs1 rs2) rs1_value rs2_value s =
     (let dividend = ucast rs1_value :: i32; divisor = ucast rs2_value :: i32
      in cont rd (if divisor = 0 then scast dividend
                  else if dividend = i32_min \<and> divisor = - 1 then 0
                  else scast (word_of_int (sint dividend smod sint divisor) :: i32)) s)"
| "rv64m_execute (Remuw rd rs1 rs2) rs1_value rs2_value s =
     (let dividend = ucast rs1_value :: u32; divisor = ucast rs2_value :: u32
      in cont rd (scast (if divisor = 0 then dividend else dividend mod divisor)) s)"

definition rv64m_isa :: "'r register \<Rightarrow> (u64, 'r Rv64MInstruction, 'r, 'h) isa" where
  "rv64m_isa R =
    \<lparr>isa_reg = R, isa_decode = rv64m_try_decode R, isa_alignment = 4, isa_size = (\<lambda>_. 4),
     isa_operands = rv64m_operands, isa_execute = rv64m_execute\<rparr>"

section \<open>Integer semantics\<close>

text \<open>
  The manual's definition, with the quotient rounded towards zero, division by zero giving all
  ones and the remainder by zero the dividend; results are taken modulo \<open>2 ^ 64\<close>, or modulo
  \<open>2 ^ 32\<close> and sign-extended, which settles the overflow of the least integer divided by \<open>- 1\<close>.
\<close>

definition div_spec :: "int \<Rightarrow> int \<Rightarrow> int" where
  "div_spec a b = (if b = 0 then - 1 else a sdiv b)"

definition rem_spec :: "int \<Rightarrow> int \<Rightarrow> int" where
  "rem_spec a b = (if b = 0 then a else a smod b)"

definition rv64m_spec :: "'r Rv64MInstruction \<Rightarrow> u64 \<Rightarrow> u64 \<Rightarrow> 'r \<times> int" where
  "rv64m_spec i x y =
    (let sx = sint x; sy = sint y; ux = uint x; uy = uint y;
         sxw = sext32 (uint x); syw = sext32 (uint y);
         uxw = uint x mod 2 ^ 32; uyw = uint y mod 2 ^ 32
     in case i of
          Mul rd _ _ \<Rightarrow> (rd, sx * sy)
        | Mulh rd _ _ \<Rightarrow> (rd, sx * sy div 2 ^ 64)
        | Mulhsu rd _ _ \<Rightarrow> (rd, sx * uy div 2 ^ 64)
        | Mulhu rd _ _ \<Rightarrow> (rd, ux * uy div 2 ^ 64)
        | Div rd _ _ \<Rightarrow> (rd, div_spec sx sy)
        | Divu rd _ _ \<Rightarrow> (rd, div_spec ux uy)
        | Rem rd _ _ \<Rightarrow> (rd, rem_spec sx sy)
        | Remu rd _ _ \<Rightarrow> (rd, rem_spec ux uy)
        | Mulw rd _ _ \<Rightarrow> (rd, sext32 (ux * uy))
        | Divw rd _ _ \<Rightarrow> (rd, sext32 (div_spec sxw syw))
        | Divuw rd _ _ \<Rightarrow> (rd, sext32 (div_spec uxw uyw))
        | Remw rd _ _ \<Rightarrow> (rd, sext32 (rem_spec sxw syw))
        | Remuw rd _ _ \<Rightarrow> (rd, sext32 (rem_spec uxw uyw)))"

lemma ucast_sar_high: "(ucast (sar (word_of_int k :: i128) 64) :: u64) = word_of_int (k div 2 ^ 64)"
  unfolding drop_bit_eq_div [symmetric]
  by (rule bit_word_eqI)
    (simp add: sar_def bit_ucast_iff bit_signed_drop_bit_iff bit_word_of_int_iff bit_drop_bit_eq)

lemma ucast_shr_high: "(ucast (shr (word_of_int k :: u128) 64) :: u64) = word_of_int (k div 2 ^ 64)"
  unfolding drop_bit_eq_div [symmetric]
  by (rule bit_word_eqI) (simp add: shr_def bit_ucast_iff bit_word_of_int_iff bit_drop_bit_eq)

lemma wide_products:
  "(scast (x :: u64) * scast (y :: u64) :: i128) = word_of_int (sint x * sint y)"
  "(scast x * ucast y :: i128) = word_of_int (sint x * uint y)"
  "(ucast x * ucast y :: u128) = word_of_int (uint x * uint y)"
  by simp_all

lemma sint_eq_0_iff: "sint (w :: 'a::len word) = 0 \<longleftrightarrow> w = 0"
  by (metis signed_0 signed_word_eqI)

lemma sdiv_smod_nonneg:
  "0 \<le> (a :: int) \<Longrightarrow> 0 \<le> b \<Longrightarrow> a sdiv b = a div b"
  "0 \<le> a \<Longrightarrow> 0 \<le> b \<Longrightarrow> a smod b = a mod b"
  by (auto simp: signed_divide_int_def signed_modulo_int_def sgn_if)

lemma scast_word_of_int32: "(scast (word_of_int k :: i32) :: u64) = word_of_int (sext32 k)"
  by (simp flip: sint32_of_int)

text \<open>Division and remainder of 32-bit values, extended to 64 bits.\<close>

lemma div_rem_32:
  fixes a b :: i32
  shows "(if b = 0 then - 1 else if a = i32_min \<and> b = - 1 then scast i32_min
      else scast (word_of_int (sint a sdiv sint b) :: i32)) =
      (word_of_int (sext32 (div_spec (sint a) (sint b))) :: u64)"
    and "(if b = 0 then scast a else if a = i32_min \<and> b = - 1 then 0
      else scast (word_of_int (sint a smod sint b) :: i32)) =
      (word_of_int (sext32 (rem_spec (sint a) (sint b))) :: u64)"
proof -
  have "sint i32_min sdiv sint (- 1 :: i32) = 0x80000000" "sint i32_min smod sint (- 1 :: i32) = 0"
    "scast i32_min = (- 0x80000000 :: u64)"
    by code_simp+
  moreover have "sext32 (sint a) = sint a"
    using sint32_of_int [of "sint a"] by simp
  ultimately show "(if b = 0 then - 1 else if a = i32_min \<and> b = - 1 then scast i32_min
      else scast (word_of_int (sint a sdiv sint b) :: i32)) =
      (word_of_int (sext32 (div_spec (sint a) (sint b))) :: u64)"
    "(if b = 0 then scast a else if a = i32_min \<and> b = - 1 then 0
      else scast (word_of_int (sint a smod sint b) :: i32)) =
      (word_of_int (sext32 (rem_spec (sint a) (sint b))) :: u64)"
    by (auto simp: div_spec_def rem_spec_def sint_eq_0_iff scast_word_of_int32)
      (simp_all add: sext32_def)
qed

lemma divu_remu_32:
  fixes a b :: u32
  shows "(case checked_div a b of None \<Rightarrow> - 1 | Some q \<Rightarrow> scast q) =
      (word_of_int (sext32 (div_spec (uint a) (uint b))) :: u64)"
    and "scast (if b = 0 then a else a mod b) =
      (word_of_int (sext32 (rem_spec (uint a) (uint b))) :: u64)"
proof -
  have "a div b = word_of_int (uint a div uint b)" "a mod b = word_of_int (uint a mod uint b)"
    by (simp_all add: word_div_def word_mod_def)
  moreover have "scast a = (word_of_int (sext32 (uint a)) :: u64)"
    using scast_word_of_int32 [of "uint a"] by simp
  ultimately show "(case checked_div a b of None \<Rightarrow> - 1 | Some q \<Rightarrow> scast q) =
      (word_of_int (sext32 (div_spec (uint a) (uint b))) :: u64)"
    "scast (if b = 0 then a else a mod b) =
      (word_of_int (sext32 (rem_spec (uint a) (uint b))) :: u64)"
    by (auto simp: checked_div_def div_spec_def rem_spec_def uint_0_iff sdiv_smod_nonneg
        scast_word_of_int32 sext32_def simp del: of_int_uint)
qed

lemma divu_remu_64:
  fixes x y :: u64
  shows "(case checked_div x y of None \<Rightarrow> - 1 | Some q \<Rightarrow> q) = word_of_int (div_spec (uint x) (uint y))"
    and "(if y = 0 then x else x mod y) = word_of_int (rem_spec (uint x) (uint y))"
  by (auto simp: checked_div_def div_spec_def rem_spec_def uint_0_iff sdiv_smod_nonneg
      word_div_def word_mod_def)

lemma mulw_int: "(scast (ucast (x :: u64) * ucast y :: i32) :: u64) = word_of_int (sext32 (uint x * uint y))"
  for y :: u64
proof -
  have "ucast x * ucast y = (word_of_int (uint x * uint y) :: i32)" by simp
  then show ?thesis by (simp only: scast_word_of_int32)
qed

lemma rv64m_correct_lemma:
  "rv64m_execute i x y s = (case rv64m_spec i x y of (rd, v) \<Rightarrow> cont rd (word_of_int v) s)"
proof (cases i)
  case (Mulh rd r1 r2)
  then show ?thesis
    by (simp only: rv64m_execute.simps rv64m_spec_def wide_products ucast_sar_high Let_def
        Rv64MInstruction.case prod.case)
next
  case (Mulhsu rd r1 r2)
  then show ?thesis
    by (simp only: rv64m_execute.simps rv64m_spec_def wide_products ucast_sar_high Let_def
        Rv64MInstruction.case prod.case)
next
  case (Mulhu rd r1 r2)
  then show ?thesis
    by (simp only: rv64m_execute.simps rv64m_spec_def wide_products ucast_shr_high Let_def
        Rv64MInstruction.case prod.case)
next
  case (Div rd r1 r2)
  then show ?thesis
    by (simp add: rv64m_spec_def div_spec_def sint_eq_0_iff i64_min_def)
next
  case (Rem rd r1 r2)
  then show ?thesis
    by (simp add: rv64m_spec_def rem_spec_def sint_eq_0_iff i64_min_def
        signed_modulo_int_def [of _ 1])
qed (simp_all only: rv64m_execute.simps rv64m_spec_def Let_def div_rem_32 divu_remu_32
    divu_remu_64 mulw_int sint_ucast32 uint_ucast32 Rv64MInstruction.case prod.case
    of_int_mult of_int_sint scast_id)

lemma rv64m_keeps: "machine_wf R s \<Longrightarrow> keeps R s (rv64m_execute i x y s)"
  by (cases i) (simp_all add: keeps_simps Let_def)

lemma rv64m_instruction_set: "instruction_set (rv64m_isa R)"
  by unfold_locales (auto simp: rv64m_isa_def rv64m_keeps)

lemma sint_word_of_int_id:
  "- (2 ^ 63) \<le> k \<Longrightarrow> k < 2 ^ 63 \<Longrightarrow> sint (word_of_int k :: i64) = k"
  by (simp add: signed_of_int signed_take_bit_int_eq_self)

lemma smod_bounds:
  assumes "b \<noteq> (0 :: int)"
  shows "\<bar>a smod b\<bar> < \<bar>b\<bar>" "\<bar>a smod b\<bar> \<le> \<bar>a\<bar>" "a smod b = 0 \<or> sgn (a smod b) = sgn a"
proof -
  have m: "0 \<le> \<bar>a\<bar> mod \<bar>b\<bar>" "\<bar>a\<bar> mod \<bar>b\<bar> < \<bar>b\<bar>" using assms by simp_all
  have "\<bar>a\<bar> mod \<bar>b\<bar> \<le> \<bar>a\<bar>" using zmod_le_nonneg_dividend [of "\<bar>a\<bar>"] by simp
  then show "\<bar>a smod b\<bar> < \<bar>b\<bar>" "\<bar>a smod b\<bar> \<le> \<bar>a\<bar>" "a smod b = 0 \<or> sgn (a smod b) = sgn a"
    using m by (auto simp: signed_modulo_int_def abs_mult sgn_mult sgn_if)
qed

lemma div_rem_words:
  fixes x y :: u64
  defines "q \<equiv> word_of_int (div_spec (sint x) (sint y))"
    and "r \<equiv> word_of_int (rem_spec (sint x) (sint y)) :: u64"
  shows "q * y + r = x"
    and "y \<noteq> 0 \<Longrightarrow> \<bar>sint r\<bar> < \<bar>sint y\<bar> \<and> (sint r = 0 \<or> sgn (sint r) = sgn (sint x))"
proof -
  show "q * y + r = x"
  proof (cases "y = 0")
    case True
    then show ?thesis by (simp add: r_def rem_spec_def)
  next
    case False
    then have "q * y + r = word_of_int (sint x sdiv sint y * sint y + sint x smod sint y)"
      by (simp add: q_def r_def div_spec_def rem_spec_def sint_eq_0_iff)
    also have "\<dots> = word_of_int (sint x)" by (simp only: sdiv_mult_smod_eq)
    finally show ?thesis by simp
  qed
  show "\<bar>sint r\<bar> < \<bar>sint y\<bar> \<and> (sint r = 0 \<or> sgn (sint r) = sgn (sint x))" if "y \<noteq> 0"
  proof -
    have ny: "sint y \<noteq> 0" using that by (simp add: sint_eq_0_iff)
    have "\<bar>sint y\<bar> \<le> 2 ^ 63" using sint_ge [of y] sint_lt [of y] by simp
    then have "sint (word_of_int (sint x smod sint y) :: u64) = sint x smod sint y"
      using smod_bounds(1) [OF ny, of "sint x"] by (intro sint_word_of_int_id) auto
    then show ?thesis
      using smod_bounds [OF ny, of "sint x"] ny by (simp add: r_def rem_spec_def)
  qed
qed

section \<open>Properties\<close>

text \<open>
  C7. The M decoder accepts exactly the encodings of the thirteen multiplication and division
  instructions and returns the instruction encoded.
\<close>

theorem rv64m_decode_correct:
  assumes "basic_register R"
  shows "rv64m_try_decode R w = Some i \<longleftrightarrow> rv64m_encode R i = w"
  by (rule basic_register.rv64m_decode_iff_encode [OF assms])

theorem rv64m_decode_correct_witness:
  "rv64m_try_decode Reg_register 0x02c5d533 = Some (Divu Reg.A0 Reg.A1 Reg.A2)"
proof -
  have "rv64m_encode Reg_register (Divu Reg.A0 Reg.A1 Reg.A2) = 0x02c5d533" by code_simp
  then show ?thesis using rv64m_decode_correct [OF reg.basic_register_axioms] by blast
qed

text \<open>
  C8. Every M instruction, on every pair of operands, returns the value the ISA manual defines by
  integer arithmetic: full products and their high halves for the three signedness combinations,
  quotients and remainders rounded towards zero, with division by zero and the overflow of the
  least integer divided by \<open>- 1\<close> as specified, and the 32-bit forms sign-extended.
\<close>

theorem rv64m_correct:
  "rv64m_execute i x y s =
    (case rv64m_spec i x y of (rd, v) \<Rightarrow> (Inr (Continue (rd, word_of_int v)), s))"
  unfolding rv64m_correct_lemma by (simp add: cont_def)

text \<open>
  Signed division and remainder belong together for every dividend and divisor, zero and
  overflow included: quotient times divisor plus remainder is the dividend; for a non-zero divisor
  the remainder is smaller in magnitude than the divisor and has the sign of the dividend.
\<close>

lemma rv64m_div_rem:
  assumes "rv64m_execute (Div rd r1 r2) x y s = (Inr (Continue (rd, q)), s)"
    and "rv64m_execute (Rem rd r1 r2) x y s = (Inr (Continue (rd, r)), s)"
  shows "q * y + r = x \<and>
    (y \<noteq> 0 \<longrightarrow> \<bar>sint r\<bar> < \<bar>sint y\<bar> \<and> (sint r = 0 \<or> sgn (sint r) = sgn (sint x)))"
proof -
  have "q = word_of_int (div_spec (sint x) (sint y))" "r = word_of_int (rem_spec (sint x) (sint y))"
    using assms unfolding rv64m_correct_lemma by (simp_all add: rv64m_spec_def cont_def)
  then show ?thesis
    using div_rem_words(1) [of x y] div_rem_words(2) [where x = x and y = y] by simp
qed

lemma rv64m_div_rem_witness:
  "rv64m_execute (Div Reg.A0 Reg.A1 Reg.A2) (- 7) 2 (rv64_demo []) =
     (Inr (Continue (Reg.A0, - 3)), rv64_demo []) \<and>
   rv64m_execute (Rem Reg.A0 Reg.A1 Reg.A2) (- 7) 2 (rv64_demo []) =
     (Inr (Continue (Reg.A0, - 1)), rv64_demo []) \<and>
   (- 3) * 2 + (- 1) = (- 7 :: u64) \<and> \<bar>sint (- 1 :: u64)\<bar> < \<bar>sint (2 :: u64)\<bar>"
proof -
  have "rv64m_execute (Div Reg.A0 Reg.A1 Reg.A2) (- 7) 2 (rv64_demo []) =
      (Inr (Continue (Reg.A0, - 3)), rv64_demo [])"
    "rv64m_execute (Rem Reg.A0 Reg.A1 Reg.A2) (- 7) 2 (rv64_demo []) =
      (Inr (Continue (Reg.A0, - 1)), rv64_demo [])"
    by (simp_all add: cont_def i64_min_def signed_divide_int_def signed_modulo_int_def)
  from this rv64m_div_rem [OF this] show ?thesis by simp
qed

end
