(* ===== verification/Bit_Counts.thy ===== *)
theory Bit_Counts
  imports Prelude
begin

text \<open>
  The trailing ones and zeros of a machine word as recursive functions on natural numbers, and
  clearing the lowest set bit as a subtraction. A binary counter of trees (the stacks
  of the Merkle trees) is driven by these operations.
\<close>

function nat_ones :: "nat \<Rightarrow> nat" where
  "nat_ones n = (if odd n then Suc (nat_ones (n div 2)) else 0)"
  by pat_completeness auto
termination by (relation "measure id") (auto elim!: oddE)

function nat_zeros :: "nat \<Rightarrow> nat" where
  "nat_zeros n = (if n = 0 \<or> odd n then 0 else Suc (nat_zeros (n div 2)))"
  by pat_completeness auto
termination by (relation "measure id") auto

declare nat_ones.simps [simp del] nat_zeros.simps [simp del]

lemma nat_ones_even [simp]: "even n \<Longrightarrow> nat_ones n = 0"
  by (simp add: nat_ones.simps)

lemma nat_ones_odd: "odd n \<Longrightarrow> nat_ones n = Suc (nat_ones (n div 2))"
  by (simp add: nat_ones.simps)

lemma nat_zeros_odd [simp]: "odd n \<Longrightarrow> nat_zeros n = 0"
  by (simp add: nat_zeros.simps)

lemma nat_zeros_even: "0 < n \<Longrightarrow> even n \<Longrightarrow> nat_zeros n = Suc (nat_zeros (n div 2))"
  by (subst nat_zeros.simps) auto

lemma pow_nat_ones: "2 ^ nat_ones n \<le> n + 1"
proof (induction n rule: nat_ones.induct)
  case (1 n)
  then show ?case by (cases "odd n") (auto simp: nat_ones_odd elim!: oddE)
qed

lemma pow_nat_zeros: "0 < n \<Longrightarrow> 2 ^ nat_zeros n \<le> n"
proof (induction n rule: nat_zeros.induct)
  case (1 n)
  show ?case
  proof (cases "odd n")
    case False
    then obtain m where m: "n = 2 * m" by (auto elim: evenE)
    with 1 False have "2 ^ nat_zeros m \<le> m" by auto
    with m 1(2) show ?thesis by (simp add: nat_zeros_even)
  qed (use 1(2) in simp)
qed

lemma bits_Cons: "map (bit n) [0..<Suc k] = odd n # map (bit (n div 2)) [0..<k]" for n :: nat
proof -
  have "map (bit n) [0..<Suc k] = bit n 0 # map (bit n \<circ> Suc) [0..<k]"
    by (simp only: upt_conv_Cons map_Suc_upt [symmetric] map_map list.map)
  then show ?thesis by (simp add: bit_0 bit_Suc o_def)
qed

lemma length_ones: "length (takeWhile (\<lambda>b. b) (map (bit n) [0..<k])) = min k (nat_ones n)"
  for n :: nat
proof (induction k arbitrary: n)
  case (Suc k)
  then show ?case by (simp only: bits_Cons) (simp add: nat_ones.simps [of n])
qed simp

lemma length_zeros:
  "length (takeWhile Not (map (bit n) [0..<k])) = (if n = 0 then k else min k (nat_zeros n))"
  for n :: nat
proof (induction k arbitrary: n)
  case (Suc k)
  have "takeWhile Not (map bot [0..<k]) = map bot [0..<k]"
    by (subst takeWhile_eq_all_conv) auto
  moreover have "n div 2 = 0 \<and> even n \<longleftrightarrow> n = 0" by presburger
  ultimately show ?case
    using Suc [of "n div 2"]
    by (simp only: bits_Cons takeWhile.simps) (auto simp: nat_zeros.simps [of n])
qed simp

lemma word_bits_unat: "word_bits w = map (bit (unat w)) [0..<LENGTH('a)]" for w :: "'a::len word"
  by (simp add: word_bits_def bit_unsigned_iff)

lemma unat_less_u64: "unat (w :: u64) < 2 ^ 64"
  using unsigned_less [of w] by simp

lemma nat_ones_bound: "nat_ones (unat w) \<le> LENGTH('a)" for w :: "'a::len word"
proof -
  have "2 ^ nat_ones (unat w) \<le> unat w + 1" by (rule pow_nat_ones)
  also have "\<dots> \<le> 2 ^ LENGTH('a)" using unsigned_less [of w] by (simp add: Suc_le_eq)
  finally show ?thesis by (rule power_le_imp_le_exp [rotated]) simp
qed

lemma nat_zeros_bound: "w \<noteq> 0 \<Longrightarrow> nat_zeros (unat w) < LENGTH('a)" for w :: "'a::len word"
proof -
  assume "w \<noteq> 0"
  then have "2 ^ nat_zeros (unat w) \<le> unat w" by (intro pow_nat_zeros) (simp add: unat_gt_0)
  also have "\<dots> < 2 ^ LENGTH('a)" by (rule unsigned_less)
  finally show ?thesis by (rule power_less_imp_less_exp [rotated]) simp
qed

lemma trailing_ones_unat: "trailing_ones w = nat_ones (unat w)"
  using nat_ones_bound [of w] by (simp add: trailing_ones_def word_bits_unat length_ones)

lemma trailing_zeros_unat:
  "trailing_zeros w = (if w = 0 then LENGTH('a) else nat_zeros (unat w))" for w :: "'a::len word"
  using nat_zeros_bound [of w]
  by (simp add: trailing_zeros_def word_bits_unat length_zeros unat_eq_0)

lemma bit_nat_zeros: "0 < n \<Longrightarrow> bit n (nat_zeros n)"
proof (induction n rule: nat_zeros.induct)
  case (1 n)
  then show ?case by (cases "odd n") (auto simp: bit_0 bit_Suc nat_zeros_even elim!: evenE)
qed

definition clear_bit :: "nat \<Rightarrow> u64 \<Rightarrow> u64" where
  "clear_bit level bits = bits AND NOT (shl 1 level)"

lemma unat_clear_bit:
  assumes "bits \<noteq> 0"
  shows "unat (clear_bit (nat_zeros (unat bits)) bits) = unat bits - 2 ^ nat_zeros (unat bits)"
proof -
  let ?l = "nat_zeros (unat bits)"
  let ?m = "push_bit ?l 1 :: u64"
  have l: "?l < 64" using nat_zeros_bound [OF assms] by simp
  have "bit (unat bits) ?l" using assms by (intro bit_nat_zeros) (simp add: unat_gt_0)
  then have "bit bits ?l" by (simp add: bit_unsigned_iff)
  then have "bits = (bits AND NOT ?m) OR ?m"
    by (intro bit_word_eqI) (auto simp: bit_simps)
  also have "\<dots> = (bits AND NOT ?m) + ?m"
    by (rule disjunctive_add_eq_or [symmetric]) (simp add: and.assoc)
  finally have diff: "bits AND NOT ?m = bits - ?m" by (metis add_diff_cancel_right')
  have pow: "unat ?m = 2 ^ ?l"
    using unat_of_nat_less [where 'a = 64, of "2 ^ ?l"] power_strict_increasing [OF l, of "2 :: nat"]
    by (simp add: push_bit_eq_mult)
  have "2 ^ ?l \<le> unat bits"
    using assms by (intro pow_nat_zeros) (simp add: unat_gt_0)
  then have "?m \<le> bits" by (simp add: word_le_nat_alt pow del: push_bit_of_1)
  then have "unat (bits AND NOT ?m) = unat bits - 2 ^ ?l"
    by (simp only: diff unat_sub pow)
  with l show ?thesis by (simp add: clear_bit_def shl_def)
qed

end
