(* ===== verification/Rv64_B.thy ===== *)
theory Rv64_B
  imports Rv64_M Bit_Counts
begin

text \<open>
  Bit manipulation for RV64 (Zba, Zbb, Zbs, which together are the B extension, and Zbc) and the
  integer conditional operations (Zicond). Decoders:
  crates/execution/ab-riscv-primitives/src/instructions/rv64/b/ and instructions/zicond.rs.
  Execution: crates/execution/ab-riscv-interpreter/src/rv64/b/ and src/zicond.rs, with the
  portable branches of the helpers \<open>orc_b\<close> and \<open>clmul_internal\<close> (the other branches are
  target-specific intrinsics). \<open>isa_inherit\<close> is what the \<open>instruction\<close> macro makes of
  \<open>inherit = [...]\<close>.
\<close>

section \<open>Fields\<close>

definition funct6_u8 :: "u32 \<Rightarrow> u8" where
  "funct6_u8 w = ucast (shr w 26 AND 0b111111)"

definition low6 :: "u32 \<Rightarrow> u8" where
  "low6 w = ucast (shr w 20 AND 0x3f)"

definition funct12 :: "u32 \<Rightarrow> u16" where
  "funct12 w = ucast (shr w 20 AND 0xfff)"

section \<open>Instructions and decoders\<close>

subsection \<open>Zba: address generation\<close>

datatype (plugins only: code size) 'r Rv64ZbaInstruction =
    AddUw 'r 'r 'r
  | Sh1add 'r 'r 'r
  | Sh1addUw 'r 'r 'r
  | Sh2add 'r 'r 'r
  | Sh2addUw 'r 'r 'r
  | Sh3add 'r 'r 'r
  | Sh3addUw 'r 'r 'r
  | SlliUw 'r 'r u8

definition zba_try_decode :: "'r register \<Rightarrow> u32 \<Rightarrow> 'r Rv64ZbaInstruction option" where
  "zba_try_decode R w =
    (if opcode w = 0b0110011 then do {
       rd \<leftarrow> from_bits R (rd_bits w);
       rs1 \<leftarrow> from_bits R (rs1_bits w);
       rs2 \<leftarrow> from_bits R (rs2_bits w);
       if funct3 w = 0b010 \<and> funct7 w = 0b0010000 then Some (Sh1add rd rs1 rs2)
       else if funct3 w = 0b100 \<and> funct7 w = 0b0010000 then Some (Sh2add rd rs1 rs2)
       else if funct3 w = 0b110 \<and> funct7 w = 0b0010000 then Some (Sh3add rd rs1 rs2)
       else None
     }
     else if opcode w = 0b0011011 then do {
       rd \<leftarrow> from_bits R (rd_bits w);
       rs1 \<leftarrow> from_bits R (rs1_bits w);
       if funct3 w = 0b001 \<and> funct6_u8 w = 0b000010 then Some (SlliUw rd rs1 (low6 w))
       else None
     }
     else if opcode w = 0b0111011 then do {
       rd \<leftarrow> from_bits R (rd_bits w);
       rs1 \<leftarrow> from_bits R (rs1_bits w);
       if funct3 w = 0b000 then do {
         rs2 \<leftarrow> from_bits R (rs2_bits w);
         if funct7 w = 0b0000100 then Some (AddUw rd rs1 rs2) else None
       }
       else if funct3 w = 0b010 then do {
         rs2 \<leftarrow> from_bits R (rs2_bits w);
         if funct7 w = 0b0010000 then Some (Sh1addUw rd rs1 rs2) else None
       }
       else if funct3 w = 0b100 then do {
         rs2 \<leftarrow> from_bits R (rs2_bits w);
         if funct7 w = 0b0010000 then Some (Sh2addUw rd rs1 rs2) else None
       }
       else if funct3 w = 0b110 then do {
         rs2 \<leftarrow> from_bits R (rs2_bits w);
         if funct7 w = 0b0010000 then Some (Sh3addUw rd rs1 rs2) else None
       }
       else None
     }
     else None)"

subsection \<open>Zbb: basic bit manipulation\<close>

datatype (plugins only: code size) 'r Rv64ZbbInstruction =
    Andn 'r 'r 'r
  | Orn 'r 'r 'r
  | Xnor 'r 'r 'r
  | Clz 'r 'r
  | Clzw 'r 'r
  | Ctz 'r 'r
  | Ctzw 'r 'r
  | Cpop 'r 'r
  | Cpopw 'r 'r
  | Max_insn 'r 'r 'r
  | Maxu 'r 'r 'r
  | Min_insn 'r 'r 'r
  | Minu 'r 'r 'r
  | Sextb 'r 'r
  | Sexth 'r 'r
  | Zexth 'r 'r
  | Rol 'r 'r 'r
  | Rolw 'r 'r 'r
  | Ror 'r 'r 'r
  | Rori 'r 'r u8
  | Roriw 'r 'r u8
  | Rorw 'r 'r 'r
  | Orcb 'r 'r
  | Rev8 'r 'r

definition zbb_decode_op_imm :: "'r register \<Rightarrow> u32 \<Rightarrow> 'r Rv64ZbbInstruction option" where
  "zbb_decode_op_imm R w = do {
     rd \<leftarrow> from_bits R (rd_bits w);
     rs1 \<leftarrow> from_bits R (rs1_bits w);
     if funct3 w = 0b001 then
       (if funct6_u8 w = 0b011000 then
          (if low6 w = 0 then Some (Clz rd rs1)
           else if low6 w = 1 then Some (Ctz rd rs1)
           else if low6 w = 2 then Some (Cpop rd rs1)
           else if low6 w = 4 then Some (Sextb rd rs1)
           else if low6 w = 5 then Some (Sexth rd rs1)
           else None)
        else None)
     else if funct3 w = 0b101 then
       (if funct12 w = 0b001010000111 then Some (Orcb rd rs1)
        else if funct12 w = 0b011010111000 then Some (Rev8 rd rs1)
        else if funct6_u8 w = 0b011000 then Some (Rori rd rs1 (low6 w))
        else None)
     else None
   }"

definition zbb_decode_op :: "'r register \<Rightarrow> u32 \<Rightarrow> 'r Rv64ZbbInstruction option" where
  "zbb_decode_op R w = do {
     rd \<leftarrow> from_bits R (rd_bits w);
     rs1 \<leftarrow> from_bits R (rs1_bits w);
     rs2 \<leftarrow> from_bits R (rs2_bits w);
     if funct3 w = 0b001 then
       (if funct7 w = 0b0110000 then Some (Rol rd rs1 rs2) else None)
     else if funct3 w = 0b100 then
       (if funct7 w = 0b0100000 then Some (Xnor rd rs1 rs2)
        else if funct7 w = 0b0000101 then Some (Min_insn rd rs1 rs2)
        else None)
     else if funct3 w = 0b101 then
       (if funct7 w = 0b0110000 then Some (Ror rd rs1 rs2)
        else if funct7 w = 0b0000101 then Some (Minu rd rs1 rs2)
        else None)
     else if funct3 w = 0b110 then
       (if funct7 w = 0b0100000 then Some (Orn rd rs1 rs2)
        else if funct7 w = 0b0000101 then Some (Max_insn rd rs1 rs2)
        else None)
     else if funct3 w = 0b111 then
       (if funct7 w = 0b0100000 then Some (Andn rd rs1 rs2)
        else if funct7 w = 0b0000101 then Some (Maxu rd rs1 rs2)
        else None)
     else None
   }"

definition zbb_decode_op_imm_32 :: "'r register \<Rightarrow> u32 \<Rightarrow> 'r Rv64ZbbInstruction option" where
  "zbb_decode_op_imm_32 R w = do {
     rd \<leftarrow> from_bits R (rd_bits w);
     rs1 \<leftarrow> from_bits R (rs1_bits w);
     if funct3 w = 0b001 then
       (if funct7 w = 0b0110000 then
          (if rs2_bits w = 0 then Some (Clzw rd rs1)
           else if rs2_bits w = 1 then Some (Ctzw rd rs1)
           else if rs2_bits w = 2 then Some (Cpopw rd rs1)
           else None)
        else None)
     else if funct3 w = 0b101 then
       (if funct7 w = 0b0110000 then Some (Roriw rd rs1 (rs2_bits w)) else None)
     else None
   }"

definition zbb_decode_op_32 :: "'r register \<Rightarrow> u32 \<Rightarrow> 'r Rv64ZbbInstruction option" where
  "zbb_decode_op_32 R w = do {
     rd \<leftarrow> from_bits R (rd_bits w);
     rs1 \<leftarrow> from_bits R (rs1_bits w);
     rs2 \<leftarrow> from_bits R (rs2_bits w);
     if funct3 w = 0b001 then
       (if funct7 w = 0b0110000 then Some (Rolw rd rs1 rs2) else None)
     else if funct3 w = 0b100 then
       (if funct7 w = 0b0000100 \<and> rs2_bits w = 0 then Some (Zexth rd rs1) else None)
     else if funct3 w = 0b101 then
       (if funct7 w = 0b0110000 then Some (Rorw rd rs1 rs2) else None)
     else None
   }"

definition zbb_try_decode :: "'r register \<Rightarrow> u32 \<Rightarrow> 'r Rv64ZbbInstruction option" where
  "zbb_try_decode R w =
    (if opcode w = 0b0010011 then zbb_decode_op_imm R w
     else if opcode w = 0b0110011 then zbb_decode_op R w
     else if opcode w = 0b0011011 then zbb_decode_op_imm_32 R w
     else if opcode w = 0b0111011 then zbb_decode_op_32 R w
     else None)"

subsection \<open>Zbs: single bits\<close>

datatype (plugins only: code size) 'r Rv64ZbsInstruction =
    Bset 'r 'r 'r
  | Bseti 'r 'r u8
  | Bclr 'r 'r 'r
  | Bclri 'r 'r u8
  | Binv 'r 'r 'r
  | Binvi 'r 'r u8
  | Bext 'r 'r 'r
  | Bexti 'r 'r u8

definition zbs_try_decode :: "'r register \<Rightarrow> u32 \<Rightarrow> 'r Rv64ZbsInstruction option" where
  "zbs_try_decode R w =
    (if opcode w = 0b0110011 then do {
       rd \<leftarrow> from_bits R (rd_bits w);
       rs1 \<leftarrow> from_bits R (rs1_bits w);
       rs2 \<leftarrow> from_bits R (rs2_bits w);
       if funct3 w = 0b001 \<and> funct7 w = 0b0010100 then Some (Bset rd rs1 rs2)
       else if funct3 w = 0b001 \<and> funct7 w = 0b0100100 then Some (Bclr rd rs1 rs2)
       else if funct3 w = 0b001 \<and> funct7 w = 0b0110100 then Some (Binv rd rs1 rs2)
       else if funct3 w = 0b101 \<and> funct7 w = 0b0100100 then Some (Bext rd rs1 rs2)
       else None
     }
     else if opcode w = 0b0010011 then do {
       rd \<leftarrow> from_bits R (rd_bits w);
       rs1 \<leftarrow> from_bits R (rs1_bits w);
       if funct3 w = 0b001 \<and> funct6_u8 w = 0b001010 then Some (Bseti rd rs1 (low6 w))
       else if funct3 w = 0b001 \<and> funct6_u8 w = 0b010010 then Some (Bclri rd rs1 (low6 w))
       else if funct3 w = 0b001 \<and> funct6_u8 w = 0b011010 then Some (Binvi rd rs1 (low6 w))
       else if funct3 w = 0b101 \<and> funct6_u8 w = 0b010010 then Some (Bexti rd rs1 (low6 w))
       else None
     }
     else None)"

subsection \<open>Zbc: carry-less multiplication\<close>

datatype (plugins only: code size) 'r Rv64ZbcInstruction =
    Clmul 'r 'r 'r
  | Clmulh 'r 'r 'r
  | Clmulr 'r 'r 'r

definition zbc_try_decode :: "'r register \<Rightarrow> u32 \<Rightarrow> 'r Rv64ZbcInstruction option" where
  "zbc_try_decode R w =
    (if opcode w = 0b0110011 then do {
       rd \<leftarrow> from_bits R (rd_bits w);
       rs1 \<leftarrow> from_bits R (rs1_bits w);
       rs2 \<leftarrow> from_bits R (rs2_bits w);
       if funct3 w = 0b001 \<and> funct7 w = 0b0000101 then Some (Clmul rd rs1 rs2)
       else if funct3 w = 0b011 \<and> funct7 w = 0b0000101 then Some (Clmulh rd rs1 rs2)
       else if funct3 w = 0b010 \<and> funct7 w = 0b0000101 then Some (Clmulr rd rs1 rs2)
       else None
     }
     else None)"

subsection \<open>Zicond: conditional zero\<close>

datatype (plugins only: code size) 'r ZicondInstruction =
    CzeroEqz 'r 'r 'r
  | CzeroNez 'r 'r 'r

definition zicond_try_decode :: "'r register \<Rightarrow> u32 \<Rightarrow> 'r ZicondInstruction option" where
  "zicond_try_decode R w =
    (if opcode w = 0b0110011 \<and> funct7 w = 0b0000111 then do {
       rd \<leftarrow> from_bits R (rd_bits w);
       rs1 \<leftarrow> from_bits R (rs1_bits w);
       rs2 \<leftarrow> from_bits R (rs2_bits w);
       if funct3 w = 0b101 then Some (CzeroEqz rd rs1 rs2)
       else if funct3 w = 0b111 then Some (CzeroNez rd rs1 rs2)
       else None
     }
     else None)"

section \<open>Encodings of the manual\<close>

primrec zba_encode :: "'r register \<Rightarrow> 'r Rv64ZbaInstruction \<Rightarrow> u32" where
  "zba_encode R (AddUw rd rs1 rs2) = enc_r 0x3b 0 4 (offset R rd) (offset R rs1) (offset R rs2)"
| "zba_encode R (Sh1add rd rs1 rs2) = enc_r 0x33 2 16 (offset R rd) (offset R rs1) (offset R rs2)"
| "zba_encode R (Sh1addUw rd rs1 rs2) = enc_r 0x3b 2 16 (offset R rd) (offset R rs1) (offset R rs2)"
| "zba_encode R (Sh2add rd rs1 rs2) = enc_r 0x33 4 16 (offset R rd) (offset R rs1) (offset R rs2)"
| "zba_encode R (Sh2addUw rd rs1 rs2) = enc_r 0x3b 4 16 (offset R rd) (offset R rs1) (offset R rs2)"
| "zba_encode R (Sh3add rd rs1 rs2) = enc_r 0x33 6 16 (offset R rd) (offset R rs1) (offset R rs2)"
| "zba_encode R (Sh3addUw rd rs1 rs2) = enc_r 0x3b 6 16 (offset R rd) (offset R rs1) (offset R rs2)"
| "zba_encode R (SlliUw rd rs1 shamt) = enc_sh 0x1b 1 2 (offset R rd) (offset R rs1) shamt"

fun zba_wf :: "'r Rv64ZbaInstruction \<Rightarrow> bool" where
  "zba_wf (SlliUw rd rs1 shamt) \<longleftrightarrow> shamt < 64"
| "zba_wf _ \<longleftrightarrow> True"

text \<open>
  The unary operations have a fixed second source field: \<open>funct6\<close> and six bits below it, or
  \<open>funct7\<close> and five bits. \<open>orc.b\<close> is \<open>0010100 00111\<close>, \<open>rev8\<close> is \<open>0110101 11000\<close>.
\<close>

primrec zbb_encode :: "'r register \<Rightarrow> 'r Rv64ZbbInstruction \<Rightarrow> u32" where
  "zbb_encode R (Andn rd rs1 rs2) = enc_r 0x33 7 32 (offset R rd) (offset R rs1) (offset R rs2)"
| "zbb_encode R (Orn rd rs1 rs2) = enc_r 0x33 6 32 (offset R rd) (offset R rs1) (offset R rs2)"
| "zbb_encode R (Xnor rd rs1 rs2) = enc_r 0x33 4 32 (offset R rd) (offset R rs1) (offset R rs2)"
| "zbb_encode R (Clz rd rs1) = enc_sh 0x13 1 0x18 (offset R rd) (offset R rs1) 0"
| "zbb_encode R (Clzw rd rs1) = enc_r 0x1b 1 0x30 (offset R rd) (offset R rs1) 0"
| "zbb_encode R (Ctz rd rs1) = enc_sh 0x13 1 0x18 (offset R rd) (offset R rs1) 1"
| "zbb_encode R (Ctzw rd rs1) = enc_r 0x1b 1 0x30 (offset R rd) (offset R rs1) 1"
| "zbb_encode R (Cpop rd rs1) = enc_sh 0x13 1 0x18 (offset R rd) (offset R rs1) 2"
| "zbb_encode R (Cpopw rd rs1) = enc_r 0x1b 1 0x30 (offset R rd) (offset R rs1) 2"
| "zbb_encode R (Max_insn rd rs1 rs2) = enc_r 0x33 6 5 (offset R rd) (offset R rs1) (offset R rs2)"
| "zbb_encode R (Maxu rd rs1 rs2) = enc_r 0x33 7 5 (offset R rd) (offset R rs1) (offset R rs2)"
| "zbb_encode R (Min_insn rd rs1 rs2) = enc_r 0x33 4 5 (offset R rd) (offset R rs1) (offset R rs2)"
| "zbb_encode R (Minu rd rs1 rs2) = enc_r 0x33 5 5 (offset R rd) (offset R rs1) (offset R rs2)"
| "zbb_encode R (Sextb rd rs1) = enc_sh 0x13 1 0x18 (offset R rd) (offset R rs1) 4"
| "zbb_encode R (Sexth rd rs1) = enc_sh 0x13 1 0x18 (offset R rd) (offset R rs1) 5"
| "zbb_encode R (Zexth rd rs1) = enc_r 0x3b 4 4 (offset R rd) (offset R rs1) 0"
| "zbb_encode R (Rol rd rs1 rs2) = enc_r 0x33 1 0x30 (offset R rd) (offset R rs1) (offset R rs2)"
| "zbb_encode R (Rolw rd rs1 rs2) = enc_r 0x3b 1 0x30 (offset R rd) (offset R rs1) (offset R rs2)"
| "zbb_encode R (Ror rd rs1 rs2) = enc_r 0x33 5 0x30 (offset R rd) (offset R rs1) (offset R rs2)"
| "zbb_encode R (Rori rd rs1 shamt) = enc_sh 0x13 5 0x18 (offset R rd) (offset R rs1) shamt"
| "zbb_encode R (Roriw rd rs1 shamt) = enc_r 0x1b 5 0x30 (offset R rd) (offset R rs1) shamt"
| "zbb_encode R (Rorw rd rs1 rs2) = enc_r 0x3b 5 0x30 (offset R rd) (offset R rs1) (offset R rs2)"
| "zbb_encode R (Orcb rd rs1) = enc_sh 0x13 5 0x0a (offset R rd) (offset R rs1) 7"
| "zbb_encode R (Rev8 rd rs1) = enc_sh 0x13 5 0x1a (offset R rd) (offset R rs1) 0x38"

fun zbb_wf :: "'r Rv64ZbbInstruction \<Rightarrow> bool" where
  "zbb_wf (Rori rd rs1 shamt) \<longleftrightarrow> shamt < 64"
| "zbb_wf (Roriw rd rs1 shamt) \<longleftrightarrow> shamt < 32"
| "zbb_wf _ \<longleftrightarrow> True"

primrec zbs_encode :: "'r register \<Rightarrow> 'r Rv64ZbsInstruction \<Rightarrow> u32" where
  "zbs_encode R (Bset rd rs1 rs2) = enc_r 0x33 1 0x14 (offset R rd) (offset R rs1) (offset R rs2)"
| "zbs_encode R (Bseti rd rs1 shamt) = enc_sh 0x13 1 0x0a (offset R rd) (offset R rs1) shamt"
| "zbs_encode R (Bclr rd rs1 rs2) = enc_r 0x33 1 0x24 (offset R rd) (offset R rs1) (offset R rs2)"
| "zbs_encode R (Bclri rd rs1 shamt) = enc_sh 0x13 1 0x12 (offset R rd) (offset R rs1) shamt"
| "zbs_encode R (Binv rd rs1 rs2) = enc_r 0x33 1 0x34 (offset R rd) (offset R rs1) (offset R rs2)"
| "zbs_encode R (Binvi rd rs1 shamt) = enc_sh 0x13 1 0x1a (offset R rd) (offset R rs1) shamt"
| "zbs_encode R (Bext rd rs1 rs2) = enc_r 0x33 5 0x24 (offset R rd) (offset R rs1) (offset R rs2)"
| "zbs_encode R (Bexti rd rs1 shamt) = enc_sh 0x13 5 0x12 (offset R rd) (offset R rs1) shamt"

fun zbs_wf :: "'r Rv64ZbsInstruction \<Rightarrow> bool" where
  "zbs_wf (Bseti rd rs1 shamt) \<longleftrightarrow> shamt < 64"
| "zbs_wf (Bclri rd rs1 shamt) \<longleftrightarrow> shamt < 64"
| "zbs_wf (Binvi rd rs1 shamt) \<longleftrightarrow> shamt < 64"
| "zbs_wf (Bexti rd rs1 shamt) \<longleftrightarrow> shamt < 64"
| "zbs_wf _ \<longleftrightarrow> True"

primrec zbc_encode :: "'r register \<Rightarrow> 'r Rv64ZbcInstruction \<Rightarrow> u32" where
  "zbc_encode R (Clmul rd rs1 rs2) = enc_r 0x33 1 5 (offset R rd) (offset R rs1) (offset R rs2)"
| "zbc_encode R (Clmulh rd rs1 rs2) = enc_r 0x33 3 5 (offset R rd) (offset R rs1) (offset R rs2)"
| "zbc_encode R (Clmulr rd rs1 rs2) = enc_r 0x33 2 5 (offset R rd) (offset R rs1) (offset R rs2)"

primrec zicond_encode :: "'r register \<Rightarrow> 'r ZicondInstruction \<Rightarrow> u32" where
  "zicond_encode R (CzeroEqz rd rs1 rs2) = enc_r 0x33 5 7 (offset R rd) (offset R rs1) (offset R rs2)"
| "zicond_encode R (CzeroNez rd rs1 rs2) = enc_r 0x33 7 7 (offset R rd) (offset R rs1) (offset R rs2)"

section \<open>Decoding and encoding\<close>

lemma low6_eq: "low6 w = shamt6 w"
  by (simp add: word8_eq_iff upt_8 low6_def mask_simps bit_fields bit_ucast_iff bit_take_bit_iff
      bit_shr32 del: bit_0)

lemma bit_funct6_u8: "bit (funct6_u8 w) n \<longleftrightarrow> n < 6 \<and> bit w (n + 26)"
  unfolding funct6_u8_def mask_simps
  by (auto simp: bit_ucast_iff bit_take_bit_iff bit_shr32)

lemma funct6_u8_iff: "funct6_u8 w = c \<longleftrightarrow> funct6 w = ucast c"
proof -
  have "(ucast (funct6_u8 w) :: u32) = funct6 w"
    by (rule bit_word_eqI) (auto simp: bit_ucast_iff bit_funct6_u8 bit_fields)
  moreover have "(ucast a :: u32) = ucast c \<longleftrightarrow> a = c" for a
    by (simp only: word_unat_eq_iff) (simp add: unat_ucast_up)
  ultimately show ?thesis by metis
qed

lemma bit_funct12: "bit (funct12 w) n \<longleftrightarrow> n < 12 \<and> bit w (n + 20)"
  unfolding funct12_def mask_simps
  by (auto simp: bit_ucast_iff bit_take_bit_iff bit_shr32)

lemma funct12_iff:
  "funct12 w = 0x287 \<longleftrightarrow> funct6 w = 0x0a \<and> shamt6 w = 7"
  "funct12 w = 0x6b8 \<longleftrightarrow> funct6 w = 0x1a \<and> shamt6 w = 0x38"
  by (simp_all add: word8_eq_iff upt_8 word16_eq_iff upt_16 word32_eq_iff upt_32 bit_fields
      bit_funct12 del: bit_0) blast+

lemmas zb_fields = low6_eq funct6_u8_iff funct12_iff

lemmas zb_decode_defs = zba_try_decode_def zbb_try_decode_def zbb_decode_op_imm_def
  zbb_decode_op_def zbb_decode_op_imm_32_def zbb_decode_op_32_def zbs_try_decode_def
  zbc_try_decode_def zicond_try_decode_def

lemma rs2_bits_less: "rs2_bits w < 32"
  using shamt5_less [of w] by (simp add: shamt5_eq_rs2)

context basic_register
begin

lemma zba_decode_iff_encode: "zba_try_decode R w = Some i \<longleftrightarrow> zba_encode R i = w \<and> zba_wf i"
proof
  assume "zba_try_decode R w = Some i"
  then show "zba_encode R i = w \<and> zba_wf i"
    using enc_r_of_fields [of w] enc_sh_of_fields [of w] shamt6_less [of w]
    by (auto simp: zba_try_decode_def zb_fields bind_eq_Some_conv from_bits_eq_Some_iff
        split: if_split_asm)
next
  have "zba_wf i \<Longrightarrow> zba_try_decode R (zba_encode R i) = Some i"
    by (cases i) (simp_all add: zba_try_decode_def zb_fields format_fields offset_less_32
        from_bits_offset)
  then show "zba_try_decode R w = Some i" if "zba_encode R i = w \<and> zba_wf i" using that by auto
qed

lemma zbb_decode_iff_encode: "zbb_try_decode R w = Some i \<longleftrightarrow> zbb_encode R i = w \<and> zbb_wf i"
proof
  assume "zbb_try_decode R w = Some i"
  then show "zbb_encode R i = w \<and> zbb_wf i"
    using enc_r_of_fields [of w] enc_sh_of_fields [of w] shamt6_less [of w] rs2_bits_less [of w]
    by (auto simp: zb_decode_defs zb_fields bind_eq_Some_conv from_bits_eq_Some_iff
        split: if_split_asm)
next
  have "zbb_wf i \<Longrightarrow> zbb_try_decode R (zbb_encode R i) = Some i"
    by (cases i) (simp_all add: zb_decode_defs zb_fields format_fields offset_less_32
        from_bits_offset from_bits_zero)
  then show "zbb_try_decode R w = Some i" if "zbb_encode R i = w \<and> zbb_wf i" using that by auto
qed

lemma zbs_decode_iff_encode: "zbs_try_decode R w = Some i \<longleftrightarrow> zbs_encode R i = w \<and> zbs_wf i"
proof
  assume "zbs_try_decode R w = Some i"
  then show "zbs_encode R i = w \<and> zbs_wf i"
    using enc_r_of_fields [of w] enc_sh_of_fields [of w] shamt6_less [of w]
    by (auto simp: zbs_try_decode_def zb_fields bind_eq_Some_conv from_bits_eq_Some_iff
        split: if_split_asm)
next
  have "zbs_wf i \<Longrightarrow> zbs_try_decode R (zbs_encode R i) = Some i"
    by (cases i) (simp_all add: zbs_try_decode_def zb_fields format_fields offset_less_32
        from_bits_offset)
  then show "zbs_try_decode R w = Some i" if "zbs_encode R i = w \<and> zbs_wf i" using that by auto
qed

lemma zbc_decode_iff_encode: "zbc_try_decode R w = Some i \<longleftrightarrow> zbc_encode R i = w"
proof
  assume "zbc_try_decode R w = Some i"
  then show "zbc_encode R i = w"
    using enc_r_of_fields [of w]
    by (auto simp: zbc_try_decode_def bind_eq_Some_conv from_bits_eq_Some_iff split: if_split_asm)
next
  have "zbc_try_decode R (zbc_encode R i) = Some i"
    by (cases i) (simp_all add: zbc_try_decode_def format_fields offset_less_32 from_bits_offset)
  then show "zbc_try_decode R w = Some i" if "zbc_encode R i = w" using that by auto
qed

lemma zicond_decode_iff_encode: "zicond_try_decode R w = Some i \<longleftrightarrow> zicond_encode R i = w"
proof
  assume "zicond_try_decode R w = Some i"
  then show "zicond_encode R i = w"
    using enc_r_of_fields [of w]
    by (auto simp: zicond_try_decode_def bind_eq_Some_conv from_bits_eq_Some_iff
        split: if_split_asm)
next
  have "zicond_try_decode R (zicond_encode R i) = Some i"
    by (cases i) (simp_all add: zicond_try_decode_def format_fields offset_less_32 from_bits_offset)
  then show "zicond_try_decode R w = Some i" if "zicond_encode R i = w" using that by auto
qed

end

section \<open>Execution\<close>

text \<open>Rust's \<open>rotate_left\<close>, \<open>rotate_right\<close> and \<open>swap_bytes\<close>.\<close>

definition rotate_left :: "'a::len word \<Rightarrow> u32 \<Rightarrow> 'a word" where
  "rotate_left x n = word_rotl (unat n) x"

definition rotate_right :: "'a::len word \<Rightarrow> u32 \<Rightarrow> 'a word" where
  "rotate_right x n = word_rotr (unat n) x"

definition swap_bytes :: "u64 \<Rightarrow> u64" where
  "swap_bytes x = from_le_bytes (rev (to_le_bytes x))"

subsection \<open>Zba\<close>

primrec zba_operands :: "'r register \<Rightarrow> 'r Rv64ZbaInstruction \<Rightarrow> 'r \<times> 'r" where
  "zba_operands R (AddUw rd rs1 rs2) = (rs1, rs2)"
| "zba_operands R (Sh1add rd rs1 rs2) = (rs1, rs2)"
| "zba_operands R (Sh1addUw rd rs1 rs2) = (rs1, rs2)"
| "zba_operands R (Sh2add rd rs1 rs2) = (rs1, rs2)"
| "zba_operands R (Sh2addUw rd rs1 rs2) = (rs1, rs2)"
| "zba_operands R (Sh3add rd rs1 rs2) = (rs1, rs2)"
| "zba_operands R (Sh3addUw rd rs1 rs2) = (rs1, rs2)"
| "zba_operands R (SlliUw rd rs1 shamt) = (rs1, ZERO R)"

primrec zba_execute ::
  "'r Rv64ZbaInstruction \<Rightarrow> u64 \<Rightarrow> u64 \<Rightarrow> (u64, 'h) machine \<Rightarrow>
    (u64, 'r) exec_result \<times> (u64, 'h) machine" where
  "zba_execute (AddUw rd rs1 rs2) rs1_value rs2_value s =
     (let rs1_val = ucast (ucast rs1_value :: u32) in cont rd (rs1_val + rs2_value) s)"
| "zba_execute (Sh1add rd rs1 rs2) rs1_value rs2_value s = cont rd (shl rs1_value 1 + rs2_value) s"
| "zba_execute (Sh1addUw rd rs1 rs2) rs1_value rs2_value s =
     (let rs1_val = ucast (ucast rs1_value :: u32) in cont rd (shl rs1_val 1 + rs2_value) s)"
| "zba_execute (Sh2add rd rs1 rs2) rs1_value rs2_value s = cont rd (shl rs1_value 2 + rs2_value) s"
| "zba_execute (Sh2addUw rd rs1 rs2) rs1_value rs2_value s =
     (let rs1_val = ucast (ucast rs1_value :: u32) in cont rd (shl rs1_val 2 + rs2_value) s)"
| "zba_execute (Sh3add rd rs1 rs2) rs1_value rs2_value s = cont rd (shl rs1_value 3 + rs2_value) s"
| "zba_execute (Sh3addUw rd rs1 rs2) rs1_value rs2_value s =
     (let rs1_val = ucast (ucast rs1_value :: u32) in cont rd (shl rs1_val 3 + rs2_value) s)"
| "zba_execute (SlliUw rd rs1 shamt) rs1_value rs2_value s =
     (let rs1_val = ucast (ucast rs1_value :: u32)
      in cont rd (shl rs1_val (unat (shamt AND 0x3f))) s)"

subsection \<open>Zbb\<close>

definition orc_b :: "u64 \<Rightarrow> u64" where
  "orc_b src = from_le_bytes (map (\<lambda>byte. if byte \<noteq> 0 then 0xFF else 0) (to_le_bytes src))"

primrec zbb_operands :: "'r register \<Rightarrow> 'r Rv64ZbbInstruction \<Rightarrow> 'r \<times> 'r" where
  "zbb_operands R (Andn rd rs1 rs2) = (rs1, rs2)"
| "zbb_operands R (Orn rd rs1 rs2) = (rs1, rs2)"
| "zbb_operands R (Xnor rd rs1 rs2) = (rs1, rs2)"
| "zbb_operands R (Clz rd rs1) = (rs1, ZERO R)"
| "zbb_operands R (Clzw rd rs1) = (rs1, ZERO R)"
| "zbb_operands R (Ctz rd rs1) = (rs1, ZERO R)"
| "zbb_operands R (Ctzw rd rs1) = (rs1, ZERO R)"
| "zbb_operands R (Cpop rd rs1) = (rs1, ZERO R)"
| "zbb_operands R (Cpopw rd rs1) = (rs1, ZERO R)"
| "zbb_operands R (Max_insn rd rs1 rs2) = (rs1, rs2)"
| "zbb_operands R (Maxu rd rs1 rs2) = (rs1, rs2)"
| "zbb_operands R (Min_insn rd rs1 rs2) = (rs1, rs2)"
| "zbb_operands R (Minu rd rs1 rs2) = (rs1, rs2)"
| "zbb_operands R (Sextb rd rs1) = (rs1, ZERO R)"
| "zbb_operands R (Sexth rd rs1) = (rs1, ZERO R)"
| "zbb_operands R (Zexth rd rs1) = (rs1, ZERO R)"
| "zbb_operands R (Rol rd rs1 rs2) = (rs1, rs2)"
| "zbb_operands R (Rolw rd rs1 rs2) = (rs1, rs2)"
| "zbb_operands R (Ror rd rs1 rs2) = (rs1, rs2)"
| "zbb_operands R (Rori rd rs1 shamt) = (rs1, ZERO R)"
| "zbb_operands R (Roriw rd rs1 shamt) = (rs1, ZERO R)"
| "zbb_operands R (Rorw rd rs1 rs2) = (rs1, rs2)"
| "zbb_operands R (Orcb rd rs1) = (rs1, ZERO R)"
| "zbb_operands R (Rev8 rd rs1) = (rs1, ZERO R)"

primrec zbb_execute ::
  "'r Rv64ZbbInstruction \<Rightarrow> u64 \<Rightarrow> u64 \<Rightarrow> (u64, 'h) machine \<Rightarrow>
    (u64, 'r) exec_result \<times> (u64, 'h) machine" where
  "zbb_execute (Andn rd rs1 rs2) rs1_value rs2_value s = cont rd (rs1_value AND NOT rs2_value) s"
| "zbb_execute (Orn rd rs1 rs2) rs1_value rs2_value s = cont rd (rs1_value OR NOT rs2_value) s"
| "zbb_execute (Xnor rd rs1 rs2) rs1_value rs2_value s = cont rd (NOT (rs1_value XOR rs2_value)) s"
| "zbb_execute (Clz rd rs1) rs1_value rs2_value s = cont rd (of_nat (leading_zeros rs1_value)) s"
| "zbb_execute (Clzw rd rs1) rs1_value rs2_value s =
     cont rd (of_nat (leading_zeros (ucast rs1_value :: u32))) s"
| "zbb_execute (Ctz rd rs1) rs1_value rs2_value s = cont rd (of_nat (trailing_zeros rs1_value)) s"
| "zbb_execute (Ctzw rd rs1) rs1_value rs2_value s =
     cont rd (of_nat (trailing_zeros (ucast rs1_value :: u32))) s"
| "zbb_execute (Cpop rd rs1) rs1_value rs2_value s = cont rd (of_nat (count_ones rs1_value)) s"
| "zbb_execute (Cpopw rd rs1) rs1_value rs2_value s =
     cont rd (of_nat (count_ones (ucast rs1_value :: u32))) s"
| "zbb_execute (Max_insn rd rs1 rs2) rs1_value rs2_value s =
     cont rd (if rs1_value \<le>s rs2_value then rs2_value else rs1_value) s"
| "zbb_execute (Maxu rd rs1 rs2) rs1_value rs2_value s = cont rd (max rs1_value rs2_value) s"
| "zbb_execute (Min_insn rd rs1 rs2) rs1_value rs2_value s =
     cont rd (if rs1_value \<le>s rs2_value then rs1_value else rs2_value) s"
| "zbb_execute (Minu rd rs1 rs2) rs1_value rs2_value s = cont rd (min rs1_value rs2_value) s"
| "zbb_execute (Sextb rd rs1) rs1_value rs2_value s = cont rd (scast (ucast rs1_value :: i8)) s"
| "zbb_execute (Sexth rd rs1) rs1_value rs2_value s = cont rd (scast (ucast rs1_value :: i16)) s"
| "zbb_execute (Zexth rd rs1) rs1_value rs2_value s = cont rd (ucast (ucast rs1_value :: u16)) s"
| "zbb_execute (Rol rd rs1 rs2) rs1_value rs2_value s =
     (let shamt = ucast (rs2_value AND 0x3f) in cont rd (rotate_left rs1_value shamt) s)"
| "zbb_execute (Rolw rd rs1 rs2) rs1_value rs2_value s =
     (let shamt = ucast (rs2_value AND 0x1f)
      in cont rd (scast (rotate_left (ucast rs1_value :: u32) shamt)) s)"
| "zbb_execute (Ror rd rs1 rs2) rs1_value rs2_value s =
     (let shamt = ucast (rs2_value AND 0x3f) in cont rd (rotate_right rs1_value shamt) s)"
| "zbb_execute (Rori rd rs1 shamt) rs1_value rs2_value s =
     cont rd (rotate_right rs1_value (ucast (shamt AND 0x3f))) s"
| "zbb_execute (Roriw rd rs1 shamt) rs1_value rs2_value s =
     cont rd (scast (rotate_right (ucast rs1_value :: u32) (ucast (shamt AND 0x1f)))) s"
| "zbb_execute (Rorw rd rs1 rs2) rs1_value rs2_value s =
     (let shamt = ucast (rs2_value AND 0x1f)
      in cont rd (scast (rotate_right (ucast rs1_value :: u32) shamt)) s)"
| "zbb_execute (Orcb rd rs1) rs1_value rs2_value s = cont rd (orc_b rs1_value) s"
| "zbb_execute (Rev8 rd rs1) rs1_value rs2_value s = cont rd (swap_bytes rs1_value) s"

subsection \<open>Zbs\<close>

primrec zbs_operands :: "'r register \<Rightarrow> 'r Rv64ZbsInstruction \<Rightarrow> 'r \<times> 'r" where
  "zbs_operands R (Bset rd rs1 rs2) = (rs1, rs2)"
| "zbs_operands R (Bseti rd rs1 shamt) = (rs1, ZERO R)"
| "zbs_operands R (Bclr rd rs1 rs2) = (rs1, rs2)"
| "zbs_operands R (Bclri rd rs1 shamt) = (rs1, ZERO R)"
| "zbs_operands R (Binv rd rs1 rs2) = (rs1, rs2)"
| "zbs_operands R (Binvi rd rs1 shamt) = (rs1, ZERO R)"
| "zbs_operands R (Bext rd rs1 rs2) = (rs1, rs2)"
| "zbs_operands R (Bexti rd rs1 shamt) = (rs1, ZERO R)"

primrec zbs_execute ::
  "'r Rv64ZbsInstruction \<Rightarrow> u64 \<Rightarrow> u64 \<Rightarrow> (u64, 'h) machine \<Rightarrow>
    (u64, 'r) exec_result \<times> (u64, 'h) machine" where
  "zbs_execute (Bset rd rs1 rs2) rs1_value rs2_value s =
     (let index = unat (rs2_value AND 0x3f) in cont rd (rs1_value OR shl 1 index) s)"
| "zbs_execute (Bseti rd rs1 shamt) rs1_value rs2_value s =
     (let index = unat shamt in cont rd (rs1_value OR shl 1 index) s)"
| "zbs_execute (Bclr rd rs1 rs2) rs1_value rs2_value s =
     (let index = unat (rs2_value AND 0x3f) in cont rd (rs1_value AND NOT (shl 1 index)) s)"
| "zbs_execute (Bclri rd rs1 shamt) rs1_value rs2_value s =
     (let index = unat shamt in cont rd (rs1_value AND NOT (shl 1 index)) s)"
| "zbs_execute (Binv rd rs1 rs2) rs1_value rs2_value s =
     (let index = unat (rs2_value AND 0x3f) in cont rd (rs1_value XOR shl 1 index) s)"
| "zbs_execute (Binvi rd rs1 shamt) rs1_value rs2_value s =
     (let index = unat shamt in cont rd (rs1_value XOR shl 1 index) s)"
| "zbs_execute (Bext rd rs1 rs2) rs1_value rs2_value s =
     (let index = unat (rs2_value AND 0x3f) in cont rd (shr rs1_value index AND 1) s)"
| "zbs_execute (Bexti rd rs1 shamt) rs1_value rs2_value s =
     (let index = unat shamt in cont rd (shr rs1_value index AND 1) s)"

subsection \<open>Zbc\<close>

fun clmul_loop :: "nat list \<Rightarrow> u128 \<Rightarrow> u64 \<Rightarrow> u128 \<Rightarrow> u128" where
  "clmul_loop [] a b result = result"
| "clmul_loop (i # is) a b result =
    (let bit = ucast (b AND 1) :: u128;
         result = result XOR (shl a i AND (0 - bit))
     in clmul_loop is a (shr b 1) result)"

definition clmul_internal :: "u64 \<Rightarrow> u64 \<Rightarrow> u128" where
  "clmul_internal a b = clmul_loop [0..<64] (ucast a) b 0"

definition clmul :: "u64 \<Rightarrow> u64 \<Rightarrow> u64" where
  "clmul a b = ucast (clmul_internal a b)"

definition clmulh :: "u64 \<Rightarrow> u64 \<Rightarrow> u64" where
  "clmulh a b = ucast (shr (clmul_internal a b) 64)"

definition clmulr :: "u64 \<Rightarrow> u64 \<Rightarrow> u64" where
  "clmulr a b = ucast (shr (clmul_internal a b) 63)"

primrec zbc_operands :: "'r Rv64ZbcInstruction \<Rightarrow> 'r \<times> 'r" where
  "zbc_operands (Clmul rd rs1 rs2) = (rs1, rs2)"
| "zbc_operands (Clmulh rd rs1 rs2) = (rs1, rs2)"
| "zbc_operands (Clmulr rd rs1 rs2) = (rs1, rs2)"

primrec zbc_execute ::
  "'r Rv64ZbcInstruction \<Rightarrow> u64 \<Rightarrow> u64 \<Rightarrow> (u64, 'h) machine \<Rightarrow>
    (u64, 'r) exec_result \<times> (u64, 'h) machine" where
  "zbc_execute (Clmul rd rs1 rs2) rs1_value rs2_value s = cont rd (clmul rs1_value rs2_value) s"
| "zbc_execute (Clmulh rd rs1 rs2) rs1_value rs2_value s = cont rd (clmulh rs1_value rs2_value) s"
| "zbc_execute (Clmulr rd rs1 rs2) rs1_value rs2_value s = cont rd (clmulr rs1_value rs2_value) s"

subsection \<open>Zicond\<close>

primrec zicond_operands :: "'r ZicondInstruction \<Rightarrow> 'r \<times> 'r" where
  "zicond_operands (CzeroEqz rd rs1 rs2) = (rs1, rs2)"
| "zicond_operands (CzeroNez rd rs1 rs2) = (rs1, rs2)"

primrec zicond_execute ::
  "'r ZicondInstruction \<Rightarrow> 'a::len word \<Rightarrow> 'a word \<Rightarrow> ('a word, 'h) machine \<Rightarrow>
    ('a word, 'r) exec_result \<times> ('a word, 'h) machine" where
  "zicond_execute (CzeroEqz rd rs1 rs2) rs1_value rs2_value s =
     cont rd (if rs2_value = 0 then 0 else rs1_value) s"
| "zicond_execute (CzeroNez rd rs1 rs2) rs1_value rs2_value s =
     cont rd (if rs2_value = 0 then rs1_value else 0) s"

section \<open>Instruction sets and their composition\<close>

definition zba_isa :: "'r register \<Rightarrow> (u64, 'r Rv64ZbaInstruction, 'r, 'h) isa" where
  "zba_isa R =
    \<lparr>isa_reg = R, isa_decode = zba_try_decode R, isa_alignment = 4, isa_size = (\<lambda>_. 4),
     isa_operands = zba_operands R, isa_execute = zba_execute\<rparr>"

definition zbb_isa :: "'r register \<Rightarrow> (u64, 'r Rv64ZbbInstruction, 'r, 'h) isa" where
  "zbb_isa R =
    \<lparr>isa_reg = R, isa_decode = zbb_try_decode R, isa_alignment = 4, isa_size = (\<lambda>_. 4),
     isa_operands = zbb_operands R, isa_execute = zbb_execute\<rparr>"

definition zbs_isa :: "'r register \<Rightarrow> (u64, 'r Rv64ZbsInstruction, 'r, 'h) isa" where
  "zbs_isa R =
    \<lparr>isa_reg = R, isa_decode = zbs_try_decode R, isa_alignment = 4, isa_size = (\<lambda>_. 4),
     isa_operands = zbs_operands R, isa_execute = zbs_execute\<rparr>"

definition zbc_isa :: "'r register \<Rightarrow> (u64, 'r Rv64ZbcInstruction, 'r, 'h) isa" where
  "zbc_isa R =
    \<lparr>isa_reg = R, isa_decode = zbc_try_decode R, isa_alignment = 4, isa_size = (\<lambda>_. 4),
     isa_operands = zbc_operands, isa_execute = zbc_execute\<rparr>"

definition zicond_isa :: "'r register \<Rightarrow> ('a::len word, 'r ZicondInstruction, 'r, 'h) isa" where
  "zicond_isa R =
    \<lparr>isa_reg = R, isa_decode = zicond_try_decode R, isa_alignment = 4, isa_size = (\<lambda>_. 4),
     isa_operands = zicond_operands, isa_execute = zicond_execute\<rparr>"

text \<open>
  An enum with \<open>inherit = [A, B]\<close> has the variants of both, the sum of the two types. Its decoder
  tries theirs in the order of the list, its alignment is the least of theirs, and size, operands
  and execution go to the enum a variant comes from.
\<close>

definition isa_inherit ::
  "('w, 'i, 'r, 'h) isa \<Rightarrow> ('w, 'j, 'r, 'h) isa \<Rightarrow> ('w, 'i + 'j, 'r, 'h) isa" where
  "isa_inherit A B =
    \<lparr>isa_reg = isa_reg A,
     isa_decode = (\<lambda>w. case isa_decode A w of
        Some i \<Rightarrow> Some (Inl i)
      | None \<Rightarrow> (case isa_decode B w of Some j \<Rightarrow> Some (Inr j) | None \<Rightarrow> None)),
     isa_alignment = min (isa_alignment A) (isa_alignment B),
     isa_size = case_sum (isa_size A) (isa_size B),
     isa_operands = case_sum (isa_operands A) (isa_operands B),
     isa_execute = case_sum (isa_execute A) (isa_execute B)\<rparr>"

definition rv64b_isa ::
  "'r register \<Rightarrow>
    (u64, 'r Rv64ZbaInstruction + 'r Rv64ZbbInstruction + 'r Rv64ZbsInstruction, 'r, 'h) isa" where
  "rv64b_isa R = isa_inherit (zba_isa R) (isa_inherit (zbb_isa R) (zbs_isa R))"

text \<open>A decoder that accepts exactly the encodings of the well-formed instructions.\<close>

locale encoded_isa =
  fixes decode :: "u32 \<Rightarrow> 'i option" and encode :: "'i \<Rightarrow> u32" and wf :: "'i \<Rightarrow> bool"
  assumes decode_iff: "decode w = Some i \<longleftrightarrow> encode i = w \<and> wf i"
begin

lemma decode_encode: "wf i \<Longrightarrow> decode (encode i) = Some i"
  by (simp add: decode_iff)

lemma encode_inj: "wf i \<Longrightarrow> wf j \<Longrightarrow> encode i = encode j \<Longrightarrow> i = j"
  by (metis decode_encode option.inject)

lemma decode_None_iff: "decode w = None \<longleftrightarrow> (\<forall>i. wf i \<longrightarrow> encode i \<noteq> w)"
  using decode_iff by (metis not_None_eq)

end

lemma encoded_isa_inherit:
  assumes "encoded_isa (isa_decode A) eA wA" and "encoded_isa (isa_decode B) eB wB"
    and "\<And>j. wB j \<Longrightarrow> isa_decode A (eB j) = None"
  shows "encoded_isa (isa_decode (isa_inherit A B)) (case_sum eA eB) (case_sum wA wB)"
proof
  note iff = encoded_isa.decode_iff [OF assms(1)] encoded_isa.decode_iff [OF assms(2)]
  show "isa_decode (isa_inherit A B) w = Some i \<longleftrightarrow>
      (case i of Inl a \<Rightarrow> eA a | Inr b \<Rightarrow> eB b) = w \<and> (case i of Inl a \<Rightarrow> wA a | Inr b \<Rightarrow> wB b)" for w i
  proof (cases i)
    case (Inl a)
    have "isa_decode (isa_inherit A B) w = Some (Inl a) \<longleftrightarrow> isa_decode A w = Some a"
      by (auto simp: isa_inherit_def split: option.split)
    with Inl iff(1) show ?thesis by simp
  next
    case (Inr b)
    have "isa_decode (isa_inherit A B) w = Some (Inr b) \<longleftrightarrow>
        isa_decode A w = None \<and> isa_decode B w = Some b"
      by (auto simp: isa_inherit_def split: option.split)
    with Inr iff(2) assms(3) show ?thesis by auto
  qed
qed

lemma inherit_rejects:
  "isa_decode (isa_inherit A B) w = None \<longleftrightarrow> isa_decode A w = None \<and> isa_decode B w = None"
  by (auto simp: isa_inherit_def split: option.split)

lemma instruction_set_inherit:
  assumes "instruction_set A" and "instruction_set B" and "isa_reg A = isa_reg B"
  shows "instruction_set (isa_inherit A B)"
proof
  note A = assms(1) [unfolded instruction_set_def] and B = assms(2) [unfolded instruction_set_def]
  show "keeps (isa_reg (isa_inherit A B)) s (isa_execute (isa_inherit A B) i v1 v2 s)"
    if "machine_wf (isa_reg (isa_inherit A B)) s" for s i v1 v2
    using that A B assms(3) by (cases i) (simp_all add: isa_inherit_def)
  show "isa_alignment (isa_inherit A B) \<in> {1, 2, 4}"
    using A B by (auto simp: isa_inherit_def min_def)
  show "unat (isa_alignment (isa_inherit A B)) dvd unat (isa_size (isa_inherit A B) i)" for i
  proof -
    have "unat (min (isa_alignment A) (isa_alignment B)) dvd unat (isa_alignment A)"
      "unat (min (isa_alignment A) (isa_alignment B)) dvd unat (isa_alignment B)"
      using A B by (auto simp: min_def word_le_nat_alt)
    then show ?thesis
      using A B by (cases i) (auto simp: isa_inherit_def intro: dvd_trans)
  qed
qed (use assms(1) in \<open>simp add: instruction_set_def\<close>)

lemma zb_keeps:
  assumes "machine_wf R s"
  shows "keeps R s (zba_execute a x y s)" "keeps R s (zbb_execute b x y s)"
    "keeps R s (zbs_execute c x y s)" "keeps R s (zbc_execute d x y s)"
proof -
  show "keeps R s (zba_execute a x y s)" using assms by (cases a) (simp_all add: keeps_simps Let_def)
  show "keeps R s (zbb_execute b x y s)" using assms by (cases b) (simp_all add: keeps_simps Let_def)
  show "keeps R s (zbs_execute c x y s)" using assms by (cases c) (simp_all add: keeps_simps Let_def)
  show "keeps R s (zbc_execute d x y s)" using assms by (cases d) (simp_all add: keeps_simps)
qed

lemma zicond_keeps: "machine_wf R s \<Longrightarrow> keeps R s (zicond_execute i x y s)"
  by (cases i) (simp_all add: keeps_simps)

lemma zb_instruction_sets:
  "instruction_set (zba_isa R)" "instruction_set (zbb_isa R)" "instruction_set (zbs_isa R)"
  "instruction_set (zbc_isa R)" "instruction_set (zicond_isa R :: (u64, _, _, _) isa)"
  by (unfold_locales; auto simp: zba_isa_def zbb_isa_def zbs_isa_def zbc_isa_def zicond_isa_def
      zb_keeps zicond_keeps)+

lemma rv64b_instruction_set: "instruction_set (rv64b_isa R)"
  unfolding rv64b_isa_def
  by (intro instruction_set_inherit zb_instruction_sets)
    (simp_all add: isa_inherit_def zba_isa_def zbb_isa_def zbs_isa_def)

section \<open>No word has two readings\<close>

lemma funct6_of_funct7: "funct6 w = ucast (drop_bit 1 (funct7 w))"
  by (rule bit_word_eqI) (auto simp: bit_fields bit_ucast_iff bit_drop_bit_eq add.commute)

lemma funct7_neq: "funct6 w \<noteq> ucast (drop_bit 1 c) \<Longrightarrow> (funct7 w = c) = False"
  by (auto simp: funct6_of_funct7)

lemma funct6_enc_r:
  assumes "op < 128" "f3 < 8" "f7 < 128" "rd < 32" "rs1 < 32" "rs2 < 32"
  shows "funct6 (enc_r op f3 f7 rd rs1 rs2) = ucast (drop_bit 1 f7)"
  by (simp add: funct6_of_funct7 enc_r_fields [OF assms])

lemmas reject_simps = rv64_try_decode_def rv64_decode_defs rv64m_try_decode_def
  rv64m_decode_op_def rv64m_decode_op_32_def zb_decode_defs zb_fields format_fields funct7_neq
  funct6_enc_r

context basic_register
begin

lemma zba_rejected:
  assumes "zba_wf i"
  shows "rv64_try_decode R (zba_encode R i) = None" "rv64m_try_decode R (zba_encode R i) = None"
  using assms
  by (cases i; simp add: reject_simps offset_less_32 from_bits_offset)+

lemma zbb_rejected:
  assumes "zbb_wf i"
  shows "rv64_try_decode R (zbb_encode R i) = None" "rv64m_try_decode R (zbb_encode R i) = None"
    "zba_try_decode R (zbb_encode R i) = None"
  using assms
  by (cases i; simp add: reject_simps offset_less_32 from_bits_offset)+

lemma zbs_rejected:
  assumes "zbs_wf i"
  shows "rv64_try_decode R (zbs_encode R i) = None" "rv64m_try_decode R (zbs_encode R i) = None"
    "zba_try_decode R (zbs_encode R i) = None" "zbb_try_decode R (zbs_encode R i) = None"
  using assms
  by (cases i; simp add: reject_simps offset_less_32 from_bits_offset)+

lemma zbc_rejected:
  "rv64_try_decode R (zbc_encode R i) = None" "rv64m_try_decode R (zbc_encode R i) = None"
  "zba_try_decode R (zbc_encode R i) = None" "zbb_try_decode R (zbc_encode R i) = None"
  "zbs_try_decode R (zbc_encode R i) = None"
  by (cases i; simp add: reject_simps offset_less_32 from_bits_offset)+

lemma zicond_rejected:
  "rv64_try_decode R (zicond_encode R i) = None" "rv64m_try_decode R (zicond_encode R i) = None"
  "zba_try_decode R (zicond_encode R i) = None" "zbb_try_decode R (zicond_encode R i) = None"
  "zbs_try_decode R (zicond_encode R i) = None" "zbc_try_decode R (zicond_encode R i) = None"
  by (cases i; simp add: reject_simps offset_less_32 from_bits_offset)+

lemma rv64m_rejected: "rv64_try_decode R (rv64m_encode R i) = None"
  by (cases i; simp add: reject_simps offset_less_32 from_bits_offset)

end

section \<open>Bit-level semantics\<close>

definition word_of_bits :: "(nat \<Rightarrow> bool) \<Rightarrow> u64" where
  "word_of_bits P = horner_sum of_bool 2 (map P [0..<64])"

lemma bit_word_of_bits: "bit (word_of_bits P) n \<longleftrightarrow> n < 64 \<and> P n"
  by (auto simp: word_of_bits_def bit_horner_sum_bit_word_iff)

lemma word_of_bits_eqI: "(\<And>n. n < 64 \<Longrightarrow> bit x n \<longleftrightarrow> P n) \<Longrightarrow> x = word_of_bits P"
  by (rule bit_word_eqI) (simp add: bit_word_of_bits)

text \<open>Bit \<open>n\<close> of the product of two polynomials over the field of two elements.\<close>

definition clmul_bit :: "u64 \<Rightarrow> u64 \<Rightarrow> nat \<Rightarrow> bool" where
  "clmul_bit x y n \<longleftrightarrow> odd (length (filter (\<lambda>k. bit y k \<and> k \<le> n \<and> bit x (n - k)) [0..<64]))"

definition zba_spec :: "'r Rv64ZbaInstruction \<Rightarrow> u64 \<Rightarrow> u64 \<Rightarrow> 'r \<times> u64" where
  "zba_spec i x y =
    (let ux = uint x; uxw = uint x mod 2 ^ 32; uy = uint y
     in map_prod id word_of_int (case i of
          AddUw rd _ _ \<Rightarrow> (rd, uxw + uy)
        | Sh1add rd _ _ \<Rightarrow> (rd, 2 * ux + uy)
        | Sh1addUw rd _ _ \<Rightarrow> (rd, 2 * uxw + uy)
        | Sh2add rd _ _ \<Rightarrow> (rd, 4 * ux + uy)
        | Sh2addUw rd _ _ \<Rightarrow> (rd, 4 * uxw + uy)
        | Sh3add rd _ _ \<Rightarrow> (rd, 8 * ux + uy)
        | Sh3addUw rd _ _ \<Rightarrow> (rd, 8 * uxw + uy)
        | SlliUw rd _ shamt \<Rightarrow> (rd, 2 ^ (unat shamt mod 64) * uxw)))"

definition zbb_spec :: "'r Rv64ZbbInstruction \<Rightarrow> u64 \<Rightarrow> u64 \<Rightarrow> 'r \<times> u64" where
  "zbb_spec i x y =
    (let ux = unat x; uxw = unat x mod 2 ^ 32; s = unat y mod 64; sw = unat y mod 32;
         clz = (\<lambda>w u. length (filter (\<lambda>k. u < 2 ^ k) [0..<w]));
         ctz = (\<lambda>w u. length (filter (\<lambda>k. 2 ^ k dvd u) [1..<Suc w]));
         cpop = (\<lambda>w u. \<Sum>k<w. u div 2 ^ k mod 2);
         rol = (\<lambda>s n. bit x ((n + 64 - s) mod 64)); ror = (\<lambda>s n. bit x ((n + s) mod 64));
         rolw = (\<lambda>s n. bit x ((min n 31 + 32 - s) mod 32));
         rorw = (\<lambda>s n. bit x ((min n 31 + s) mod 32))
     in case i of
          Andn rd _ _ \<Rightarrow> (rd, word_of_bits (\<lambda>n. bit x n \<and> \<not> bit y n))
        | Orn rd _ _ \<Rightarrow> (rd, word_of_bits (\<lambda>n. bit x n \<or> \<not> bit y n))
        | Xnor rd _ _ \<Rightarrow> (rd, word_of_bits (\<lambda>n. bit x n \<longleftrightarrow> bit y n))
        | Clz rd _ \<Rightarrow> (rd, of_nat (clz 64 ux))
        | Clzw rd _ \<Rightarrow> (rd, of_nat (clz 32 uxw))
        | Ctz rd _ \<Rightarrow> (rd, of_nat (ctz 64 ux))
        | Ctzw rd _ \<Rightarrow> (rd, of_nat (ctz 32 uxw))
        | Cpop rd _ \<Rightarrow> (rd, of_nat (cpop 64 ux))
        | Cpopw rd _ \<Rightarrow> (rd, of_nat (cpop 32 uxw))
        | Max_insn rd _ _ \<Rightarrow> (rd, word_of_int (max (sint x) (sint y)))
        | Maxu rd _ _ \<Rightarrow> (rd, word_of_int (max (uint x) (uint y)))
        | Min_insn rd _ _ \<Rightarrow> (rd, word_of_int (min (sint x) (sint y)))
        | Minu rd _ _ \<Rightarrow> (rd, word_of_int (min (uint x) (uint y)))
        | Sextb rd _ \<Rightarrow> (rd, word_of_bits (\<lambda>n. bit x (min n 7)))
        | Sexth rd _ \<Rightarrow> (rd, word_of_bits (\<lambda>n. bit x (min n 15)))
        | Zexth rd _ \<Rightarrow> (rd, word_of_bits (\<lambda>n. n < 16 \<and> bit x n))
        | Rol rd _ _ \<Rightarrow> (rd, word_of_bits (rol s))
        | Rolw rd _ _ \<Rightarrow> (rd, word_of_bits (rolw sw))
        | Ror rd _ _ \<Rightarrow> (rd, word_of_bits (ror s))
        | Rori rd _ shamt \<Rightarrow> (rd, word_of_bits (ror (unat shamt mod 64)))
        | Roriw rd _ shamt \<Rightarrow> (rd, word_of_bits (rorw (unat shamt mod 32)))
        | Rorw rd _ _ \<Rightarrow> (rd, word_of_bits (rorw sw))
        | Orcb rd _ \<Rightarrow> (rd, word_of_bits (\<lambda>n. list_ex (\<lambda>k. bit x (8 * (n div 8) + k)) [0..<8]))
        | Rev8 rd _ \<Rightarrow> (rd, word_of_bits (\<lambda>n. bit x (8 * (7 - n div 8) + n mod 8))))"

definition zbs_spec :: "'r Rv64ZbsInstruction \<Rightarrow> u64 \<Rightarrow> u64 \<Rightarrow> 'r \<times> u64" where
  "zbs_spec i x y =
    (let s = unat y mod 64
     in case i of
          Bset rd _ _ \<Rightarrow> (rd, word_of_bits (\<lambda>n. bit x n \<or> n = s))
        | Bseti rd _ shamt \<Rightarrow> (rd, word_of_bits (\<lambda>n. bit x n \<or> n = unat shamt mod 64))
        | Bclr rd _ _ \<Rightarrow> (rd, word_of_bits (\<lambda>n. bit x n \<and> n \<noteq> s))
        | Bclri rd _ shamt \<Rightarrow> (rd, word_of_bits (\<lambda>n. bit x n \<and> n \<noteq> unat shamt mod 64))
        | Binv rd _ _ \<Rightarrow> (rd, word_of_bits (\<lambda>n. bit x n \<noteq> (n = s)))
        | Binvi rd _ shamt \<Rightarrow> (rd, word_of_bits (\<lambda>n. bit x n \<noteq> (n = unat shamt mod 64)))
        | Bext rd _ _ \<Rightarrow> (rd, of_bool (bit x s))
        | Bexti rd _ shamt \<Rightarrow> (rd, of_bool (bit x (unat shamt mod 64))))"

definition zbc_spec :: "'r Rv64ZbcInstruction \<Rightarrow> u64 \<Rightarrow> u64 \<Rightarrow> 'r \<times> u64" where
  "zbc_spec i x y =
    (case i of
       Clmul rd _ _ \<Rightarrow> (rd, word_of_bits (clmul_bit x y))
     | Clmulh rd _ _ \<Rightarrow> (rd, word_of_bits (\<lambda>n. clmul_bit x y (64 + n)))
     | Clmulr rd _ _ \<Rightarrow> (rd, word_of_bits (\<lambda>n. clmul_bit x y (63 + n))))"

definition zicond_spec :: "'r ZicondInstruction \<Rightarrow> 'a::len word \<Rightarrow> 'a word \<Rightarrow> 'r \<times> 'a word" where
  "zicond_spec i x y =
    (case i of
       CzeroEqz rd _ _ \<Rightarrow> (rd, of_bool (y \<noteq> 0) * x)
     | CzeroNez rd _ _ \<Rightarrow> (rd, of_bool (y = 0) * x))"

text \<open>The second source register selects between the first and zero.\<close>

lemma zicond_correct_lemma:
  "zicond_execute i x y s = (case zicond_spec i x y of (rd, v) \<Rightarrow> cont rd v s)"
  by (cases i) (simp_all add: zicond_spec_def)

subsection \<open>Zba\<close>

lemma ucast_ucast_uw: "(ucast (ucast (x :: u64) :: u32) :: u64) = word_of_int (uint x mod 2 ^ 32)"
  unfolding take_bit_eq_mod [symmetric]
  by (rule bit_word_eqI)
    (simp add: bit_ucast_iff bit_word_of_int_iff bit_take_bit_iff bit_uint_iff)

lemma shl_word_of_int: "k < 64 \<Longrightarrow> shl (word_of_int a :: u64) k = word_of_int (2 ^ k * a)"
  by (simp add: shl_def push_bit_eq_mult mult.commute)

lemma unat_and_mask:
  "unat ((y :: 'a::len word) AND 0x3f) = unat y mod 64" "unat (y AND 0x1f) = unat y mod 32"
  unfolding mask_simps unsigned_take_bit_eq by (simp_all add: take_bit_eq_mod)

lemma zba_correct_lemma:
  "zba_execute i x y s = (case zba_spec i x y of (rd, v) \<Rightarrow> cont rd v s)"
  by (cases i) (simp_all add: zba_spec_def Let_def ucast_ucast_uw shl_word_of_int unat_and_mask
      shl_def push_bit_eq_mult mult.commute)

subsection \<open>Zbs\<close>

lemma zbs_values:
  fixes x :: u64
  shows "x OR shl 1 k = word_of_bits (\<lambda>n. bit x n \<or> n = k mod 64)"
    "x AND NOT (shl 1 k) = word_of_bits (\<lambda>n. bit x n \<and> n \<noteq> k mod 64)"
    "x XOR shl 1 k = word_of_bits (\<lambda>n. bit x n \<noteq> (n = k mod 64))"
    "shr x k AND 1 = of_bool (bit x (k mod 64))"
  by (rule word_of_bits_eqI; auto simp: shl_def bit_simps)+
    (simp add: shr_def and_one_eq mod_2_eq_odd bit_iff_odd_drop_bit)

lemma zbs_correct_lemma:
  "zbs_execute i x y s = (case zbs_spec i x y of (rd, v) \<Rightarrow> cont rd v s)"
  by (cases i) (simp_all only: zbs_execute.simps zbs_spec_def Let_def unat_and_mask zbs_values
      mod_mod_trivial Rv64ZbsInstruction.case prod.case)

subsection \<open>Zbc\<close>

lemma bit_clmul_loop:
  "j + m \<le> 64 \<Longrightarrow> bit (clmul_loop [j..<j + m] a (drop_bit j b) r) n \<longleftrightarrow>
    n < 128 \<and> (bit r n \<noteq>
      odd (length (filter (\<lambda>k. bit b k \<and> k \<le> n \<and> bit a (n - k)) [j..<j + m])))"
proof (induction m arbitrary: j r)
  case 0
  then show ?case by (auto dest: bit_imp_le_length)
next
  case (Suc m)
  define xs where "xs = [Suc j..<Suc j + m]"
  have upt: "[j..<j + Suc m] = j # xs" by (simp add: upt_conv_Cons xs_def)
  have b: "(ucast (drop_bit j b AND 1) :: u128) = of_bool (bit b j)"
    by (simp add: and_one_eq mod_2_eq_odd bit_iff_odd_drop_bit)
  have next_b: "shr (drop_bit j b) 1 = drop_bit (Suc j) b" by (simp add: shr_def)
  have j: "j mod 128 = j" using Suc.prems by simp
  have m: "bit (shl a j AND (0 - of_bool (bit b j))) n \<longleftrightarrow> n < 128 \<and> bit b j \<and> j \<le> n \<and> bit a (n - j)"
    by (auto simp: shl_def j bit_simps dest: bit_imp_le_length)
  let ?r = "r XOR (shl a j AND (0 - of_bool (bit b j)))"
  have "bit (clmul_loop xs a (drop_bit (Suc j) b) ?r) n \<longleftrightarrow>
      n < 128 \<and> (bit ?r n \<noteq> odd (length (filter (\<lambda>k. bit b k \<and> k \<le> n \<and> bit a (n - k)) xs)))"
    unfolding xs_def by (rule Suc.IH) (use Suc.prems in simp)
  then show ?case
    by (simp only: upt clmul_loop.simps Let_def b next_b bit_xor_iff m) auto
qed

lemma bit_clmul_internal: "bit (clmul_internal a b) n \<longleftrightarrow> n < 128 \<and> clmul_bit a b n"
proof -
  have "bit (ucast a :: u128) = bit a"
    by (rule ext) (auto simp: bit_ucast_iff dest: bit_imp_le_length)
  then show ?thesis
    using bit_clmul_loop [of 0 64 "ucast a" b 0 n] by (simp add: clmul_internal_def clmul_bit_def)
qed

lemma zbc_correct_lemma:
  "zbc_execute i x y s = (case zbc_spec i x y of (rd, v) \<Rightarrow> cont rd v s)"
proof -
  have "clmul x y = word_of_bits (clmul_bit x y)"
    "clmulh x y = word_of_bits (\<lambda>n. clmul_bit x y (64 + n))"
    "clmulr x y = word_of_bits (\<lambda>n. clmul_bit x y (63 + n))"
    by (rule word_of_bits_eqI; simp add: clmul_def clmulh_def clmulr_def bit_ucast_iff shr_def
        bit_drop_bit_eq bit_clmul_internal)+
  then show ?thesis by (cases i) (simp_all add: zbc_spec_def)
qed

subsection \<open>Zbb\<close>

lemma leading_zeros_count:
  "n < 2 ^ w \<Longrightarrow> length (takeWhile Not (rev (map (bit n) [0..<w]))) =
    length (filter (\<lambda>k. n < 2 ^ k) [0..<w])" for n :: nat
proof (induction w)
  case (Suc w)
  show ?case
  proof (cases "n < 2 ^ w")
    case True
    then have "\<not> bit n w" by (simp add: bit_iff_odd)
    with True Suc.IH show ?thesis by simp
  next
    case False
    then have "n div 2 ^ w = 1" using Suc.prems by (intro div_nat_eqI) simp_all
    then have "bit n w" by (simp add: bit_iff_odd)
    moreover have "\<not> n < 2 ^ k" if "k < Suc w" for k
    proof -
      have "(2 :: nat) ^ k \<le> 2 ^ w" using that by (intro power_increasing) auto
      with False show ?thesis by linarith
    qed
    ultimately show ?thesis by (simp add: filter_empty_conv)
  qed
qed simp

lemma trailing_zeros_count:
  "length (takeWhile Not (map (bit n) [0..<w])) = length (filter (\<lambda>k. 2 ^ k dvd n) [1..<Suc w])"
  for n :: nat
proof (induction w arbitrary: n)
  case (Suc w)
  have upt: "[1..<Suc (Suc w)] = 1 # map Suc [1..<Suc w]" by (simp add: map_Suc_upt upt_conv_Cons)
  have "2 ^ Suc k dvd n \<longleftrightarrow> even n \<and> 2 ^ k dvd n div 2" for k
    by (auto elim!: evenE dest: dvd_mult_left)
  then show ?case using Suc [of "n div 2"]
    by (simp only: bits_Cons upt) (auto simp: filter_map o_def)
qed simp

lemma count_ones_sum:
  "length (filter (\<lambda>b. b) (map (bit n) [0..<w])) = (\<Sum>k<w. n div 2 ^ k mod 2)" for n :: nat
  by (induction w) (auto simp: bit_iff_odd mod_2_eq_odd)

lemma count_values:
  fixes x :: "'a::len word"
  shows "leading_zeros x = length (filter (\<lambda>k. unat x < 2 ^ k) [0..<LENGTH('a)])"
    "trailing_zeros x = length (filter (\<lambda>k. 2 ^ k dvd unat x) [1..<Suc LENGTH('a)])"
    "count_ones x = (\<Sum>k<LENGTH('a). unat x div 2 ^ k mod 2)"
  unfolding leading_zeros_def trailing_zeros_def count_ones_def word_bits_unat
  by (rule leading_zeros_count trailing_zeros_count count_ones_sum unsigned_less)+

lemma unat_ucast_32: "unat (ucast (x :: u64) :: u32) = unat x mod 2 ^ 32"
  by (simp add: unsigned_ucast_eq take_bit_eq_mod)

lemma rotate_values:
  fixes x :: u64
  shows "rotate_left x k = word_of_bits (\<lambda>n. bit x ((n + 64 - unat k mod 64) mod 64))"
    "rotate_right x k = word_of_bits (\<lambda>n. bit x ((n + unat k mod 64) mod 64))"
    "scast (rotate_left (ucast x :: u32) k) =
      word_of_bits (\<lambda>n. bit x ((min n 31 + 32 - unat k mod 32) mod 32))"
    "scast (rotate_right (ucast x :: u32) k) =
      word_of_bits (\<lambda>n. bit x ((min n 31 + unat k mod 32) mod 32))"
  by (rule word_of_bits_eqI; simp add: rotate_left_def rotate_right_def bit_simps mod_add_right_eq
      min.commute min_less_iff_disj)+

lemma to_le_bytes_64: "to_le_bytes (x :: u64) = map (\<lambda>i. ucast (drop_bit (8 * i) x)) [0..<8]"
  by (simp add: to_le_bytes_def)

lemma swap_bytes_value: "swap_bytes x = word_of_bits (\<lambda>n. bit x (8 * (7 - n div 8) + n mod 8))"
proof (rule word_of_bits_eqI)
  fix n :: nat
  assume n: "n < 64"
  then have "n div 8 < 8" by simp
  moreover have "[0..<8] ! (7 - n div 8) = 7 - n div 8" by (subst nth_upt) auto
  ultimately show "bit (swap_bytes x) n \<longleftrightarrow> bit x (8 * (7 - n div 8) + n mod 8)"
    using n by (simp add: swap_bytes_def bit_from_le_bytes to_le_bytes_64 rev_nth bit_ucast_iff
        bit_drop_bit_eq)
qed

lemma orc_b_value:
  "orc_b x = word_of_bits (\<lambda>n. list_ex (\<lambda>k. bit x (8 * (n div 8) + k)) [0..<8])"
proof (rule word_of_bits_eqI)
  fix n :: nat
  assume n: "n < 64"
  have nz: "b \<noteq> 0 \<longleftrightarrow> list_ex (bit b) [0..<8]" for b :: u8
    by (auto simp: word8_eq_iff list_ex_iff list_all_iff)
  have ff: "(0xFF :: u8) = - 1" by simp
  have "bit (orc_b x) n \<longleftrightarrow> (ucast (drop_bit (8 * (n div 8)) x) :: u8) \<noteq> 0"
    using n less_mult_imp_div_less [of n 8 8] by (simp add: orc_b_def bit_from_le_bytes to_le_bytes_64 ff bit_minus_1_iff)
  also have "\<dots> \<longleftrightarrow> list_ex (\<lambda>k. bit x (8 * (n div 8) + k)) [0..<8]"
    by (auto simp: nz list_ex_iff bit_ucast_iff bit_drop_bit_eq)
  finally show "bit (orc_b x) n \<longleftrightarrow> list_ex (\<lambda>k. bit x (8 * (n div 8) + k)) [0..<8]" .
qed

lemma extension_values:
  fixes x :: u64
  shows "scast (ucast x :: i8) = word_of_bits (\<lambda>n. bit x (min n 7))"
    "scast (ucast x :: i16) = word_of_bits (\<lambda>n. bit x (min n 15))"
    "ucast (ucast x :: u16) = word_of_bits (\<lambda>n. n < 16 \<and> bit x n)"
  by (rule word_of_bits_eqI; simp add: bit_simps min.commute min_less_iff_disj)+

lemma logic_values:
  fixes x y :: u64
  shows "x AND NOT y = word_of_bits (\<lambda>n. bit x n \<and> \<not> bit y n)"
    "x OR NOT y = word_of_bits (\<lambda>n. bit x n \<or> \<not> bit y n)"
    "NOT (x XOR y) = word_of_bits (\<lambda>n. bit x n \<longleftrightarrow> bit y n)"
  by (rule word_of_bits_eqI; auto simp: bit_simps)+

lemma min_max_values:
  fixes x y :: u64
  shows "(if x \<le>s y then y else x) = word_of_int (max (sint x) (sint y))"
    "(if x \<le>s y then x else y) = word_of_int (min (sint x) (sint y))"
    "max x y = word_of_int (max (uint x) (uint y))" "min x y = word_of_int (min (uint x) (uint y))"
  by (simp_all add: word_sle_eq max_def min_def word_le_def)

lemma unat_ucast_and_mask:
  "unat (ucast (y AND 0x3f) :: u32) mod 64 = unat y mod 64"
  "unat (ucast (y AND 0x1f) :: u32) mod 32 = unat y mod 32" for y :: "'a::len word"
  by (simp_all only: unsigned_ucast_eq unat_and_mask take_bit_eq_mod)
    (simp_all add: mod_mod_cancel)

lemma len_numerals: "LENGTH(64) = 64" "LENGTH(32) = 32"
  by simp_all

lemma zbb_correct_lemma:
  "zbb_execute i x y s = (case zbb_spec i x y of (rd, v) \<Rightarrow> cont rd v s)"
  by (cases i)
    (simp_all only: zbb_execute.simps zbb_spec_def Let_def count_values unat_ucast_32 [of x] len_numerals
      rotate_values unat_ucast_and_mask swap_bytes_value orc_b_value extension_values logic_values
      min_max_values Rv64ZbbInstruction.case prod.case)

section \<open>The composed instruction set\<close>

definition rv64b_encode ::
  "'r register \<Rightarrow> 'r Rv64ZbaInstruction + 'r Rv64ZbbInstruction + 'r Rv64ZbsInstruction \<Rightarrow> u32" where
  "rv64b_encode R = case_sum (zba_encode R) (case_sum (zbb_encode R) (zbs_encode R))"

definition rv64b_wf ::
  "'r Rv64ZbaInstruction + 'r Rv64ZbbInstruction + 'r Rv64ZbsInstruction \<Rightarrow> bool" where
  "rv64b_wf = case_sum zba_wf (case_sum zbb_wf zbs_wf)"

definition rv64b_spec ::
  "'r Rv64ZbaInstruction + 'r Rv64ZbbInstruction + 'r Rv64ZbsInstruction \<Rightarrow> u64 \<Rightarrow> u64 \<Rightarrow> 'r \<times> u64" where
  "rv64b_spec = case_sum zba_spec (case_sum zbb_spec zbs_spec)"

text \<open>
  The 32-bit instructions that \<open>ContractInstruction\<close> of the contract file format inherits, in its
  order: the base set, M, B, Zbc and Zicond (Zkn, between the last two, is left out, as are the
  16-bit instructions before the base set).
\<close>

type_synonym 'r rv64_word_insn =
  "'r Rv64Instruction + 'r Rv64MInstruction +
   ('r Rv64ZbaInstruction + 'r Rv64ZbbInstruction + 'r Rv64ZbsInstruction) +
   'r Rv64ZbcInstruction + 'r ZicondInstruction"

definition rv64_word_isa ::
  "'r register \<Rightarrow> (u64, 'h) sys_handler \<Rightarrow> (u64, 'r rv64_word_insn, 'r, 'h) isa" where
  "rv64_word_isa R H =
    isa_inherit (rv64_isa R H) (isa_inherit (rv64m_isa R) (isa_inherit (rv64b_isa R)
      (isa_inherit (zbc_isa R) (zicond_isa R))))"

definition rv64_word_encode :: "'r register \<Rightarrow> 'r rv64_word_insn \<Rightarrow> u32" where
  "rv64_word_encode R = case_sum (rv64_encode R) (case_sum (rv64m_encode R)
     (case_sum (rv64b_encode R) (case_sum (zbc_encode R) (zicond_encode R))))"

definition rv64_word_wf :: "'r rv64_word_insn \<Rightarrow> bool" where
  "rv64_word_wf = case_sum rv64_wf (case_sum (\<lambda>_. True) (case_sum rv64b_wf
     (case_sum (\<lambda>_. True) (\<lambda>_. True))))"

lemmas isa_decodes = rv64_isa_def rv64m_isa_def zba_isa_def zbb_isa_def zbs_isa_def zbc_isa_def
  zicond_isa_def

context basic_register
begin

lemma encoded_parts:
  "encoded_isa (isa_decode (rv64_isa R H)) (rv64_encode R) rv64_wf"
  "encoded_isa (isa_decode (rv64m_isa R)) (rv64m_encode R) (\<lambda>_. True)"
  "encoded_isa (isa_decode (zba_isa R)) (zba_encode R) zba_wf"
  "encoded_isa (isa_decode (zbb_isa R)) (zbb_encode R) zbb_wf"
  "encoded_isa (isa_decode (zbs_isa R)) (zbs_encode R) zbs_wf"
  "encoded_isa (isa_decode (zbc_isa R)) (zbc_encode R) (\<lambda>_. True)"
  "encoded_isa (isa_decode (zicond_isa R)) (zicond_encode R) (\<lambda>_. True)"
  by (unfold_locales; auto simp: isa_decodes rv64_decode_iff_encode rv64m_decode_iff_encode
      zba_decode_iff_encode zbb_decode_iff_encode zbs_decode_iff_encode zbc_decode_iff_encode
      zicond_decode_iff_encode)+

lemma rv64b_rejects:
  "isa_decode (rv64b_isa R) w = None \<longleftrightarrow>
    zba_try_decode R w = None \<and> zbb_try_decode R w = None \<and> zbs_try_decode R w = None"
  by (simp add: rv64b_isa_def inherit_rejects isa_decodes)

lemma rv64b_encoded: "encoded_isa (isa_decode (rv64b_isa R)) (rv64b_encode R) rv64b_wf"
  unfolding rv64b_isa_def rv64b_encode_def rv64b_wf_def
  by (intro encoded_isa_inherit encoded_parts)
    (auto simp: isa_decodes zbb_rejected zbs_rejected split: sum.splits)

lemma rv64_word_encoded:
  "encoded_isa (isa_decode (rv64_word_isa R H)) (rv64_word_encode R) rv64_word_wf"
  unfolding rv64_word_isa_def rv64_word_encode_def rv64_word_wf_def
  by (intro encoded_isa_inherit encoded_parts rv64b_encoded)
    (auto simp: rv64b_rejects isa_decodes rv64b_encode_def rv64b_wf_def zba_rejected zbb_rejected
      zbs_rejected zbc_rejected zicond_rejected rv64m_rejected split: sum.splits)

end

lemma rv64_word_instruction_set:
  "system_handler R H \<Longrightarrow> instruction_set (rv64_word_isa R H)"
  unfolding rv64_word_isa_def
  by (intro instruction_set_inherit rv64_instruction_set rv64m_instruction_set
      rv64b_instruction_set zb_instruction_sets)
    (simp_all add: isa_inherit_def isa_decodes rv64b_isa_def)

interpretation reg_word: instruction_set
    "rv64_word_isa Reg_register (illegal_ecall_handler :: (u64, unit) sys_handler)"
  by (rule rv64_word_instruction_set [OF illegal_ecall_handler_laws])

interpretation reg_word_enc: encoded_isa
    "isa_decode (rv64_word_isa Reg_register (illegal_ecall_handler :: (u64, unit) sys_handler))"
    "rv64_word_encode Reg_register" rv64_word_wf
  by (rule reg.rv64_word_encoded)

section \<open>Properties\<close>

text \<open>
  C9. Every instruction of the B extension (address generation, logic with negation, leading
  and trailing zeros and population counts, minima and maxima, extensions, rotations, byte reversal
  and OR-combine, single bits), of Zbc (carry-less products) and of Zicond returns, for all
  operands, the value the ISA manual gives bit by bit or as an integer, and changes nothing else
  of the machine.
\<close>

theorem rv64b_correct:
  "isa_execute (rv64b_isa R) i x y s = (Inr (Continue (rv64b_spec i x y)), s) \<and>
   isa_execute (zbc_isa R) j x y s = (Inr (Continue (zbc_spec j x y)), s) \<and>
   isa_execute (zicond_isa R) k x y s = (Inr (Continue (zicond_spec k x y)), s)"
  by (auto simp: rv64b_isa_def rv64b_spec_def isa_inherit_def isa_decodes zba_correct_lemma
      zbb_correct_lemma zbs_correct_lemma zbc_correct_lemma zicond_correct_lemma cont_def
      split: sum.split prod.split)

text \<open>
  C10. The composed decoder of the base set and the M, B, Zbc and Zicond extensions, which
  tries seven decoders one after the other, returns an instruction exactly for the words that encode
  it: every instruction of every extension is recognised whatever is tried before it, so no word
  has two readings, and no other word is accepted.
\<close>

theorem rv64_word_decode_correct:
  assumes "basic_register R"
  shows "isa_decode (rv64_word_isa R H) w = Some i \<longleftrightarrow>
    rv64_word_encode R i = w \<and> rv64_word_wf i"
  by (rule encoded_isa.decode_iff [OF basic_register.rv64_word_encoded [OF assms]])

theorem rv64_word_decode_correct_witness:
  "isa_decode (rv64_word_isa Reg_register (illegal_ecall_handler :: (u64, unit) sys_handler))
     0x2875d513 = Some (Inr (Inr (Inl (Inr (Inl (Orcb Reg.A0 Reg.A1))))))"
proof -
  let ?i = "Inr (Inr (Inl (Inr (Inl (Orcb Reg.A0 Reg.A1))))) :: Reg rv64_word_insn"
  have "rv64_word_encode Reg_register ?i = 0x2875d513"
    by (simp add: rv64_word_encode_def rv64b_encode_def) code_simp
  moreover have "rv64_word_wf ?i" by (simp add: rv64_word_wf_def rv64b_wf_def)
  ultimately show ?thesis
    using rv64_word_decode_correct [OF reg.basic_register_axioms] by blast
qed

end
