(* ===== verification/Address.thy ===== *)
theory Address
  imports Prelude
begin

text \<open>
  Shard indices (\<^verbatim>\<open>crates/shared/ab-core-primitives/src/shard.rs\<close>), contract addresses
  (\<^verbatim>\<open>crates/shared/ab-core-primitives/src/address.rs\<close>) and the system contract that allocates
  addresses on a shard (\<^verbatim>\<open>crates/contracts/system/ab-system-contract-address-allocator\<close>).

  An address is a pair of \<open>u64\<close> with the memory layout of a \<open>u128\<close>. The source compares
  addresses with three different equalities: the derived one on values, and two hand-written
  ones between an address and a reference to one, which look at the first half only.
\<close>

section \<open>Shards\<close>

type_synonym ShardIndex = u32

datatype ShardKind = BeaconChain | IntermediateShard | LeafShard | PhantomShard
datatype RealShardKind = RealBeaconChain | RealIntermediateShard | RealLeafShard

primrec shard_kind_to_real :: "ShardKind \<Rightarrow> RealShardKind option" where
  "shard_kind_to_real BeaconChain = Some RealBeaconChain"
| "shard_kind_to_real IntermediateShard = Some RealIntermediateShard"
| "shard_kind_to_real LeafShard = Some RealLeafShard"
| "shard_kind_to_real PhantomShard = None"

primrec shard_kind_from_real :: "RealShardKind \<Rightarrow> ShardKind" where
  "shard_kind_from_real RealBeaconChain = BeaconChain"
| "shard_kind_from_real RealIntermediateShard = IntermediateShard"
| "shard_kind_from_real RealLeafShard = LeafShard"

definition INTERMEDIATE_SHARDS_START :: u32 where "INTERMEDIATE_SHARDS_START = 1"
definition INTERMEDIATE_SHARDS_END :: u32 where "INTERMEDIATE_SHARDS_END = 1023"
definition INTERMEDIATE_SHARD_MASK :: u32 where
  "INTERMEDIATE_SHARD_MASK = shr (- 1) (32 - 10)"
definition BEACON_CHAIN :: ShardIndex where "BEACON_CHAIN = 0"
definition MAX_SHARDS :: u32 where "MAX_SHARDS = 2 ^ 20"
definition MAX_SHARD_INDEX :: u32 where "MAX_SHARD_INDEX = MAX_SHARDS - 1"
definition MAX_ADDRESSES_PER_SHARD :: u128 where "MAX_ADDRESSES_PER_SHARD = 2 ^ 108"

definition shard_index_new :: "u32 \<Rightarrow> ShardIndex option" where
  "shard_index_new i = (if i > MAX_SHARD_INDEX then None else Some i)"

definition is_beacon_chain :: "ShardIndex \<Rightarrow> bool" where
  "is_beacon_chain s \<longleftrightarrow> s = BEACON_CHAIN"

definition is_intermediate_shard :: "ShardIndex \<Rightarrow> bool" where
  "is_intermediate_shard s \<longleftrightarrow> s \<ge> INTERMEDIATE_SHARDS_START \<and> s \<le> INTERMEDIATE_SHARDS_END"

definition is_leaf_shard :: "ShardIndex \<Rightarrow> bool" where
  "is_leaf_shard s \<longleftrightarrow>
    (if s \<le> INTERMEDIATE_SHARDS_END \<or> s > MAX_SHARD_INDEX then False
     else s AND INTERMEDIATE_SHARD_MASK \<noteq> 0)"

definition is_phantom_shard :: "ShardIndex \<Rightarrow> bool" where
  "is_phantom_shard s \<longleftrightarrow>
    (if s \<le> INTERMEDIATE_SHARDS_END \<or> s > MAX_SHARD_INDEX then False
     else s AND INTERMEDIATE_SHARD_MASK = 0)"

definition is_real :: "ShardIndex \<Rightarrow> bool" where
  "is_real s \<longleftrightarrow> \<not> is_phantom_shard s"

definition shard_kind :: "ShardIndex \<Rightarrow> ShardKind option" where
  "shard_kind s =
    (if s = BEACON_CHAIN then Some BeaconChain
     else if s \<ge> INTERMEDIATE_SHARDS_START \<and> s \<le> INTERMEDIATE_SHARDS_END
     then Some IntermediateShard
     else if s > MAX_SHARD_INDEX then None
     else if s AND INTERMEDIATE_SHARD_MASK = 0 then Some PhantomShard
     else Some LeafShard)"

definition is_child_of :: "ShardIndex \<Rightarrow> ShardIndex \<Rightarrow> bool" where
  "is_child_of s parent = (case shard_kind s of
     Some BeaconChain \<Rightarrow> False
   | Some IntermediateShard \<Rightarrow> is_beacon_chain parent
   | Some PhantomShard \<Rightarrow> is_beacon_chain parent
   | Some LeafShard \<Rightarrow> s AND INTERMEDIATE_SHARD_MASK = parent
   | None \<Rightarrow> False)"

definition parent_shard :: "ShardIndex \<Rightarrow> ShardIndex option" where
  "parent_shard s = do {
     kind \<leftarrow> shard_kind s;
     (case kind of
        BeaconChain \<Rightarrow> None
      | IntermediateShard \<Rightarrow> Some BEACON_CHAIN
      | PhantomShard \<Rightarrow> Some BEACON_CHAIN
      | LeafShard \<Rightarrow> Some (s AND INTERMEDIATE_SHARD_MASK))
   }"

section \<open>Addresses\<close>

datatype Address = Address u64 u64

primrec addr_0 :: "Address \<Rightarrow> u64" where "addr_0 (Address a b) = a"

text \<open>\<open>write_unaligned\<close> and \<open>read_unaligned\<close> of a \<open>u128\<close> over the two fields, little endian.\<close>

definition Address_from :: "u128 \<Rightarrow> Address" where
  "Address_from v = Address (ucast v) (ucast (drop_bit 64 v))"

primrec u128_from_Address :: "Address \<Rightarrow> u128" where
  "u128_from_Address (Address a b) = ucast a OR push_bit 64 (ucast b)"

text \<open>\<open>impl PartialEq<&Address> for Address\<close> and \<open>impl PartialEq<Address> for &Address\<close>.\<close>

definition Address_eq_ref :: "Address \<Rightarrow> Address \<Rightarrow> bool" where
  "Address_eq_ref a b \<longleftrightarrow> addr_0 a = addr_0 b"

definition ref_eq_Address :: "Address \<Rightarrow> Address \<Rightarrow> bool" where
  "ref_eq_Address a b \<longleftrightarrow> addr_0 a = addr_0 b"

definition Address_cmp_le :: "Address \<Rightarrow> Address \<Rightarrow> bool" where
  "Address_cmp_le a b \<longleftrightarrow> u128_from_Address a \<le> u128_from_Address b"

definition NULL :: Address where "NULL = Address_from 0"
definition SYSTEM_CODE :: Address where "SYSTEM_CODE = Address_from 1"
definition SYSTEM_BLOCK :: Address where "SYSTEM_BLOCK = Address_from 2"
definition SYSTEM_STATE :: Address where "SYSTEM_STATE = Address_from 3"
definition SYSTEM_NATIVE_TOKEN :: Address where "SYSTEM_NATIVE_TOKEN = Address_from 4"
definition SYSTEM_SIMPLE_WALLET_BASE :: Address where
  "SYSTEM_SIMPLE_WALLET_BASE = Address_from 10"

definition system_address_allocator :: "ShardIndex \<Rightarrow> Address" where
  "system_address_allocator s = Address_from (word_reverse (ucast s))"

section \<open>The address allocator contract\<close>

record AddressAllocator =
  next_address :: u128
  max_address :: u128

datatype alloc_error = AllocForbidden

definition AddressAllocator_new :: "ShardIndex \<Rightarrow> AddressAllocator" where
  "AddressAllocator_new shard_index =
    (let expected_self_address = u128_from_Address (system_address_allocator shard_index)
     in \<lparr>next_address = expected_self_address + 1,
         max_address = expected_self_address + (MAX_ADDRESSES_PER_SHARD - 1)\<rparr>)"

definition allocate_address ::
  "Address \<Rightarrow> AddressAllocator \<Rightarrow> (alloc_error + Address) \<times> AddressAllocator" where
  "allocate_address caller s =
    (if caller \<noteq> SYSTEM_CODE then (Inl AllocForbidden, s)
     else if next_address s \<ge> max_address s then (Inl AllocForbidden, s)
     else (Inr (Address_from (next_address s)), s\<lparr>next_address := next_address s + 1\<rparr>))"

text \<open>Any sequence of calls: the addresses handed out, in order.\<close>

primrec allocate_many :: "Address list \<Rightarrow> AddressAllocator \<Rightarrow> Address list \<times> AddressAllocator" where
  "allocate_many [] s = ([], s)"
| "allocate_many (c # cs) s =
    (let (r, s1) = allocate_address c s; (as, s2) = allocate_many cs s1
     in (case r of Inl _ \<Rightarrow> as | Inr a \<Rightarrow> a # as, s2))"

section \<open>Lemmas\<close>

lemma Address_from_to [simp]: "Address_from (u128_from_Address a) = a"
proof (cases a)
  case (Address x y)
  have "ucast (ucast x OR push_bit 64 (ucast y) :: u128) = x"
    by (rule bit_word_eqI) (auto simp: bit_simps)
  moreover have "ucast (drop_bit 64 (ucast x OR push_bit 64 (ucast y) :: u128)) = y"
    by (rule bit_word_eqI) (auto simp: bit_simps dest: bit_imp_le_length)
  ultimately show ?thesis by (simp add: Address Address_from_def)
qed

lemma u128_from_to [simp]: "u128_from_Address (Address_from v) = v"
  by (rule bit_word_eqI) (auto simp: Address_from_def bit_simps)

lemma Address_from_eq [simp]: "Address_from v = Address_from w \<longleftrightarrow> v = w"
  by (metis u128_from_to)

lemma u128_from_Address_eq: "u128_from_Address a = u128_from_Address b \<longleftrightarrow> a = b"
  by (metis Address_from_to)

instantiation Address :: linorder
begin

definition less_eq_Address :: "Address \<Rightarrow> Address \<Rightarrow> bool" where
  "less_eq_Address a b = Address_cmp_le a b"

definition less_Address :: "Address \<Rightarrow> Address \<Rightarrow> bool" where
  "less_Address a b = (Address_cmp_le a b \<and> \<not> Address_cmp_le b a)"

instance
  by standard (auto simp: less_eq_Address_def less_Address_def Address_cmp_le_def
      u128_from_Address_eq [symmetric])

end

lemma shard_consts: "INTERMEDIATE_SHARD_MASK = mask 10" "MAX_SHARD_INDEX = mask 20"
  by (simp_all add: INTERMEDIATE_SHARD_MASK_def MAX_SHARD_INDEX_def MAX_SHARDS_def shr_def
      mask_eq_exp_minus_1)

lemmas shard_defs = INTERMEDIATE_SHARDS_START_def INTERMEDIATE_SHARDS_END_def BEACON_CHAIN_def
  MAX_SHARD_INDEX_def MAX_SHARDS_def shard_kind_def is_child_of_def parent_shard_def
  is_beacon_chain_def

lemma child_iff_parent: "is_child_of s p \<longleftrightarrow> parent_shard s = Some p"
  by (auto simp: is_child_of_def parent_shard_def is_beacon_chain_def split: option.split ShardKind.split)

lemma mask_10_le: "(s :: u32) AND mask 10 \<le> 1023"
  using word_and_le1 [of s "mask 10"] by (simp add: mask_eq_exp_minus_1)

lemma leaf_parent:
  assumes "shard_kind s = Some LeafShard"
  shows "\<exists>p. parent_shard s = Some p \<and> shard_kind p = Some IntermediateShard"
proof -
  let ?p = "s AND INTERMEDIATE_SHARD_MASK"
  have "?p \<noteq> 0" using assms by (auto simp: shard_kind_def split: if_splits)
  then have "1 \<le> ?p" by (simp add: word_le_nat_alt unat_gt_0 Suc_le_eq)
  moreover have "?p \<le> 1023" using mask_10_le by (simp add: shard_consts)
  ultimately have "shard_kind ?p = Some IntermediateShard"
    using \<open>?p \<noteq> 0\<close> by (simp add: shard_kind_def BEACON_CHAIN_def INTERMEDIATE_SHARDS_START_def
        INTERMEDIATE_SHARDS_END_def)
  moreover have "parent_shard s = Some ?p" using assms by (simp add: parent_shard_def)
  ultimately show ?thesis by blast
qed

subsection \<open>Addresses of a shard\<close>

text \<open>The shard an address was created on: the first 20 bits, least significant bit first.\<close>

definition address_shard :: "Address \<Rightarrow> ShardIndex" where
  "address_shard a = take_bit 20 (ucast (word_reverse (u128_from_Address a)))"

abbreviation shard_base :: "ShardIndex \<Rightarrow> u128" where
  "shard_base s \<equiv> u128_from_Address (system_address_allocator s)"

lemma shard_index_bit: "s \<le> MAX_SHARD_INDEX \<Longrightarrow> 20 \<le> n \<Longrightarrow> \<not> bit s n"
proof (rule not_bit_of_less [of _ 20])
  assume "s \<le> MAX_SHARD_INDEX"
  then have "s \<le> 1048575" by (simp add: MAX_SHARD_INDEX_def MAX_SHARDS_def)
  then show "s < 2 ^ 20" by (simp add: word_le_nat_alt word_less_nat_alt)
qed

lemma bit_shard_base: "bit (shard_base s) n \<longleftrightarrow> n < 128 \<and> bit s (127 - n)"
  by (auto simp: system_address_allocator_def bit_word_reverse_iff bit_simps)

lemma take_bit_shard_base: "s \<le> MAX_SHARD_INDEX \<Longrightarrow> take_bit 108 (shard_base s) = 0"
  by (rule bit_word_eqI) (auto simp: bit_take_bit_iff bit_shard_base shard_index_bit)

lemma shard_base_disjoint:
  assumes "s \<le> MAX_SHARD_INDEX" "i < 2 ^ 108"
  shows "shard_base s + i = shard_base s OR i"
proof (rule disjunctive_add)
  fix n
  show "\<not> bit (shard_base s) n \<or> \<not> bit i n"
    using take_bit_shard_base [OF assms(1)] not_bit_of_less [OF assms(2), of n]
    by (metis bit_0_eq bit_take_bit_iff bot_apply bot_bool_def not_le)
qed

lemma address_shard_base:
  assumes s: "s \<le> MAX_SHARD_INDEX" and i: "i < 2 ^ 108"
  shows "address_shard (Address_from (shard_base s + i)) = s"
proof (rule bit_word_eqI)
  fix n :: nat assume n: "n < LENGTH(32)"
  show "bit (address_shard (Address_from (shard_base s + i))) n = bit s n"
  proof (cases "n < 20")
    case True
    then show ?thesis
      using not_bit_of_less [OF i, of "127 - n"]
      by (auto simp: address_shard_def shard_base_disjoint [OF s i] bit_take_bit_iff bit_ucast_iff
          bit_word_reverse_iff bit_or_iff bit_shard_base)
  next
    case False
    then show ?thesis
      using shard_index_bit [OF s, of n] by (simp add: address_shard_def bit_take_bit_iff)
  qed
qed

definition granted :: "Address list \<Rightarrow> AddressAllocator \<Rightarrow> nat" where
  "granted cs s =
    min (length (filter (\<lambda>c. c = SYSTEM_CODE) cs)) (unat (max_address s - next_address s))"

lemma allocate_many_spec:
  assumes "next_address s \<le> max_address s"
  shows "allocate_many cs s =
    (map (\<lambda>i. Address_from (next_address s + of_nat i)) [0..<granted cs s],
     s\<lparr>next_address := next_address s + of_nat (granted cs s)\<rparr>)"
  using assms unfolding granted_def
proof (induction cs arbitrary: s)
  case Nil
  then show ?case by simp
next
  case (Cons c cs)
  show ?case
  proof (cases "c = SYSTEM_CODE \<and> next_address s < max_address s")
    case False
    then have "max_address s = next_address s" if "c = SYSTEM_CODE"
      using Cons.prems that by simp
    then show ?thesis
      using False Cons by (auto simp: allocate_address_def)
  next
    case True
    let ?s = "s\<lparr>next_address := next_address s + 1\<rparr>"
    have le: "next_address ?s \<le> max_address ?s"
      using True by (simp add: inc_le)
    have sub: "unat (max_address s - next_address s) = Suc (unat (max_address ?s - next_address ?s))"
    proof -
      have "max_address s - next_address s \<noteq> 0" using True by auto
      then have "0 < unat (max_address s - next_address s)"
        "unat (max_address s - next_address s - 1) = unat (max_address s - next_address s) - 1"
        by (simp_all add: unat_gt_0 unat_minus_one)
      then show ?thesis by (simp add: algebra_simps)
    qed
    have upt: "[0..<Suc k] = 0 # map Suc [0..<k]" for k
      by (simp add: upt_conv_Cons map_Suc_upt del: upt_Suc)
    have "\<not> max_address s \<le> next_address s" using True by auto
    then show ?thesis
      using True Cons.IH [OF le]
      by (simp add: allocate_address_def sub upt comp_def add.assoc del: upt_Suc)
  qed
qed

lemma shard_base_dvd: "s \<le> MAX_SHARD_INDEX \<Longrightarrow> 2 ^ 108 dvd unat (shard_base s)"
  using take_bit_shard_base by (metis take_bit_eq_0_iff unat_0 unsigned_take_bit_eq)

lemma shard_base_unat: "s \<le> MAX_SHARD_INDEX \<Longrightarrow> unat (shard_base s) + 2 ^ 108 \<le> 2 ^ 128"
proof -
  assume "s \<le> MAX_SHARD_INDEX"
  then obtain k where k: "unat (shard_base s) = 2 ^ 108 * k" using shard_base_dvd by blast
  have "unat (shard_base s) < 2 ^ 128" using unsigned_less [of "shard_base s", where 'a = nat] by simp
  then have "k < 2 ^ 20" using k by simp
  then show ?thesis using k by simp
qed

lemma new_allocator:
  assumes "s \<le> MAX_SHARD_INDEX"
  shows "next_address (AddressAllocator_new s) \<le> max_address (AddressAllocator_new s)"
    and "max_address (AddressAllocator_new s) - next_address (AddressAllocator_new s) = 2 ^ 108 - 2"
proof -
  have "unat (shard_base s + 1) = unat (shard_base s) + 1"
    "unat (shard_base s + (2 ^ 108 - 1)) = unat (shard_base s) + (2 ^ 108 - 1)"
    using shard_base_unat [OF assms] by (simp_all add: unat_plus_if')
  then show "next_address (AddressAllocator_new s) \<le> max_address (AddressAllocator_new s)"
    by (simp add: AddressAllocator_new_def MAX_ADDRESSES_PER_SHARD_def word_le_nat_alt Let_def)
qed (simp add: AddressAllocator_new_def MAX_ADDRESSES_PER_SHARD_def Let_def)

lemma low_half_shard_base:
  assumes "s \<le> MAX_SHARD_INDEX"
  shows "addr_0 (Address_from (shard_base s + i)) = ucast i"
proof -
  have low: "unat (ucast w :: u64) = unat w mod 2 ^ 64" for w :: u128
    by (simp add: unsigned_ucast_eq take_bit_eq_mod)
  have "(2 :: nat) ^ 64 dvd 2 ^ 108" by (simp add: le_imp_power_dvd)
  then have "2 ^ 64 dvd unat (shard_base s)"
    using shard_base_dvd [OF assms] by (rule dvd_trans)
  then have "(unat (shard_base s) + unat i) mod 2 ^ 64 = unat i mod 2 ^ 64"
    by (metis add_0 mod_add_left_eq mod_eq_0_iff_dvd)
  moreover have "unat (shard_base s + i) mod 2 ^ 64 = (unat (shard_base s) + unat i) mod 2 ^ 64"
    by (simp add: unat_word_ariths(1) mod_mod_cancel)
  ultimately have "unat (ucast (shard_base s + i) :: u64) = unat (ucast i :: u64)"
    by (simp only: low)
  then show ?thesis by (simp add: Address_from_def word_unat_eq_iff)
qed

section \<open>Properties\<close>

text \<open>
  C20: the shard hierarchy is a tree of height two. \<open>is_child_of\<close> and \<open>parent_shard\<close> describe
  the same relation; the parent of a leaf shard is an intermediate shard, the parent of an
  intermediate or phantom shard is the beacon chain, which has none; and the indices with a
  shard kind are exactly those that \<open>ShardIndex::new\<close> accepts.
\<close>

theorem shard_hierarchy:
  "(is_child_of s p \<longleftrightarrow> parent_shard s = Some p) \<and>
   (shard_kind s = Some LeafShard \<longrightarrow>
     (\<exists>q. parent_shard s = Some q \<and> shard_kind q = Some IntermediateShard)) \<and>
   (shard_kind s \<in> {Some IntermediateShard, Some PhantomShard} \<longrightarrow>
     parent_shard s = Some BEACON_CHAIN) \<and>
   (parent_shard s = None \<longleftrightarrow> s = BEACON_CHAIN \<or> shard_index_new s = None) \<and>
   (shard_kind s = None \<longleftrightarrow> shard_index_new s = None)"
proof -
  have "\<not> s \<le> 1023 \<and> s \<noteq> 0" if "s > 1048575"
  proof -
    have "(1023 :: u32) < s" using that by (rule less_trans [rotated]) simp
    then show ?thesis by (simp add: not_le word_neq_0_conv less_trans [of 0 1023])
  qed
  then have kind: "shard_kind s = None \<longleftrightarrow> shard_index_new s = None"
    by (simp add: shard_kind_def shard_index_new_def BEACON_CHAIN_def INTERMEDIATE_SHARDS_START_def
        INTERMEDIATE_SHARDS_END_def MAX_SHARD_INDEX_def MAX_SHARDS_def)
  moreover have "parent_shard s = None \<longleftrightarrow> s = BEACON_CHAIN \<or> shard_kind s = None"
    by (auto simp: parent_shard_def shard_kind_def split: if_splits)
  moreover have "shard_kind s \<in> {Some IntermediateShard, Some PhantomShard} \<Longrightarrow>
      parent_shard s = Some BEACON_CHAIN"
    by (auto simp: parent_shard_def)
  ultimately show ?thesis
    by (intro conjI impI child_iff_parent leaf_parent) simp_all
qed

theorem shard_hierarchy_witness:
  "shard_kind 1025 = Some LeafShard \<and> is_child_of 1025 1 \<and>
   (\<exists>q. parent_shard 1025 = Some q \<and> shard_kind q = Some IntermediateShard) \<and>
   shard_kind 2048 = Some PhantomShard \<and> parent_shard 2048 = Some BEACON_CHAIN"
proof -
  have "shard_kind 1025 = Some LeafShard" "parent_shard 1025 = Some 1" "shard_kind 2048 = Some PhantomShard"
    by code_simp+
  then show ?thesis
    using shard_hierarchy [of 1025 1] shard_hierarchy [of 2048] by simp
qed

text \<open>
  C21: the address allocator of a shard. Whatever calls are made, by whatever callers, it hands
  out one address per call of the code contract until it runs out; the addresses are pairwise
  different, carry the shard's index, and are never the allocator's own address. In particular
  allocators of different shards never hand out the same address.
\<close>

theorem allocator_correct:
  fixes cs :: "Address list"
  assumes "s \<le> MAX_SHARD_INDEX"
  defines "as \<equiv> fst (allocate_many cs (AddressAllocator_new s))"
  shows "length as = min (length (filter (\<lambda>c. c = SYSTEM_CODE) cs)) (2 ^ 108 - 2) \<and>
    distinct as \<and> (\<forall>a \<in> set as. address_shard a = s \<and> a \<noteq> system_address_allocator s)"
proof -
  let ?n = "granted cs (AddressAllocator_new s)"
  have n: "?n = min (length (filter (\<lambda>c. c = SYSTEM_CODE) cs)) (2 ^ 108 - 2)"
    by (simp add: granted_def new_allocator(2) [OF assms(1)])
  then have n': "?n \<le> 2 ^ 108 - 2" by simp
  have as: "as = map (\<lambda>i. Address_from (shard_base s + of_nat (Suc i))) [0..<?n]"
    unfolding as_def allocate_many_spec [OF new_allocator(1) [OF assms(1)]]
    by (simp add: AddressAllocator_new_def Let_def add.assoc)
  have small: "unat (of_nat (Suc i) :: u128) = Suc i" if "i < ?n" for i
    using that n' by (intro unat_of_nat_less) simp
  have shard: "address_shard (Address_from (shard_base s + of_nat (Suc i))) = s" if "i < ?n" for i
    using small [OF that] that n' by (intro address_shard_base [OF assms(1)]) (simp add: word_less_nat_alt)
  have inj: "i = j" if "i < ?n" "j < ?n" "(of_nat (Suc i) :: u128) = of_nat (Suc j)" for i j
    using small [OF that(1)] small [OF that(2)] that(3) by (metis Suc_inject)
  have "distinct as"
    unfolding as distinct_map by (auto intro!: inj_onI dest: inj simp del: of_nat_Suc)
  moreover have "a \<noteq> system_address_allocator s" if a: "a \<in> set as" for a
  proof -
    obtain i where i: "i < ?n" "a = Address_from (shard_base s + of_nat (Suc i))" using a as by auto
    have "(of_nat (Suc i) :: u128) \<noteq> 0" using small [OF i(1)] by (metis unat_0 nat.distinct(1))
    then have "u128_from_Address a \<noteq> shard_base s" by (simp add: i(2) del: of_nat_Suc)
    then show ?thesis by auto
  qed
  ultimately show ?thesis using as n shard by auto
qed

theorem allocator_correct_witness:
  "length (fst (allocate_many [SYSTEM_CODE, NULL, SYSTEM_CODE] (AddressAllocator_new 5))) = 2 \<and>
   distinct (fst (allocate_many [SYSTEM_CODE, NULL, SYSTEM_CODE] (AddressAllocator_new 5)))"
proof -
  have "5 \<le> MAX_SHARD_INDEX" by (simp add: MAX_SHARD_INDEX_def MAX_SHARDS_def)
  moreover have "min (length (filter (\<lambda>c. c = SYSTEM_CODE) [SYSTEM_CODE, NULL, SYSTEM_CODE]))
      (2 ^ 108 - 2) = 2"
    by (simp add: SYSTEM_CODE_def NULL_def)
  ultimately show ?thesis
    using allocator_correct [of 5 "[SYSTEM_CODE, NULL, SYSTEM_CODE]"] by (simp only: simp_thms)
qed

text \<open>
  C22: comparing an address with a reference to one looks at half of the bits. The \<open>i\<close>-th
  addresses of any two shards are equal under the hand-written \<open>PartialEq\<close> implementations
  between \<open>Address\<close> and \<open>&Address\<close>, although they are different addresses whenever the shards
  are different.
\<close>

theorem address_ref_eq_confuses_shards:
  assumes "s \<le> MAX_SHARD_INDEX" and "t \<le> MAX_SHARD_INDEX" and "i < 2 ^ 108"
  defines "a \<equiv> Address_from (u128_from_Address (system_address_allocator s) + i)"
    and "b \<equiv> Address_from (u128_from_Address (system_address_allocator t) + i)"
  shows "Address_eq_ref a b \<and> ref_eq_Address a b \<and> (a = b \<longleftrightarrow> s = t)"
proof -
  have "addr_0 a = addr_0 b"
    by (simp add: a_def b_def low_half_shard_base assms(1,2))
  moreover have "a = b \<longleftrightarrow> s = t"
    using address_shard_base [OF assms(1,3)] address_shard_base [OF assms(2,3)]
    unfolding a_def b_def by metis
  ultimately show ?thesis by (simp add: Address_eq_ref_def ref_eq_Address_def)
qed

theorem address_ref_eq_confuses_shards_witness:
  "ref_eq_Address (Address_from (u128_from_Address (system_address_allocator 1) + 7))
     (Address_from (u128_from_Address (system_address_allocator 2) + 7)) \<and>
   Address_from (u128_from_Address (system_address_allocator 1) + 7) \<noteq>
     Address_from (u128_from_Address (system_address_allocator 2) + 7)"
proof -
  have "1 \<le> MAX_SHARD_INDEX" "2 \<le> MAX_SHARD_INDEX" "(7 :: u128) < 2 ^ 108" "(1 :: u32) \<noteq> 2"
    by (simp_all add: MAX_SHARD_INDEX_def MAX_SHARDS_def)
  then show ?thesis using address_ref_eq_confuses_shards [of 1 2 7] by blast
qed

end
