(* ===== verification/Aligned_Buffer.thy ===== *)
theory Aligned_Buffer
  imports Prelude
begin

text \<open>
  The 16-byte aligned buffers of \<^verbatim>\<open>crates/shared/ab-aligned-buffer/src/lib.rs\<close>, twice.

  First as they are written: a heap of reference-counted allocations, in which a handle
  (\<open>InnerBuffer\<close>) is a pointer with a capacity and a length. The heap is a list of
  allocations, the pointer an index into it; an allocation that has been freed is \<open>None\<close> and
  its index is never used again, \<open>realloc\<close> always moves, and memory that was never written is
  \<open>None\<close>. An operation that touches freed memory, reads uninitialised bytes, writes out of
  bounds, frees with the wrong layout, or panics has no result (\<open>None\<close>).

  Then as values: an owned buffer is its bytes and its capacity, a shared one is its bytes. The
  refinement at the end shows that every program over the buffer API computes the same on both,
  so the clients of the buffers (the slots of the executor) are modelled over the values.
\<close>

section \<open>Allocations\<close>

record allocation =
  strong_count :: u32
  alloc_data :: "u8 option list"

type_synonym heap = "allocation option list"

record InnerBuffer =
  buf_ptr :: nat
  buf_capacity :: u32
  buf_len :: u32

definition div_ceil :: "nat \<Rightarrow> nat \<Rightarrow> nat" where
  "div_ceil a b = (a + b - 1) div b"

definition next_multiple_of :: "nat \<Rightarrow> nat \<Rightarrow> nat" where
  "next_multiple_of a b = div_ceil a b * b"

definition saturating_mul :: "'a::len word \<Rightarrow> 'a word \<Rightarrow> 'a word" where
  "saturating_mul a b = (if unat a * unat b < 2 ^ LENGTH('a) then a * b else - 1)"

definition EMPTY_SHARED_ALIGNED_BUFFER :: InnerBuffer where
  "EMPTY_SHARED_ALIGNED_BUFFER = \<lparr>buf_ptr = 0, buf_capacity = 0, buf_len = 0\<rparr>"

definition static_heap :: heap where
  "static_heap = [Some \<lparr>strong_count = 1, alloc_data = []\<rparr>]"

definition deref :: "heap \<Rightarrow> nat \<Rightarrow> allocation option" where
  "deref h p = (if p < length h then h ! p else None)"

definition layout_ok :: "allocation \<Rightarrow> InnerBuffer \<Rightarrow> bool" where
  "layout_ok a b \<longleftrightarrow> length (alloc_data a) = 16 * div_ceil (unat (buf_capacity b)) 16"

definition inner_clone :: "heap \<Rightarrow> InnerBuffer \<Rightarrow> (heap \<times> InnerBuffer) option" where
  "inner_clone h b = do {
     a \<leftarrow> deref h (buf_ptr b);
     Some (h[buf_ptr b := Some (a\<lparr>strong_count := strong_count a + 1\<rparr>)], b)
   }"

definition inner_drop :: "heap \<Rightarrow> InnerBuffer \<Rightarrow> heap option" where
  "inner_drop h b = do {
     a \<leftarrow> deref h (buf_ptr b);
     if strong_count a = 1
     then (if layout_ok a b then Some (h[buf_ptr b := None]) else None)
     else Some (h[buf_ptr b := Some (a\<lparr>strong_count := strong_count a - 1\<rparr>)])
   }"

definition inner_allocate :: "heap \<Rightarrow> u32 \<Rightarrow> heap \<times> InnerBuffer" where
  "inner_allocate h c =
    (h @ [Some \<lparr>strong_count = 1,
                alloc_data = replicate (16 * div_ceil (unat c) 16) None\<rparr>],
     \<lparr>buf_ptr = length h, buf_capacity = c, buf_len = 0\<rparr>)"

definition inner_resize :: "heap \<Rightarrow> InnerBuffer \<Rightarrow> u32 \<Rightarrow> (heap \<times> InnerBuffer) option" where
  "inner_resize h b c = do {
     a \<leftarrow> deref h (buf_ptr b);
     if layout_ok a b
     then (let n = next_multiple_of (unat c) 16;
               d = take n (alloc_data a) @ replicate (n - length (alloc_data a)) None
           in Some (h[buf_ptr b := None] @ [Some (a\<lparr>alloc_data := d\<rparr>)],
                    b\<lparr>buf_ptr := length h, buf_capacity := c\<rparr>))
     else None
   }"

definition inner_set_len :: "InnerBuffer \<Rightarrow> u32 \<Rightarrow> InnerBuffer option" where
  "inner_set_len b n = (if n \<le> buf_capacity b then Some (b\<lparr>buf_len := n\<rparr>) else None)"

primrec initialised :: "u8 option list \<Rightarrow> u8 list option" where
  "initialised [] = Some []"
| "initialised (x # xs) = do { b \<leftarrow> x; bs \<leftarrow> initialised xs; Some (b # bs) }"

definition inner_as_slice :: "heap \<Rightarrow> InnerBuffer \<Rightarrow> u8 list option" where
  "inner_as_slice h b = do {
     a \<leftarrow> deref h (buf_ptr b);
     if unat (buf_len b) \<le> length (alloc_data a)
     then initialised (take (unat (buf_len b)) (alloc_data a)) else None
   }"

text \<open>\<open>copy_from_nonoverlapping\<close> to offset \<open>i\<close> of the data.\<close>

definition inner_write :: "heap \<Rightarrow> InnerBuffer \<Rightarrow> nat \<Rightarrow> u8 list \<Rightarrow> heap option" where
  "inner_write h b i bs = do {
     a \<leftarrow> deref h (buf_ptr b);
     if i + length bs \<le> length (alloc_data a)
     then Some (h[buf_ptr b := Some (a\<lparr>alloc_data :=
            take i (alloc_data a) @ map Some bs @ drop (i + length bs) (alloc_data a)\<rparr>)])
     else None
   }"

section \<open>The two buffer types\<close>

text \<open>
  \<open>OwnedAlignedBuffer\<close> and \<open>SharedAlignedBuffer\<close> wrap an \<open>InnerBuffer\<close>; methods that take
  \<open>&mut self\<close> return the changed handle.
\<close>

definition owned_with_capacity :: "heap \<Rightarrow> u32 \<Rightarrow> heap \<times> InnerBuffer" where
  "owned_with_capacity h c = inner_allocate h c"

definition owned_ensure_capacity :: "heap \<Rightarrow> InnerBuffer \<Rightarrow> u32 \<Rightarrow> (heap \<times> InnerBuffer) option" where
  "owned_ensure_capacity h b c =
    (if c > buf_capacity b then inner_resize h b c else Some (h, b))"

definition owned_copy_from_slice ::
  "heap \<Rightarrow> InnerBuffer \<Rightarrow> u8 list \<Rightarrow> (heap \<times> InnerBuffer) option" where
  "owned_copy_from_slice h b bs =
    (if 2 ^ 32 \<le> length bs then None
     else do {
       let len = of_nat (length bs);
       (h, b) \<leftarrow> (if len > buf_capacity b
                 then inner_resize h b (max len (saturating_mul (buf_capacity b) 2))
                 else Some (h, b));
       h \<leftarrow> inner_write h b 0 bs;
       b \<leftarrow> inner_set_len b len;
       Some (h, b)
     })"

definition owned_append ::
  "heap \<Rightarrow> InnerBuffer \<Rightarrow> u8 list \<Rightarrow> (heap \<times> InnerBuffer \<times> bool) option" where
  "owned_append h b bs =
    (if 2 ^ 32 \<le> length bs then Some (h, b, False)
     else case checked_add (buf_len b) (of_nat (length bs)) of
       None \<Rightarrow> Some (h, b, False)
     | Some new_len \<Rightarrow> do {
         (h, b) \<leftarrow> (if new_len > buf_capacity b
                   then inner_resize h b (max new_len (saturating_mul (buf_capacity b) 2))
                   else Some (h, b));
         h \<leftarrow> inner_write h b (unat (buf_len b)) bs;
         b \<leftarrow> inner_set_len b new_len;
         Some (h, b, True)
       })"

definition owned_from_bytes :: "heap \<Rightarrow> u8 list \<Rightarrow> (heap \<times> InnerBuffer) option" where
  "owned_from_bytes h bs =
    (let (h, b) = owned_with_capacity h 0 in owned_copy_from_slice h b bs)"

definition owned_clone :: "heap \<Rightarrow> InnerBuffer \<Rightarrow> (heap \<times> InnerBuffer) option" where
  "owned_clone h b =
    (let (h, n) = owned_with_capacity h (buf_capacity b)
     in do { bs \<leftarrow> inner_as_slice h b; owned_copy_from_slice h n bs })"

definition owned_into_shared :: "InnerBuffer \<Rightarrow> InnerBuffer" where
  "owned_into_shared b = b"

definition shared_default :: "heap \<Rightarrow> (heap \<times> InnerBuffer) option" where
  "shared_default h = inner_clone h EMPTY_SHARED_ALIGNED_BUFFER"

definition shared_from_bytes :: "heap \<Rightarrow> u8 list \<Rightarrow> (heap \<times> InnerBuffer) option" where
  "shared_from_bytes h bs =
    do { (h, b) \<leftarrow> owned_from_bytes h bs; Some (h, owned_into_shared b) }"

text \<open>
  \<open>into_owned\<close> takes the buffer by value: when the allocation is not reused, the shared handle
  is dropped at the end of the function.
\<close>

definition shared_into_owned :: "heap \<Rightarrow> InnerBuffer \<Rightarrow> (heap \<times> InnerBuffer) option" where
  "shared_into_owned h b = do {
     a \<leftarrow> deref h (buf_ptr b);
     if strong_count a = 1 then Some (h, b)
     else do {
       bs \<leftarrow> inner_as_slice h b;
       (h, n) \<leftarrow> owned_from_bytes h bs;
       h \<leftarrow> inner_drop h b;
       Some (h, n)
     }
   }"

lemmas heap_op_defs = deref_def layout_ok_def inner_clone_def inner_drop_def inner_allocate_def
  inner_resize_def inner_set_len_def inner_as_slice_def inner_write_def owned_with_capacity_def
  owned_ensure_capacity_def owned_copy_from_slice_def owned_append_def owned_from_bytes_def
  owned_clone_def owned_into_shared_def shared_default_def shared_from_bytes_def
  shared_into_owned_def EMPTY_SHARED_ALIGNED_BUFFER_def next_multiple_of_def div_ceil_def
  saturating_mul_def checked_add_def

section \<open>Buffers as values\<close>

record OwnedAlignedBuffer =
  ob_bytes :: "u8 list"
  ob_capacity :: u32

type_synonym SharedAlignedBuffer = "u8 list"

definition ob_with_capacity :: "u32 \<Rightarrow> OwnedAlignedBuffer" where
  "ob_with_capacity c = \<lparr>ob_bytes = [], ob_capacity = c\<rparr>"

definition ob_ensure_capacity :: "OwnedAlignedBuffer \<Rightarrow> u32 \<Rightarrow> OwnedAlignedBuffer" where
  "ob_ensure_capacity b c = b\<lparr>ob_capacity := max (ob_capacity b) c\<rparr>"

definition ob_grow :: "OwnedAlignedBuffer \<Rightarrow> u32 \<Rightarrow> u32" where
  "ob_grow b len = (if len > ob_capacity b
     then max len (saturating_mul (ob_capacity b) 2) else ob_capacity b)"

definition ob_copy_from_slice :: "OwnedAlignedBuffer \<Rightarrow> u8 list \<Rightarrow> OwnedAlignedBuffer option" where
  "ob_copy_from_slice b bs =
    (if 2 ^ 32 \<le> length bs then None
     else Some \<lparr>ob_bytes = bs, ob_capacity = ob_grow b (of_nat (length bs))\<rparr>)"

definition ob_append :: "OwnedAlignedBuffer \<Rightarrow> u8 list \<Rightarrow> OwnedAlignedBuffer \<times> bool" where
  "ob_append b bs =
    (if 2 ^ 32 \<le> length (ob_bytes b) + length bs then (b, False)
     else (\<lparr>ob_bytes = ob_bytes b @ bs,
            ob_capacity = ob_grow b (of_nat (length (ob_bytes b) + length bs))\<rparr>, True))"

definition ob_into_shared :: "OwnedAlignedBuffer \<Rightarrow> SharedAlignedBuffer" where
  "ob_into_shared b = ob_bytes b"

definition sb_len :: "SharedAlignedBuffer \<Rightarrow> u32" where
  "sb_len b = of_nat (length b)"

section \<open>Programs over the buffer API\<close>

text \<open>
  A program holds its buffers in a table; an operation names a buffer by its index. Using an
  index that holds no buffer of the right type is ruled out by Rust's type system, and is the
  identity here, on both levels.
\<close>

datatype handle = Owned InnerBuffer | Shared InnerBuffer

datatype buffer_value = OwnedV OwnedAlignedBuffer | SharedV SharedAlignedBuffer

datatype buffer_op =
    WithCapacity u32 | OwnedFromBytes "u8 list" | SharedFromBytes "u8 list" | SharedDefault
  | EnsureCapacity nat u32 | CopyFromSlice nat "u8 list" | AppendBytes nat "u8 list"
  | IntoShared nat | IntoOwned nat | CloneOwned nat | CloneShared nat | DropBuffer nat

definition cell :: "'a option list \<Rightarrow> nat \<Rightarrow> 'a option" where
  "cell t i = (if i < length t then t ! i else None)"

fun exec_op :: "buffer_op \<Rightarrow> heap \<times> handle option list \<Rightarrow> (heap \<times> handle option list) option" where
  "exec_op (WithCapacity c) (h, t) =
    (let (h, b) = owned_with_capacity h c in Some (h, t @ [Some (Owned b)]))"
| "exec_op (OwnedFromBytes bs) (h, t) =
    do { (h, b) \<leftarrow> owned_from_bytes h bs; Some (h, t @ [Some (Owned b)]) }"
| "exec_op (SharedFromBytes bs) (h, t) =
    do { (h, b) \<leftarrow> shared_from_bytes h bs; Some (h, t @ [Some (Shared b)]) }"
| "exec_op SharedDefault (h, t) =
    do { (h, b) \<leftarrow> shared_default h; Some (h, t @ [Some (Shared b)]) }"
| "exec_op (EnsureCapacity i c) (h, t) = (case cell t i of
     Some (Owned b) \<Rightarrow>
       do { (h, b) \<leftarrow> owned_ensure_capacity h b c; Some (h, t[i := Some (Owned b)]) }
   | _ \<Rightarrow> Some (h, t))"
| "exec_op (CopyFromSlice i bs) (h, t) = (case cell t i of
     Some (Owned b) \<Rightarrow>
       do { (h, b) \<leftarrow> owned_copy_from_slice h b bs; Some (h, t[i := Some (Owned b)]) }
   | _ \<Rightarrow> Some (h, t))"
| "exec_op (AppendBytes i bs) (h, t) = (case cell t i of
     Some (Owned b) \<Rightarrow>
       do { (h, b, _) \<leftarrow> owned_append h b bs; Some (h, t[i := Some (Owned b)]) }
   | _ \<Rightarrow> Some (h, t))"
| "exec_op (IntoShared i) (h, t) = (case cell t i of
     Some (Owned b) \<Rightarrow> Some (h, t[i := Some (Shared (owned_into_shared b))])
   | _ \<Rightarrow> Some (h, t))"
| "exec_op (IntoOwned i) (h, t) = (case cell t i of
     Some (Shared b) \<Rightarrow>
       do { (h, b) \<leftarrow> shared_into_owned h b; Some (h, t[i := Some (Owned b)]) }
   | _ \<Rightarrow> Some (h, t))"
| "exec_op (CloneOwned i) (h, t) = (case cell t i of
     Some (Owned b) \<Rightarrow> do { (h, b) \<leftarrow> owned_clone h b; Some (h, t @ [Some (Owned b)]) }
   | _ \<Rightarrow> Some (h, t))"
| "exec_op (CloneShared i) (h, t) = (case cell t i of
     Some (Shared b) \<Rightarrow> do { (h, b) \<leftarrow> inner_clone h b; Some (h, t @ [Some (Shared b)]) }
   | _ \<Rightarrow> Some (h, t))"
| "exec_op (DropBuffer i) (h, t) = (case cell t i of
     Some (Owned b) \<Rightarrow> do { h \<leftarrow> inner_drop h b; Some (h, t[i := None]) }
   | Some (Shared b) \<Rightarrow> do { h \<leftarrow> inner_drop h b; Some (h, t[i := None]) }
   | None \<Rightarrow> Some (h, t))"

text \<open>The same operations on values; a shared buffer becomes an owned one whose capacity
  depends on whether the allocation is reused, so the capacity is an argument of \<open>value_op\<close>.\<close>

fun value_op :: "buffer_op \<Rightarrow> u32 \<Rightarrow> buffer_value option list \<Rightarrow> buffer_value option list option"
where
  "value_op (WithCapacity c) _ V = Some (V @ [Some (OwnedV (ob_with_capacity c))])"
| "value_op (OwnedFromBytes bs) _ V =
    do { b \<leftarrow> ob_copy_from_slice (ob_with_capacity 0) bs; Some (V @ [Some (OwnedV b)]) }"
| "value_op (SharedFromBytes bs) _ V =
    do { b \<leftarrow> ob_copy_from_slice (ob_with_capacity 0) bs;
         Some (V @ [Some (SharedV (ob_into_shared b))]) }"
| "value_op SharedDefault _ V = Some (V @ [Some (SharedV [])])"
| "value_op (EnsureCapacity i c) _ V = (case cell V i of
     Some (OwnedV b) \<Rightarrow> Some (V[i := Some (OwnedV (ob_ensure_capacity b c))])
   | _ \<Rightarrow> Some V)"
| "value_op (CopyFromSlice i bs) _ V = (case cell V i of
     Some (OwnedV b) \<Rightarrow> do { b \<leftarrow> ob_copy_from_slice b bs; Some (V[i := Some (OwnedV b)]) }
   | _ \<Rightarrow> Some V)"
| "value_op (AppendBytes i bs) _ V = (case cell V i of
     Some (OwnedV b) \<Rightarrow> Some (V[i := Some (OwnedV (fst (ob_append b bs)))])
   | _ \<Rightarrow> Some V)"
| "value_op (IntoShared i) _ V = (case cell V i of
     Some (OwnedV b) \<Rightarrow> Some (V[i := Some (SharedV (ob_into_shared b))])
   | _ \<Rightarrow> Some V)"
| "value_op (IntoOwned i) c V = (case cell V i of
     Some (SharedV bs) \<Rightarrow> Some (V[i := Some (OwnedV \<lparr>ob_bytes = bs, ob_capacity = c\<rparr>)])
   | _ \<Rightarrow> Some V)"
| "value_op (CloneOwned i) _ V = (case cell V i of
     Some (OwnedV b) \<Rightarrow> Some (V @ [Some (OwnedV b)])
   | _ \<Rightarrow> Some V)"
| "value_op (CloneShared i) _ V = (case cell V i of
     Some (SharedV bs) \<Rightarrow> Some (V @ [Some (SharedV bs)])
   | _ \<Rightarrow> Some V)"
| "value_op (DropBuffer i) _ V = Some (if i < length V then V[i := None] else V)"

primrec exec_ops ::
  "buffer_op list \<Rightarrow> heap \<times> handle option list \<Rightarrow> (heap \<times> handle option list) option" where
  "exec_ops [] s = Some s"
| "exec_ops (p # ps) s = do { s \<leftarrow> exec_op p s; exec_ops ps s }"

inductive value_ops ::
  "buffer_op list \<Rightarrow> buffer_value option list \<Rightarrow> buffer_value option list \<Rightarrow> bool" where
  value_ops_Nil: "value_ops [] V V"
| value_ops_Cons: "value_op p c V = Some V' \<Longrightarrow> value_ops ps V' V'' \<Longrightarrow> value_ops (p # ps) V V''"

section \<open>The heap invariant\<close>

fun points_to :: "handle option \<Rightarrow> nat \<Rightarrow> bool" where
  "points_to None p = False"
| "points_to (Some (Owned b)) p = (buf_ptr b = p)"
| "points_to (Some (Shared b)) p = (buf_ptr b = p)"

text \<open>Number of handles to an allocation, the static empty buffer included.\<close>

definition refs :: "handle option list \<Rightarrow> nat \<Rightarrow> nat" where
  "refs t p = length (filter (\<lambda>x. points_to x p) t) + of_bool (p = 0)"

definition buffer_val :: "heap \<Rightarrow> InnerBuffer \<Rightarrow> u8 list \<Rightarrow> bool" where
  "buffer_val h b bs \<longleftrightarrow> (\<exists>a. deref h (buf_ptr b) = Some a \<and> layout_ok a b \<and>
     buf_len b \<le> buf_capacity b \<and>
     initialised (take (unat (buf_len b)) (alloc_data a)) = Some bs)"

fun cell_val :: "heap \<Rightarrow> handle option \<Rightarrow> buffer_value option \<Rightarrow> bool" where
  "cell_val h None None = True"
| "cell_val h (Some (Owned b)) (Some (OwnedV v)) =
    (buffer_val h b (ob_bytes v) \<and> ob_capacity v = buf_capacity b)"
| "cell_val h (Some (Shared b)) (Some (SharedV bs)) = buffer_val h b bs"
| "cell_val h _ _ = False"

definition counts_ok :: "heap \<Rightarrow> handle option list \<Rightarrow> bool" where
  "counts_ok h t \<longleftrightarrow> (\<forall>p. case deref h p of None \<Rightarrow> refs t p = 0
     | Some a \<Rightarrow> unat (strong_count a) = refs t p \<and> 0 < refs t p)"

definition owned_unique :: "handle option list \<Rightarrow> bool" where
  "owned_unique t \<longleftrightarrow> (\<forall>b. Some (Owned b) \<in> set t \<longrightarrow> refs t (buf_ptr b) = 1)"

definition refines :: "heap \<Rightarrow> handle option list \<Rightarrow> buffer_value option list \<Rightarrow> bool" where
  "refines h t V \<longleftrightarrow> list_all2 (cell_val h) t V \<and> counts_ok h t \<and> owned_unique t \<and>
     map_option alloc_data (deref h 0) = Some []"

lemma unat_less_exp: "unat (x :: 'a::len word) < 2 ^ LENGTH('a)"
  by (rule unsigned_less)

lemma ob_update [simp]: "v\<lparr>ob_capacity := c, ob_bytes := bs\<rparr> = \<lparr>ob_bytes = bs, ob_capacity = c\<rparr>"
  by (cases v) simp

lemma refs_append [simp]: "refs (t @ [x]) p = refs t p + of_bool (points_to x p)"
  by (simp add: refs_def)

lemma refs_update:
  assumes "i < length t"
  shows "refs (t[i := x]) p + of_bool (points_to (t ! i) p) = refs t p + of_bool (points_to x p)"
proof -
  have "filter (\<lambda>x. points_to x p) t =
      filter (\<lambda>x. points_to x p) (take i t @ t ! i # drop (Suc i) t)"
    using id_take_nth_drop [OF assms] by simp
  then show ?thesis by (simp add: refs_def upd_conv_take_nth_drop [OF assms])
qed

lemma refs_same:
  assumes "i < length t" "\<And>p. points_to x p = points_to (t ! i) p"
  shows "refs (t[i := x]) p = refs t p"
  using refs_update [OF assms(1), of x p] assms(2) by simp

lemma refs_positive: "i < length t \<Longrightarrow> points_to (t ! i) p \<Longrightarrow> 0 < refs t p"
  using refs_update [of i t None p] by simp

lemma refs_unique:
  assumes "refs t p = 1" "i < length t" "points_to (t ! i) p" "j < length t" "points_to (t ! j) p"
  shows "i = j"
proof (rule ccontr)
  assume "i \<noteq> j"
  then have "refs (t[i := None]) p + 1 = 1" "points_to (t[i := None] ! j) p"
    using refs_update [of i t None p] assms by simp_all
  then show False using refs_positive [of j "t[i := None]" p] assms(4) by simp
qed

lemma deref_append: "deref (h @ [x]) p = (if p = length h then x else deref h p)"
  by (simp add: deref_def nth_append)

lemma deref_update: "deref (h[p := x]) q = (if q = p \<and> p < length h then x else deref h q)"
  by (simp add: deref_def)

lemma deref_Some_less: "deref h p = Some a \<Longrightarrow> p < length h"
  by (simp add: deref_def split: if_splits)

lemma length_initialised: "initialised xs = Some bs \<Longrightarrow> length bs = length xs"
  by (induction xs arbitrary: bs) (auto split: Option.bind_splits)

lemma initialised_map_Some [simp]: "initialised (map Some bs) = Some bs"
  by (induction bs) auto

lemma initialised_append:
  "initialised (xs @ ys) = do { as \<leftarrow> initialised xs; bs \<leftarrow> initialised ys; Some (as @ bs) }"
  by (induction xs) (auto split: Option.bind_splits)

lemma le_16_div_ceil: "n \<le> 16 * div_ceil n 16"
  by (simp add: div_ceil_def)

lemma mono_16_div_ceil: "m \<le> n \<Longrightarrow> 16 * div_ceil m 16 \<le> 16 * div_ceil n 16"
  by (simp add: div_ceil_def div_le_mono)

lemma next_multiple_of_16: "next_multiple_of n 16 = 16 * div_ceil n 16"
  by (simp add: next_multiple_of_def)

lemma buffer_val_cong:
  "map_option alloc_data (deref h' (buf_ptr b)) = map_option alloc_data (deref h (buf_ptr b)) \<Longrightarrow>
    buffer_val h' b bs = buffer_val h b bs"
  by (cases "deref h' (buf_ptr b)"; cases "deref h (buf_ptr b)")
    (simp_all add: buffer_val_def layout_ok_def)

lemma cell_val_cong:
  "(\<And>p. points_to x p \<Longrightarrow>
      map_option alloc_data (deref h' p) = map_option alloc_data (deref h p)) \<Longrightarrow>
    cell_val h' x y = cell_val h x y"
  by (induction h x y rule: cell_val.induct) (auto cong: buffer_val_cong)

lemma list_all2_cell_val_cong:
  assumes "list_all2 (cell_val h) t V"
    and "\<And>x p. x \<in> set t \<Longrightarrow> points_to x p \<Longrightarrow>
      map_option alloc_data (deref h' p) = map_option alloc_data (deref h p)"
  shows "list_all2 (cell_val h') t V"
  using assms(1) by (rule list.rel_mono_strong) (use cell_val_cong assms(2) in blast)

lemma buffer_val_len: "buffer_val h b bs \<Longrightarrow> length bs = unat (buf_len b)"
proof -
  assume "buffer_val h b bs"
  then obtain a where a: "layout_ok a b" "buf_len b \<le> buf_capacity b"
    "initialised (take (unat (buf_len b)) (alloc_data a)) = Some bs" by (auto simp: buffer_val_def)
  have "unat (buf_len b) \<le> length (alloc_data a)"
    using a(1,2) le_16_div_ceil [of "unat (buf_capacity b)"]
    by (simp add: layout_ok_def word_le_nat_alt)
  then show ?thesis using length_initialised [OF a(3)] by simp
qed

lemma buffer_val_as_slice: "buffer_val h b bs \<Longrightarrow> inner_as_slice h b = Some bs"
  using le_16_div_ceil [of "unat (buf_capacity b)"]
  by (auto simp: buffer_val_def inner_as_slice_def layout_ok_def word_le_nat_alt)

lemma counts_okD:
  assumes "counts_ok h t"
  shows "deref h p = Some a \<Longrightarrow> unat (strong_count a) = refs t p \<and> 0 < refs t p"
    and "deref h p = None \<Longrightarrow> refs t p = 0"
  using assms [unfolded counts_ok_def, rule_format, of p] by (auto split: option.splits)

lemma counts_okI:
  assumes "\<And>p. deref h p = None \<Longrightarrow> refs t p = 0"
    and "\<And>p a. deref h p = Some a \<Longrightarrow> unat (strong_count a) = refs t p \<and> 0 < refs t p"
  shows "counts_ok h t"
  using assms by (auto simp: counts_ok_def split: option.split)

lemma counts_ok_cong: "(\<And>p. refs t' p = refs t p) \<Longrightarrow> counts_ok h t' = counts_ok h t"
  by (simp add: counts_ok_def cong: option.case_cong)

lemma refs_in_set: "x \<in> set t \<Longrightarrow> points_to x p \<Longrightarrow> 0 < refs t p"
  by (metis in_set_conv_nth refs_positive)

lemma refinesD:
  assumes "refines h t V"
  shows "length V = length t" "list_all2 (cell_val h) t V" "counts_ok h t" "owned_unique t"
    "i < length t \<Longrightarrow> cell_val h (t ! i) (V ! i)" "\<exists>a. deref h 0 = Some a \<and> alloc_data a = []"
  using assms list_all2_lengthD [of "cell_val h" t V] list_all2_nthD [of "cell_val h" t V i]
  by (auto simp: refines_def)

section \<open>Every primitive keeps the invariant\<close>

lemma refines_allocate:
  assumes R: "refines h t V" and A: "inner_allocate h c = (h', b)"
  shows "refines h' (t @ [Some (Owned b)]) (V @ [Some (OwnedV (ob_with_capacity c))])"
proof -
  define a where "a = \<lparr>strong_count = 1 :: u32,
    alloc_data = replicate (16 * div_ceil (unat c) 16) (None :: u8 option)\<rparr>"
  have h': "h' = h @ [Some a]" and b: "b = \<lparr>buf_ptr = length h, buf_capacity = c, buf_len = 0\<rparr>"
    using A by (auto simp: inner_allocate_def a_def)
  have 0: "refs t (length h) = 0"
    using counts_okD(2) [OF refinesD(3) [OF R], of "length h"] by (simp add: deref_def)
  have old: "p \<noteq> length h" if "x \<in> set t" "points_to x p" for x p
    using refs_in_set [OF that] 0 by auto
  have old_owned: "buf_ptr c \<noteq> length h" if "Some (Owned c) \<in> set t" for c
    using old [OF that] by simp
  have "list_all2 (cell_val h') t V"
    using refinesD(2) [OF R]
    by (rule list_all2_cell_val_cong) (drule (1) old, simp add: h' deref_append)
  moreover have "buffer_val h' b []"
    by (simp add: buffer_val_def h' b deref_append layout_ok_def a_def)
  moreover have "counts_ok h' (t @ [Some (Owned b)])"
    using counts_okD [OF refinesD(3) [OF R]] 0
    by (intro counts_okI) (auto simp: h' b deref_append a_def split: if_splits)
  moreover have "owned_unique (t @ [Some (Owned b)])"
    using refinesD(4) [OF R] 0 by (auto simp: owned_unique_def b dest: old_owned)
  moreover have "map_option alloc_data (deref h' 0) = Some []"
    using refinesD(6) [OF R] by (auto simp: h' deref_append dest: deref_Some_less)
  ultimately show ?thesis
    by (simp add: refines_def list_all2_appendI b ob_with_capacity_def)
qed

lemma owned_ptr_unique:
  assumes "refines h t V" "i < length t" "t ! i = Some (Owned b)"
  shows "refs t (buf_ptr b) = 1" and "buf_ptr b \<noteq> 0"
    and "j < length t \<Longrightarrow> points_to (t ! j) (buf_ptr b) \<Longrightarrow> j = i"
proof -
  show 1: "refs t (buf_ptr b) = 1"
    using refinesD(4) [OF assms(1)] assms(2,3) nth_mem unfolding owned_unique_def by metis
  show "buf_ptr b \<noteq> 0"
  proof
    assume "buf_ptr b = 0"
    then show False
      using 1 refs_update [OF assms(2), of None 0] assms(3) by (simp add: refs_def)
  qed
  show "j < length t \<Longrightarrow> points_to (t ! j) (buf_ptr b) \<Longrightarrow> j = i"
    using refs_unique [OF 1 assms(2), of j] assms(3) by simp
qed

lemma refines_owned_update:
  assumes R: "refines h t V" and i: "i < length t" and ti: "t ! i = Some (Owned b)"
    and D: "deref h' = (deref h)(buf_ptr b := None, buf_ptr b' := Some a)"
    and fresh: "buf_ptr b' = buf_ptr b \<or> deref h (buf_ptr b') = None"
    and a: "strong_count a = 1" "layout_ok a b'" "buf_len b' \<le> buf_capacity b'"
      "initialised (take (unat (buf_len b')) (alloc_data a)) = Some (ob_bytes v)"
    and v: "ob_capacity v = buf_capacity b'"
  shows "refines h' (t[i := Some (Owned b')]) (V[i := Some (OwnedV v)])"
proof -
  note u = owned_ptr_unique [OF R i ti]
  have refs': "refs (t[i := Some (Owned b')]) p + of_bool (buf_ptr b = p) =
      refs t p + of_bool (buf_ptr b' = p)" for p
    using refs_update [OF i, of "Some (Owned b')" p] ti by simp
  have fresh0: "buf_ptr b' = buf_ptr b \<or> refs t (buf_ptr b') = 0"
    using fresh counts_okD(2) [OF refinesD(3) [OF R], of "buf_ptr b'"] by auto
  have other: "p \<noteq> buf_ptr b \<and> p \<noteq> buf_ptr b'" if "j < length t" "j \<noteq> i" "points_to (t ! j) p" for j p
    using u(3) that fresh0 refs_positive [of j t p] by auto
  have b0: "buf_ptr b' \<noteq> 0"
    using fresh u(2) refinesD(6) [OF R] by (cases "buf_ptr b' = 0") auto
  have "cell_val h' (t[i := Some (Owned b')] ! j) (V[i := Some (OwnedV v)] ! j)"
    if j: "j < length t" for j
  proof (cases "j = i")
    case True
    then show ?thesis
      using i refinesD(1) [OF R] a v by (simp add: buffer_val_def D)
  next
    case False
    then show ?thesis
      using refinesD(5) [OF R j] other [OF j False] cell_val_cong [of "t ! j" h' h "V ! j"] i j
      by (simp add: D)
  qed
  then have "list_all2 (cell_val h') (t[i := Some (Owned b')]) (V[i := Some (OwnedV v)])"
    using refinesD(1) [OF R] by (simp add: list_all2_conv_all_nth)
  moreover have "counts_ok h' (t[i := Some (Owned b')])"
  proof (rule counts_okI)
    fix p assume "deref h' p = None"
    then show "refs (t[i := Some (Owned b')]) p = 0"
      using refs' [of p] u(1) counts_okD(2) [OF refinesD(3) [OF R], of p]
      by (auto simp: D split: if_splits)
  next
    fix p a' assume "deref h' p = Some a'"
    then show "unat (strong_count a') = refs (t[i := Some (Owned b')]) p \<and>
        0 < refs (t[i := Some (Owned b')]) p"
      using refs' [of p] u(1) fresh0 a(1) counts_okD(1) [OF refinesD(3) [OF R], of p a']
      by (cases "buf_ptr b' = buf_ptr b") (auto simp: D split: if_splits)
  qed
  moreover have "owned_unique (t[i := Some (Owned b')])"
    unfolding owned_unique_def in_set_conv_nth
  proof (intro allI impI, elim exE conjE)
    fix c j assume j: "j < length (t[i := Some (Owned b')])" "t[i := Some (Owned b')] ! j = Some (Owned c)"
    show "refs (t[i := Some (Owned b')]) (buf_ptr c) = 1"
    proof (cases "j = i")
      case True
      then show ?thesis
        using j i refs' [of "buf_ptr c"] u(1) fresh0 by (cases "buf_ptr b' = buf_ptr b") auto
    next
      case False
      then have "t ! j = Some (Owned c)" "j < length t" using j by auto
      then show ?thesis
        using other [of j "buf_ptr c"] False refs' [of "buf_ptr c"] owned_ptr_unique(1) [OF R]
        by auto
    qed
  qed
  moreover have "map_option alloc_data (deref h' 0) = Some []"
    using b0 u(2) refinesD(6) [OF R] by (simp add: D)
  ultimately show ?thesis by (simp add: refines_def)
qed

lemma handle_points_to:
  "t ! i = Some (Owned b) \<or> t ! i = Some (Shared b) \<Longrightarrow> points_to (t ! i) p \<longleftrightarrow> buf_ptr b = p"
  by auto

lemma handle_buffer_val:
  assumes "refines h t V" "i < length t" "t ! i = Some (Owned b) \<or> t ! i = Some (Shared b)"
  shows "\<exists>bs. buffer_val h b bs"
  using refinesD(5) [OF assms(1,2)] assms(3)
  by (cases "V ! i"; cases "the (V ! i)") auto

lemma refines_drop:
  assumes R: "refines h t V" and i: "i < length t"
    and ti: "t ! i = Some (Owned b) \<or> t ! i = Some (Shared b)"
  shows "\<exists>h'. inner_drop h b = Some h' \<and> refines h' (t[i := None]) (V[i := None])"
proof -
  note pt = handle_points_to [OF ti]
  obtain a where a: "deref h (buf_ptr b) = Some a" "layout_ok a b"
    using handle_buffer_val [OF R i ti] by (auto simp: buffer_val_def)
  note len = deref_Some_less [OF a(1)]
  have cnt: "unat (strong_count a) = refs t (buf_ptr b)" "0 < refs t (buf_ptr b)"
    using counts_okD(1) [OF refinesD(3) [OF R] a(1)] by auto
  have refs': "refs (t[i := None]) p = refs t p - of_bool (buf_ptr b = p)" for p
    using refs_update [OF i, of None p] by (simp add: pt)
  define h' where "h' = h[buf_ptr b := if strong_count a = 1 then None
    else Some (a\<lparr>strong_count := strong_count a - 1\<rparr>)]"
  have drop: "inner_drop h b = Some h'"
    using a by (simp add: inner_drop_def h'_def)
  have one: "strong_count a = 1 \<longleftrightarrow> refs t (buf_ptr b) = 1"
    using cnt(1) by (simp add: word_unat_eq_iff)
  have other: "p \<noteq> buf_ptr b" if "refs t (buf_ptr b) = 1" "j < length t" "j \<noteq> i" "points_to (t ! j) p" for j p
    using refs_unique [OF that(1) i, of j] that by (auto simp: pt)
  have d: "deref h' p = (if p = buf_ptr b then (if strong_count a = 1 then None
      else Some (a\<lparr>strong_count := strong_count a - 1\<rparr>)) else deref h p)" for p
    using len by (simp add: h'_def deref_update)
  have "cell_val h' (t[i := None] ! j) (V[i := None] ! j)" if j: "j < length t" for j
  proof (cases "j = i")
    case False
    then show ?thesis
      using refinesD(5) [OF R j] other [OF _ j False] one a(1)
        cell_val_cong [of "t ! j" h' h "V ! j"] i j
      by (auto simp: d)
  qed (use i refinesD(1) [OF R] in simp)
  then have "list_all2 (cell_val h') (t[i := None]) (V[i := None])"
    using refinesD(1) [OF R] by (simp add: list_all2_conv_all_nth)
  moreover have "counts_ok h' (t[i := None])"
  proof (rule counts_okI)
    fix p assume "deref h' p = None"
    then show "refs (t[i := None]) p = 0"
      using one counts_okD(2) [OF refinesD(3) [OF R], of p] by (auto simp: d refs' split: if_splits)
  next
    fix p a' assume "deref h' p = Some a'"
    moreover have "unat (strong_count a - 1) = unat (strong_count a) - 1"
      using cnt by (intro unat_minus_one) auto
    ultimately show "unat (strong_count a') = refs (t[i := None]) p \<and> 0 < refs (t[i := None]) p"
      using one cnt counts_okD(1) [OF refinesD(3) [OF R], of p a']
      by (auto simp: d refs' split: if_splits)
  qed
  moreover have "owned_unique (t[i := None])"
    unfolding owned_unique_def in_set_conv_nth
  proof (intro allI impI, elim exE conjE)
    fix c j assume c: "j < length (t[i := None])" "t[i := None] ! j = Some (Owned c)"
    then have "j \<noteq> i" by auto
    with c have j: "j < length t" "j \<noteq> i" "t ! j = Some (Owned c)" by simp_all
    then show "refs (t[i := None]) (buf_ptr c) = 1"
      using owned_ptr_unique(1) [OF R j(1,3)] owned_ptr_unique(3) [OF R j(1,3) i]
      by (auto simp: refs' pt)
  qed
  moreover have "map_option alloc_data (deref h' 0) = Some []"
  proof (cases "buf_ptr b = 0")
    case True
    then have "refs (t[i := None]) 0 = refs t 0 - 1" by (simp add: refs')
    then have "refs t 0 \<noteq> 1" by (auto simp: refs_def)
    then show ?thesis using refinesD(6) [OF R] one a(1) True by (simp add: d)
  qed (use refinesD(6) [OF R] in \<open>simp add: d\<close>)
  ultimately show ?thesis using drop by (auto simp: refines_def)
qed

lemma refines_clone:
  assumes R: "refines h t V" and b: "buffer_val h b bs"
    and shared: "\<And>c. Some (Owned c) \<in> set t \<Longrightarrow> buf_ptr c \<noteq> buf_ptr b"
    and room: "refs t (buf_ptr b) + 1 < 2 ^ 32"
  shows "\<exists>h'. inner_clone h b = Some (h', b) \<and>
    refines h' (t @ [Some (Shared b)]) (V @ [Some (SharedV bs)])"
proof -
  obtain a where a: "deref h (buf_ptr b) = Some a" using b by (auto simp: buffer_val_def)
  define h' where "h' = h[buf_ptr b := Some (a\<lparr>strong_count := strong_count a + 1\<rparr>)]"
  have d: "deref h' p = (if p = buf_ptr b then Some (a\<lparr>strong_count := strong_count a + 1\<rparr>)
      else deref h p)" for p
    using deref_Some_less [OF a] by (simp add: h'_def deref_update)
  have data: "map_option alloc_data (deref h' p) = map_option alloc_data (deref h p)" for p
    using a by (simp add: d)
  have cnt: "unat (strong_count a) = refs t (buf_ptr b)"
    using counts_okD(1) [OF refinesD(3) [OF R] a] by simp
  have "unat (strong_count a + 1) = refs t (buf_ptr b) + 1"
    using cnt room by (subst unat_add_lem [THEN iffD1]) auto
  then have "counts_ok h' (t @ [Some (Shared b)])"
    using counts_okD [OF refinesD(3) [OF R]] cnt
    by (intro counts_okI) (auto simp: d split: if_splits)
  moreover have "list_all2 (cell_val h') t V"
    by (rule list_all2_cell_val_cong [OF refinesD(2) [OF R] data])
  moreover have "buffer_val h' b bs"
    using b data by (simp cong: buffer_val_cong)
  moreover have "owned_unique (t @ [Some (Shared b)])"
    using refinesD(4) [OF R] shared unfolding owned_unique_def by simp metis
  moreover have "inner_clone h b = Some (h', b)"
    by (simp add: inner_clone_def a h'_def)
  moreover have "map_option alloc_data (deref h' 0) = Some []"
    using R by (simp add: data refines_def)
  ultimately show ?thesis
    by (simp add: refines_def list_all2_appendI)
qed

lemma refines_retag:
  assumes R: "refines h t V" and i: "i < length t"
    and pt: "\<And>p. points_to x p = points_to (t ! i) p" and val: "cell_val h x y"
    and own: "\<And>c. x = Some (Owned c) \<Longrightarrow> refs t (buf_ptr c) = 1"
  shows "refines h (t[i := x]) (V[i := y])"
proof -
  have refs: "refs (t[i := x]) p = refs t p" for p by (rule refs_same [OF i pt])
  have "owned_unique (t[i := x])"
    using refinesD(4) [OF R] own set_update_subset_insert [of t i x]
    by (auto simp: owned_unique_def refs)
  moreover have "list_all2 (cell_val h) (t[i := x]) (V[i := y])"
    by (rule list_all2_update_cong [OF refinesD(2) [OF R] val])
  ultimately show ?thesis
    using R counts_ok_cong [OF refs] by (simp add: refines_def)
qed

lemma refines_move:
  assumes R: "refines h (t[i := None] @ [x]) (V[i := None] @ [y])" and i: "i < length t"
    and len: "length V = length t"
  shows "refines h (t[i := x]) (V[i := y])"
proof -
  have refs: "refs (t[i := x]) p = refs (t[i := None] @ [x]) p" for p
    using refs_update [of i "t[i := None]" x p] i by simp
  have L: "list_all2 (cell_val h) (t[i := None]) (V[i := None])" "cell_val h x y"
    using refinesD(2) [OF R] len by (simp_all add: list_all2_append)
  have "list_all2 (cell_val h) (t[i := x]) (V[i := y])"
    using list_all2_update_cong [OF L, of i] by simp
  moreover have "owned_unique (t[i := x])"
    using refinesD(4) [OF R] set_update_subset_insert [of "t[i := None]" i x]
    by (auto simp: owned_unique_def refs)
  ultimately show ?thesis
    using R counts_ok_cong [OF refs] by (simp add: refines_def)
qed

section \<open>Growing and filling an owned buffer\<close>

lemma refines_resize:
  assumes R: "refines h t V" and i: "i < length t" and ti: "t ! i = Some (Owned b)"
    and vi: "V ! i = Some (OwnedV v)" and c: "buf_capacity b \<le> c"
  shows "\<exists>h' b'. inner_resize h b c = Some (h', b') \<and> buf_len b' = buf_len b \<and> buf_capacity b' = c \<and>
    refines h' (t[i := Some (Owned b')]) (V[i := Some (OwnedV (v\<lparr>ob_capacity := c\<rparr>))])"
proof -
  obtain a where a: "deref h (buf_ptr b) = Some a" "layout_ok a b" "buf_len b \<le> buf_capacity b"
      "initialised (take (unat (buf_len b)) (alloc_data a)) = Some (ob_bytes v)"
    using refinesD(5) [OF R i] ti vi by (auto simp: buffer_val_def)
  define n where "n = 16 * div_ceil (unat c) 16"
  define a' where "a' = a\<lparr>alloc_data := take n (alloc_data a) @ replicate (n - length (alloc_data a)) None\<rparr>"
  define b' where "b' = b\<lparr>buf_ptr := length h, buf_capacity := c\<rparr>"
  define h' where "h' = h[buf_ptr b := None] @ [Some a']"
  have le: "unat (buf_len b) \<le> length (alloc_data a)" "length (alloc_data a) \<le> n"
    using a(2,3) le_16_div_ceil [of "unat (buf_capacity b)"] mono_16_div_ceil [of "unat (buf_capacity b)" "unat c"] c
    by (simp_all add: layout_ok_def n_def word_le_nat_alt)
  have one: "strong_count a = 1"
    using counts_okD(1) [OF refinesD(3) [OF R] a(1)] owned_ptr_unique(1) [OF R i ti]
    by (simp add: word_unat_eq_iff)
  have D: "deref h' = (deref h)(buf_ptr b := None, buf_ptr b' := Some a')"
    using deref_Some_less [OF a(1)]
    by (auto simp: fun_eq_iff h'_def b'_def deref_append deref_update)
  have "refines h' (t[i := Some (Owned b')]) (V[i := Some (OwnedV (v\<lparr>ob_capacity := c\<rparr>))])"
    using a c le one
    by (intro refines_owned_update [OF R i ti D])
      (simp_all add: b'_def a'_def n_def layout_ok_def deref_def)
  moreover have "inner_resize h b c = Some (h', b')"
    using a by (simp add: inner_resize_def next_multiple_of_16 Let_def h'_def b'_def a'_def n_def)
  ultimately show ?thesis by (auto simp: b'_def)
qed

lemma initialised_take:
  "initialised xs = Some bs \<Longrightarrow> initialised (take k xs) = Some (take k bs)"
  by (induction xs arbitrary: bs k) (auto simp: take_Cons' split: Option.bind_splits)

lemma refines_grow:
  assumes R: "refines h t V" and i: "i < length t" and ti: "t ! i = Some (Owned b)"
    and vi: "V ! i = Some (OwnedV v)"
  shows "\<exists>h' b'. (if n > buf_capacity b
      then inner_resize h b (max n (saturating_mul (buf_capacity b) 2)) else Some (h, b)) = Some (h', b') \<and>
    buf_len b' = buf_len b \<and> n \<le> buf_capacity b' \<and>
    refines h' (t[i := Some (Owned b')]) (V[i := Some (OwnedV (v\<lparr>ob_capacity := ob_grow v n\<rparr>))])"
proof -
  have cap: "ob_capacity v = buf_capacity b"
    using refinesD(5) [OF R i] ti vi by simp
  show ?thesis
  proof (cases "n > buf_capacity b")
    case True
    then have "buf_capacity b \<le> max n (saturating_mul (buf_capacity b) 2)"
      by (auto simp: le_max_iff_disj)
    from refines_resize [OF R i ti vi this] True show ?thesis
      by (auto simp: ob_grow_def cap)
  next
    case False
    moreover have "v\<lparr>ob_capacity := ob_grow v n\<rparr> = v" using False by (simp add: ob_grow_def cap)
    ultimately show ?thesis
      using R i refinesD(1) [OF R] list_update_id [of t i] list_update_id [of V i]
      by (auto simp: ti vi not_less)
  qed
qed

lemma refines_fill:
  assumes R: "refines h t V" and i: "i < length t" and ti: "t ! i = Some (Owned b)"
    and vi: "V ! i = Some (OwnedV v)"
    and k: "k \<le> length (ob_bytes v)" and n: "k + length bs \<le> unat (buf_capacity b)"
  defines "n' \<equiv> of_nat (k + length bs)"
  shows "\<exists>h'. inner_write h b k bs = Some h' \<and> inner_set_len b n' = Some (b\<lparr>buf_len := n'\<rparr>) \<and>
    refines h' (t[i := Some (Owned (b\<lparr>buf_len := n'\<rparr>))])
      (V[i := Some (OwnedV (v\<lparr>ob_bytes := take k (ob_bytes v) @ bs\<rparr>))])"
proof -
  obtain a where a: "deref h (buf_ptr b) = Some a" "layout_ok a b" "buf_len b \<le> buf_capacity b"
      "initialised (take (unat (buf_len b)) (alloc_data a)) = Some (ob_bytes v)"
    and cap: "ob_capacity v = buf_capacity b"
    using refinesD(5) [OF R i] ti vi by (auto simp: buffer_val_def)
  have len: "k \<le> unat (buf_len b)"
    using k length_initialised [OF a(4)] by simp
  have fits: "k + length bs \<le> length (alloc_data a)"
    using n a(2) le_16_div_ceil [of "unat (buf_capacity b)"] by (simp add: layout_ok_def)
  have n': "unat n' = k + length bs"
    unfolding n'_def using n unat_less_exp [of "buf_capacity b"] by (intro unat_of_nat_less) simp
  define a' where "a' = a\<lparr>alloc_data :=
    take k (alloc_data a) @ map Some bs @ drop (k + length bs) (alloc_data a)\<rparr>"
  have "initialised (take k (alloc_data a)) = Some (take k (ob_bytes v))"
    using initialised_take [OF a(4), of k] len by (simp add: min_absorb1)
  then have ini: "initialised (take (unat n') (alloc_data a')) = Some (take k (ob_bytes v) @ bs)"
    using fits by (simp add: n' a'_def initialised_append)
  have one: "strong_count a = 1"
    using counts_okD(1) [OF refinesD(3) [OF R] a(1)] owned_ptr_unique(1) [OF R i ti]
    by (simp add: word_unat_eq_iff)
  have D: "deref (h[buf_ptr b := Some a']) =
      (deref h)(buf_ptr b := None, buf_ptr (b\<lparr>buf_len := n'\<rparr>) := Some a')"
    using deref_Some_less [OF a(1)] by (auto simp: fun_eq_iff deref_update)
  have "refines (h[buf_ptr b := Some a']) (t[i := Some (Owned (b\<lparr>buf_len := n'\<rparr>))])
      (V[i := Some (OwnedV (v\<lparr>ob_bytes := take k (ob_bytes v) @ bs\<rparr>))])"
    using a(2) fits one n ini cap
    by (intro refines_owned_update [OF R i ti D])
      (simp_all add: layout_ok_def a'_def word_le_nat_alt n')
  moreover have "inner_write h b k bs = Some (h[buf_ptr b := Some a'])"
    using a(1) fits by (simp add: inner_write_def a'_def)
  ultimately show ?thesis
    using n by (simp add: inner_set_len_def word_le_nat_alt n')
qed

lemma refines_length_less:
  assumes "refines h t V" "i < length t" "V ! i = Some (OwnedV v) \<or> V ! i = Some (SharedV (ob_bytes v))"
  shows "length (ob_bytes v) < 2 ^ 32"
proof -
  obtain b where "buffer_val h b (ob_bytes v)"
    using refinesD(5) [OF assms(1,2)] assms(3) by (cases "t ! i"; cases "the (t ! i)") auto
  from buffer_val_len [OF this] show ?thesis using unat_less_exp [of "buf_len b"] by simp
qed

lemma refines_copy_from_slice:
  assumes R: "refines h t V" and i: "i < length t" and ti: "t ! i = Some (Owned b)"
    and vi: "V ! i = Some (OwnedV v)" and bs: "length bs < 2 ^ 32"
  shows "\<exists>h' b' v'. owned_copy_from_slice h b bs = Some (h', b') \<and> ob_copy_from_slice v bs = Some v' \<and>
    refines h' (t[i := Some (Owned b')]) (V[i := Some (OwnedV v')])"
proof -
  define n where "n = (of_nat (length bs) :: u32)"
  have n: "unat n = length bs" unfolding n_def using bs by (simp add: unat_of_nat_less)
  obtain h1 b1 where 1: "(if n > buf_capacity b
      then inner_resize h b (max n (saturating_mul (buf_capacity b) 2)) else Some (h, b)) = Some (h1, b1)"
    "n \<le> buf_capacity b1"
    "refines h1 (t[i := Some (Owned b1)]) (V[i := Some (OwnedV (v\<lparr>ob_capacity := ob_grow v n\<rparr>))])"
    using refines_grow [OF R i ti vi, of n] by blast
  obtain h2 where 2: "inner_write h1 b1 0 bs = Some h2" "inner_set_len b1 n = Some (b1\<lparr>buf_len := n\<rparr>)"
    "refines h2 (t[i := Some (Owned (b1\<lparr>buf_len := n\<rparr>))])
      (V[i := Some (OwnedV \<lparr>ob_bytes = bs, ob_capacity = ob_grow v n\<rparr>)])"
    using refines_fill [OF 1(3), of i b1 _ 0 bs] 1(2) i refinesD(1) [OF R] n
    by (auto simp: n_def word_le_nat_alt)
  have "owned_copy_from_slice h b bs = Some (h2, b1\<lparr>buf_len := n\<rparr>)"
    unfolding owned_copy_from_slice_def n_def [symmetric] Let_def 1(1) using bs 2(1,2) by simp
  then show ?thesis
    using bs 2(3) by (simp add: ob_copy_from_slice_def n_def)
qed

lemma refines_append:
  assumes R: "refines h t V" and i: "i < length t" and ti: "t ! i = Some (Owned b)"
    and vi: "V ! i = Some (OwnedV v)"
  shows "\<exists>h' b' v' r. owned_append h b bs = Some (h', b', r) \<and> ob_append v bs = (v', r) \<and>
    refines h' (t[i := Some (Owned b')]) (V[i := Some (OwnedV v')])"
proof -
  have val: "buffer_val h b (ob_bytes v)"
    using refinesD(5) [OF R i] ti vi by simp
  note len = buffer_val_len [OF val]
  have same: "refines h (t[i := Some (Owned b)]) (V[i := Some (OwnedV v)])"
    using R ti vi list_update_id [of t i] list_update_id [of V i] by simp
  show ?thesis
  proof (cases "length (ob_bytes v) + length bs < 2 ^ 32")
    case False
    then show ?thesis
      using same len by (auto simp: owned_append_def ob_append_def checked_add_def unat_of_nat_less not_less)
  next
    case True
    define n where "n = (of_nat (length (ob_bytes v) + length bs) :: u32)"
    have n: "unat n = length (ob_bytes v) + length bs"
      unfolding n_def using True by (intro unat_of_nat_less) simp
    have add: "checked_add (buf_len b) (of_nat (length bs)) = Some n"
      using True len by (simp add: checked_add_def unat_of_nat_less n_def)
    obtain h1 b1 where 1: "(if n > buf_capacity b
        then inner_resize h b (max n (saturating_mul (buf_capacity b) 2)) else Some (h, b)) = Some (h1, b1)"
      "buf_len b1 = buf_len b" "n \<le> buf_capacity b1"
      "refines h1 (t[i := Some (Owned b1)]) (V[i := Some (OwnedV (v\<lparr>ob_capacity := ob_grow v n\<rparr>))])"
      using refines_grow [OF R i ti vi, of n] by blast
    obtain h2 where 2: "inner_write h1 b1 (unat (buf_len b)) bs = Some h2"
      "inner_set_len b1 n = Some (b1\<lparr>buf_len := n\<rparr>)"
      "refines h2 (t[i := Some (Owned (b1\<lparr>buf_len := n\<rparr>))])
        (V[i := Some (OwnedV \<lparr>ob_bytes = ob_bytes v @ bs, ob_capacity = ob_grow v n\<rparr>)])"
      using refines_fill [OF 1(4), of i b1 _ "length (ob_bytes v)" bs] 1(2,3) i refinesD(1) [OF R] n len
      by (auto simp: n_def word_le_nat_alt)
    have "owned_append h b bs = Some (h2, b1\<lparr>buf_len := n\<rparr>, True)"
      unfolding owned_append_def add option.case 1(1) using True 1(2) 2(1,2) by simp
    moreover have "ob_append v bs = (\<lparr>ob_bytes = ob_bytes v @ bs, ob_capacity = ob_grow v n\<rparr>, True)"
      using True by (simp add: ob_append_def n_def)
    ultimately show ?thesis using 2(3) by blast
  qed
qed

lemma refines_ensure_capacity:
  assumes R: "refines h t V" and i: "i < length t" and ti: "t ! i = Some (Owned b)"
    and vi: "V ! i = Some (OwnedV v)"
  shows "\<exists>h' b'. owned_ensure_capacity h b c = Some (h', b') \<and>
    refines h' (t[i := Some (Owned b')]) (V[i := Some (OwnedV (ob_ensure_capacity v c))])"
proof (cases "c > buf_capacity b")
  case True
  then have "max (ob_capacity v) c = c" using refinesD(5) [OF R i] ti vi by simp
  then show ?thesis
    using refines_resize [OF R i ti vi less_imp_le [OF True]] True
    by (auto simp: owned_ensure_capacity_def ob_ensure_capacity_def)
next
  case False
  then have "max (ob_capacity v) c = ob_capacity v" using refinesD(5) [OF R i] ti vi by simp
  then have "ob_ensure_capacity v c = v" by (simp add: ob_ensure_capacity_def)
  then show ?thesis
    using False R ti vi list_update_id [of t i] list_update_id [of V i]
    by (simp add: owned_ensure_capacity_def)
qed

lemma refines_from_bytes:
  assumes R: "refines h t V" and bs: "length bs < 2 ^ 32"
  shows "\<exists>h' b v. owned_from_bytes h bs = Some (h', b) \<and>
    ob_copy_from_slice (ob_with_capacity 0) bs = Some v \<and>
    refines h' (t @ [Some (Owned b)]) (V @ [Some (OwnedV v)])"
proof -
  obtain h1 b1 where 1: "inner_allocate h 0 = (h1, b1)" by fastforce
  note R1 = refines_allocate [OF R 1]
  show ?thesis
    using refines_copy_from_slice [OF R1, of "length t" b1 _ bs] bs refinesD(1) [OF R] 1
    by (auto simp: owned_from_bytes_def owned_with_capacity_def nth_append list_update_append)
qed

lemma refines_owned_clone:
  assumes R: "refines h t V" and i: "i < length t" and ti: "t ! i = Some (Owned b)"
    and vi: "V ! i = Some (OwnedV v)"
  shows "\<exists>h' b'. owned_clone h b = Some (h', b') \<and>
    refines h' (t @ [Some (Owned b')]) (V @ [Some (OwnedV v)])"
proof -
  obtain h1 b1 where 1: "inner_allocate h (buf_capacity b) = (h1, b1)" by fastforce
  note R1 = refines_allocate [OF R 1]
  have val: "buffer_val h b (ob_bytes v)" "ob_capacity v = buf_capacity b"
    using refinesD(5) [OF R i] ti vi by auto
  have val1: "buffer_val h1 b (ob_bytes v)"
    using refinesD(5) [OF R1, of i] i ti vi refinesD(1) [OF R] by (simp add: nth_append)
  have len: "length (ob_bytes v) < 2 ^ 32"
    using refines_length_less [OF R i] vi by blast
  have "unat (buf_len b) \<le> unat (buf_capacity b)"
    using val(1) by (auto simp: buffer_val_def word_le_nat_alt)
  then have "ob_copy_from_slice (ob_with_capacity (buf_capacity b)) (ob_bytes v) = Some v"
    using len val(2) buffer_val_len [OF val(1)]
    by (cases v) (auto simp: ob_copy_from_slice_def ob_with_capacity_def ob_grow_def word_less_nat_alt)
  then show ?thesis
    using refines_copy_from_slice [OF R1, of "length t" b1 _ "ob_bytes v"] len refinesD(1) [OF R] 1
      buffer_val_as_slice [OF val1]
    by (auto simp: owned_clone_def owned_with_capacity_def nth_append list_update_append)
qed

lemma refines_into_owned:
  assumes R: "refines h t V" and i: "i < length t" and ti: "t ! i = Some (Shared b)"
    and vi: "V ! i = Some (SharedV bs)"
  shows "\<exists>h' b'. shared_into_owned h b = Some (h', b') \<and>
    refines h' (t[i := Some (Owned b')])
      (V[i := Some (OwnedV \<lparr>ob_bytes = bs, ob_capacity = buf_capacity b'\<rparr>)])"
proof -
  have val: "buffer_val h b bs" using refinesD(5) [OF R i] ti vi by simp
  then obtain a where a: "deref h (buf_ptr b) = Some a" by (auto simp: buffer_val_def)
  show ?thesis
  proof (cases "strong_count a = 1")
    case True
    then have "refs t (buf_ptr b) = 1"
      using counts_okD(1) [OF refinesD(3) [OF R] a] by simp
    then have "refines h (t[i := Some (Owned b)])
        (V[i := Some (OwnedV \<lparr>ob_bytes = bs, ob_capacity = buf_capacity b\<rparr>)])"
      using val ti by (intro refines_retag [OF R i]) auto
    then show ?thesis using True a by (auto simp: shared_into_owned_def)
  next
    case False
    have len: "length bs < 2 ^ 32"
      using refines_length_less [OF R i, of "\<lparr>ob_bytes = bs, ob_capacity = 0\<rparr>"] vi by simp
    obtain h1 n v where 1: "owned_from_bytes h bs = Some (h1, n)"
      "ob_copy_from_slice (ob_with_capacity 0) bs = Some v"
      "refines h1 (t @ [Some (Owned n)]) (V @ [Some (OwnedV v)])"
      using refines_from_bytes [OF R len] by blast
    have v: "v = \<lparr>ob_bytes = bs, ob_capacity = buf_capacity n\<rparr>"
      using 1(2) refinesD(5) [OF 1(3), of "length t"] refinesD(1) [OF R] len
      by (auto simp: ob_copy_from_slice_def nth_append)
    obtain h2 where 2: "inner_drop h1 b = Some h2"
      "refines h2 ((t @ [Some (Owned n)])[i := None]) ((V @ [Some (OwnedV v)])[i := None])"
      using refines_drop [OF 1(3), of i b] i ti by (auto simp: nth_append)
    have "refines h2 (t[i := Some (Owned n)]) (V[i := Some (OwnedV v)])"
      using 2(2) i refinesD(1) [OF R] by (intro refines_move) (simp_all add: list_update_append)
    then show ?thesis
      using False a buffer_val_as_slice [OF val] 1(1) 2(1) v by (simp add: shared_into_owned_def)
  qed
qed

section \<open>Programs on the heap compute what they compute on values\<close>

primrec op_fits :: "buffer_op \<Rightarrow> bool" where
  "op_fits (WithCapacity c) = True"
| "op_fits (OwnedFromBytes bs) = (length bs < 2 ^ 32)"
| "op_fits (SharedFromBytes bs) = (length bs < 2 ^ 32)"
| "op_fits SharedDefault = True"
| "op_fits (EnsureCapacity i c) = True"
| "op_fits (CopyFromSlice i bs) = (length bs < 2 ^ 32)"
| "op_fits (AppendBytes i bs) = True"
| "op_fits (IntoShared i) = True"
| "op_fits (IntoOwned i) = True"
| "op_fits (CloneOwned i) = True"
| "op_fits (CloneShared i) = True"
| "op_fits (DropBuffer i) = True"

lemma refs_le: "refs t p \<le> length t + 1"
  using length_filter_le [of "\<lambda>x. points_to x p" t]
  by (simp add: refs_def le_SucI)

lemma refines_cell_cases:
  assumes "refines h t V"
  obtains (none) "cell t i = None" "cell V i = None"
  | (owned) b v where "i < length t" "t ! i = Some (Owned b)" "V ! i = Some (OwnedV v)"
      "cell t i = Some (Owned b)" "cell V i = Some (OwnedV v)"
  | (shared) b bs where "i < length t" "t ! i = Some (Shared b)" "V ! i = Some (SharedV bs)"
      "cell t i = Some (Shared b)" "cell V i = Some (SharedV bs)"
proof (cases "i < length t")
  case True
  then have "cell_val h (t ! i) (V ! i)" by (rule refinesD(5) [OF assms])
  then show ?thesis
    using True refinesD(1) [OF assms] that
    by (cases "(h, t ! i, V ! i)" rule: cell_val.cases) (auto simp: cell_def)
qed (use refinesD(1) [OF assms] that in \<open>auto simp: cell_def\<close>)

definition op_refines :: "buffer_op \<Rightarrow> heap \<Rightarrow> handle option list \<Rightarrow> buffer_value option list \<Rightarrow> bool" where
  "op_refines p h t V \<longleftrightarrow> (\<exists>h' t' c V'. exec_op p (h, t) = Some (h', t') \<and>
     value_op p c V = Some V' \<and> refines h' t' V' \<and> length t' \<le> length t + 1)"

lemma exec_op_create:
  assumes R: "refines h t V" and fits: "length bs < 2 ^ 32" and room: "length t + 2 < 2 ^ 32"
  shows "op_refines (WithCapacity c) h t V" "op_refines (OwnedFromBytes bs) h t V"
    "op_refines (SharedFromBytes bs) h t V" "op_refines SharedDefault h t V"
proof -
  obtain h1 b1 where 1: "inner_allocate h c = (h1, b1)" by fastforce
  show "op_refines (WithCapacity c) h t V"
    using refines_allocate [OF R 1] 1 by (simp add: op_refines_def owned_with_capacity_def)
  obtain h2 b2 v where 2: "owned_from_bytes h bs = Some (h2, b2)"
    "ob_copy_from_slice (ob_with_capacity 0) bs = Some v"
    "refines h2 (t @ [Some (Owned b2)]) (V @ [Some (OwnedV v)])"
    using refines_from_bytes [OF R fits] by blast
  then show "op_refines (OwnedFromBytes bs) h t V"
    by (simp add: op_refines_def)
  have "buffer_val h2 b2 (ob_bytes v)" "refs (t @ [Some (Owned b2)]) (buf_ptr b2) = 1"
    using refinesD(5) [OF 2(3), of "length t"] owned_ptr_unique(1) [OF 2(3), of "length t" b2] refinesD(1) [OF R]
    by (simp_all add: nth_append)
  then have "refines h2 ((t @ [Some (Owned b2)])[length t := Some (Shared b2)])
      ((V @ [Some (OwnedV v)])[length t := Some (SharedV (ob_bytes v))])"
    by (intro refines_retag [OF 2(3)]) simp_all
  then show "op_refines (SharedFromBytes bs) h t V"
    using 2(1,2) refinesD(1) [OF R]
    by (simp add: op_refines_def shared_from_bytes_def owned_into_shared_def ob_into_shared_def list_update_append)
  obtain a where "deref h 0 = Some a" "alloc_data a = []" using refinesD(6) [OF R] by blast
  then have "buffer_val h EMPTY_SHARED_ALIGNED_BUFFER []"
    by (simp add: EMPTY_SHARED_ALIGNED_BUFFER_def buffer_val_def layout_ok_def div_ceil_def)
  moreover have "buf_ptr c \<noteq> 0" if "Some (Owned c) \<in> set t" for c
    using that owned_ptr_unique(2) [OF R] by (metis in_set_conv_nth)
  ultimately have "\<exists>h'. shared_default h = Some (h', EMPTY_SHARED_ALIGNED_BUFFER) \<and>
      refines h' (t @ [Some (Shared EMPTY_SHARED_ALIGNED_BUFFER)]) (V @ [Some (SharedV [])])"
    unfolding shared_default_def using room refs_le [of t 0]
    by (intro refines_clone [OF R]) (auto simp: EMPTY_SHARED_ALIGNED_BUFFER_def)
  then show "op_refines SharedDefault h t V"
    by (auto simp: op_refines_def)
qed

lemma exec_op_none:
  assumes R: "refines h t V" and c: "cell t i = None" "cell V i = None"
    and p: "p \<in> {EnsureCapacity i c, CopyFromSlice i bs, AppendBytes i bs, IntoShared i,
      IntoOwned i, CloneOwned i, CloneShared i, DropBuffer i}"
  shows "op_refines p h t V"
proof -
  have "i < length V \<Longrightarrow> V[i := None] = V"
    using c(2) list_update_id [of V i] by (simp add: cell_def)
  then have "exec_op p (h, t) = Some (h, t) \<and> value_op p 0 V = Some V"
    using p c by auto
  then show ?thesis using R by (auto simp: op_refines_def)
qed

lemma exec_op_owned:
  assumes R: "refines h t V" and i: "i < length t" and ti: "t ! i = Some (Owned b)"
    and vi: "V ! i = Some (OwnedV v)"
  shows "op_refines (EnsureCapacity i c) h t V"
    "length bs < 2 ^ 32 \<Longrightarrow> op_refines (CopyFromSlice i bs) h t V"
    "op_refines (AppendBytes i cs) h t V" "op_refines (IntoShared i) h t V"
    "op_refines (IntoOwned i) h t V" "op_refines (CloneOwned i) h t V"
    "op_refines (CloneShared i) h t V" "op_refines (DropBuffer i) h t V"
proof -
  have c: "cell t i = Some (Owned b)" "cell V i = Some (OwnedV v)"
    using i ti vi refinesD(1) [OF R] by (simp_all add: cell_def)
  note simps = op_refines_def c
  show "op_refines (EnsureCapacity i c) h t V"
    using refines_ensure_capacity [OF R i ti vi, of c] by (auto simp: simps)
  show "op_refines (CopyFromSlice i bs) h t V" if "length bs < 2 ^ 32"
    using refines_copy_from_slice [OF R i ti vi that] by (auto simp: simps)
  show "op_refines (AppendBytes i cs) h t V"
    using refines_append [OF R i ti vi, of cs] by (auto simp: simps)
  have "refines h (t[i := Some (Shared b)]) (V[i := Some (SharedV (ob_bytes v))])"
    using refinesD(5) [OF R i] ti vi by (intro refines_retag [OF R i]) auto
  then show "op_refines (IntoShared i) h t V"
    by (simp add: simps owned_into_shared_def ob_into_shared_def)
  show "op_refines (CloneOwned i) h t V"
    using refines_owned_clone [OF R i ti vi] by (auto simp: simps)
  show "op_refines (DropBuffer i) h t V"
    using refines_drop [OF R i, of b] ti i refinesD(1) [OF R] by (auto simp: simps)
qed (use R in \<open>auto simp: op_refines_def cell_def i ti vi refinesD(1) [OF R]\<close>)

lemma exec_op_shared:
  assumes R: "refines h t V" and i: "i < length t" and ti: "t ! i = Some (Shared b)"
    and vi: "V ! i = Some (SharedV cs)" and room: "length t + 2 < 2 ^ 32"
  shows "op_refines (IntoOwned i) h t V" "op_refines (CloneShared i) h t V"
    "op_refines (DropBuffer i) h t V"
    "p \<in> {EnsureCapacity i c, CopyFromSlice i bs, AppendBytes i bs, IntoShared i, CloneOwned i} \<Longrightarrow>
      op_refines p h t V"
proof -
  have c: "cell t i = Some (Shared b)" "cell V i = Some (SharedV cs)"
    using i ti vi refinesD(1) [OF R] by (simp_all add: cell_def)
  note simps = op_refines_def c
  obtain h' b' where "shared_into_owned h b = Some (h', b')"
    "refines h' (t[i := Some (Owned b')])
      (V[i := Some (OwnedV \<lparr>ob_bytes = cs, ob_capacity = buf_capacity b'\<rparr>)])"
    using refines_into_owned [OF R i ti vi] by blast
  then show "op_refines (IntoOwned i) h t V"
    unfolding op_refines_def
    by - (rule exI [of _ h'], rule exI [of _ "t[i := Some (Owned b')]"],
        rule exI [of _ "buf_capacity b'"], simp add: c)
  have val: "buffer_val h b cs" using refinesD(5) [OF R i] ti vi by simp
  have "buf_ptr c \<noteq> buf_ptr b" if c: "Some (Owned c) \<in> set t" for c
  proof
    assume eq: "buf_ptr c = buf_ptr b"
    obtain j where j: "j < length t" "t ! j = Some (Owned c)" using c by (auto simp: in_set_conv_nth)
    show False using owned_ptr_unique(3) [OF R j, of i] i ti j eq by simp
  qed
  then have "\<exists>h'. inner_clone h b = Some (h', b) \<and>
      refines h' (t @ [Some (Shared b)]) (V @ [Some (SharedV cs)])"
    using room refs_le [of t "buf_ptr b"] by (intro refines_clone [OF R val]) auto
  then show "op_refines (CloneShared i) h t V"
    by (auto simp: simps)
  show "op_refines (DropBuffer i) h t V"
    using refines_drop [OF R i, of b] ti i refinesD(1) [OF R] by (auto simp: simps)
  show "p \<in> {EnsureCapacity i c, CopyFromSlice i bs, AppendBytes i bs, IntoShared i, CloneOwned i} \<Longrightarrow>
      op_refines p h t V"
    using R by (auto simp: simps)
qed

lemma exec_op_refines:
  assumes R: "refines h t V" and fits: "op_fits p" and room: "length t + 2 < 2 ^ 32"
  shows "op_refines p h t V"
proof -
  have at: "op_refines p h t V" if i: "p \<in> {EnsureCapacity i c, CopyFromSlice i bs, AppendBytes i bs,
      IntoShared i, IntoOwned i, CloneOwned i, CloneShared i, DropBuffer i}" for i c bs
    using R
  proof (cases rule: refines_cell_cases [where i = i])
    case none
    then show ?thesis using exec_op_none [OF R none i] by simp
  next
    case (owned b v)
    then show ?thesis using exec_op_owned [OF R owned(1-3)] i fits by auto
  next
    case (shared b cs)
    then show ?thesis using exec_op_shared [OF R shared(1-3) room] i by auto
  qed
  show ?thesis
  proof (cases p)
    case (WithCapacity c)
    then show ?thesis using exec_op_create(1) [OF R, of "[]"] room by simp
  next
    case (OwnedFromBytes bs)
    then show ?thesis using exec_op_create(2) [OF R, of bs] fits room by simp
  next
    case (SharedFromBytes bs)
    then show ?thesis using exec_op_create(3) [OF R, of bs] fits room by simp
  next
    case SharedDefault
    then show ?thesis using exec_op_create(4) [OF R, of "[]"] room by simp
  qed (rule at, simp)+
qed

lemma static_refines: "refines static_heap [] []"
proof -
  have "deref static_heap p = (if p = 0 then Some \<lparr>strong_count = 1, alloc_data = []\<rparr> else None)" for p
    by (simp add: deref_def static_heap_def)
  then show ?thesis
    by (auto simp: refines_def counts_ok_def owned_unique_def refs_def)
qed

lemma exec_ops_refines:
  assumes "refines h t V" "list_all op_fits ps" "length t + length ps + 2 < 2 ^ 32"
  shows "\<exists>h' t' V'. exec_ops ps (h, t) = Some (h', t') \<and> value_ops ps V V' \<and> refines h' t' V'"
  using assms
proof (induction ps arbitrary: h t V)
  case Nil
  then show ?case by (auto intro: value_ops_Nil)
next
  case (Cons p ps)
  then have "op_refines p h t V" by (intro exec_op_refines) auto
  then obtain h' t' c V' where 1: "exec_op p (h, t) = Some (h', t')" "value_op p c V = Some V'"
    "refines h' t' V'" "length t' \<le> length t + 1"
    by (auto simp: op_refines_def)
  then obtain h'' t'' V'' where "exec_ops ps (h', t') = Some (h'', t'')" "value_ops ps V' V''"
    "refines h'' t'' V''"
    using Cons.IH [OF 1(3)] Cons.prems by auto
  then show ?case using 1(1,2) by (auto intro: value_ops_Cons)
qed

text \<open>
  The contents a program sees through its handles, and the number of live allocations.
\<close>

fun handle_bytes :: "heap \<Rightarrow> handle \<Rightarrow> u8 list option" where
  "handle_bytes h (Owned b) = inner_as_slice h b"
| "handle_bytes h (Shared b) = inner_as_slice h b"

fun value_bytes :: "buffer_value \<Rightarrow> u8 list" where
  "value_bytes (OwnedV v) = ob_bytes v"
| "value_bytes (SharedV bs) = bs"

definition live_allocations :: "heap \<Rightarrow> nat" where
  "live_allocations h = length (filter (\<lambda>a. a \<noteq> None) h)"

lemma refines_bytes:
  assumes "refines h t V"
  shows "map (map_option (handle_bytes h)) t = map (map_option (Some \<circ> value_bytes)) V"
proof -
  have "map_option (handle_bytes h) x = map_option (Some \<circ> value_bytes) y" if "cell_val h x y" for x y
    using that by (cases "(h, x, y)" rule: cell_val.cases) (auto dest: buffer_val_as_slice)
  with refinesD(2) [OF assms] show ?thesis
    by (induction rule: list_all2_induct) auto
qed

lemma refines_no_leak:
  assumes "refines h t V" "\<forall>x \<in> set t. x = None"
  shows "live_allocations h = 1"
proof -
  have refs: "refs t p = of_bool (p = 0)" for p
    using assms(2) by (auto simp: refs_def filter_empty_conv)
  have "h ! p \<noteq> None \<longleftrightarrow> p = 0" if "p < length h" for p
    using counts_okD [OF refinesD(3) [OF assms(1)], of p] refs [of p] that
    by (cases "h ! p") (auto simp: deref_def)
  moreover have "0 < length h" using refinesD(6) [OF assms(1)] deref_Some_less by blast
  ultimately have "{p. p < length h \<and> h ! p \<noteq> None} = {0}" by auto
  then show ?thesis by (simp add: live_allocations_def length_filter_conv_card)
qed

section \<open>Properties\<close>

text \<open>
  C11: the reference-counted buffers are memory safe and implement buffer values. Every program
  over the buffer API (creating, growing, filling, cloning, sharing, unsharing and dropping
  buffers in any order), in which no byte string passed in is longer than a \<open>u32\<close> can count
  and which is short enough for the \<open>u32\<close> reference counters, runs to the end on the heap: it
  never touches freed memory, reads uninitialised bytes, writes out of bounds or frees with a
  wrong layout. The bytes seen through every handle are those of the same program on values, in
  which buffers do not share memory. Once all its handles are dropped, only the static empty
  buffer is still allocated.
\<close>

theorem buffers_implement_values:
  assumes "list_all op_fits ps" and "length ps + 2 < 2 ^ 32"
  shows "\<exists>h t V. exec_ops ps (static_heap, []) = Some (h, t) \<and> value_ops ps [] V \<and>
    map (map_option (handle_bytes h)) t = map (map_option (Some \<circ> value_bytes)) V \<and>
    ((\<forall>x \<in> set t. x = None) \<longrightarrow> live_allocations h = 1)"
proof -
  obtain h t V where "exec_ops ps (static_heap, []) = Some (h, t)" "value_ops ps [] V" "refines h t V"
    using exec_ops_refines [OF static_refines assms(1)] assms(2) by auto
  then show ?thesis using refines_bytes refines_no_leak by blast
qed

definition buffer_demo :: "buffer_op list" where
  "buffer_demo = [SharedFromBytes [1, 2, 3], CloneShared 0, IntoOwned 0, AppendBytes 0 [4],
    CloneOwned 0, IntoShared 0, DropBuffer 2, SharedDefault]"

theorem buffers_implement_values_witness:
  "\<exists>h t V. exec_ops buffer_demo (static_heap, []) = Some (h, t) \<and> value_ops buffer_demo [] V \<and>
    map (map_option (handle_bytes h)) t = map (map_option (Some \<circ> value_bytes)) V \<and>
    ((\<forall>x \<in> set t. x = None) \<longrightarrow> live_allocations h = 1) \<and>
    map (map_option (handle_bytes h)) t =
      [Some (Some [1, 2, 3, 4]), Some (Some [1, 2, 3]), None, Some (Some [])]"
proof -
  have "case exec_ops buffer_demo (static_heap, []) of None \<Rightarrow> False
      | Some (h, t) \<Rightarrow> map (map_option (handle_bytes h)) t =
        [Some (Some [1, 2, 3, 4]), Some (Some [1, 2, 3]), None, Some (Some [])]"
    by (simp add: buffer_demo_def static_heap_def heap_op_defs cell_def)
  moreover have "list_all op_fits buffer_demo" "length buffer_demo + 2 < 2 ^ 32"
    by (simp_all add: buffer_demo_def)
  ultimately show ?thesis using buffers_implement_values [of buffer_demo] by fastforce
qed

end
