(* ===== verification/Slots.thy ===== *)
theory Slots
  imports Address Aligned_Buffer
begin

text \<open>
  The storage slots of the executor (\<^verbatim>\<open>crates/execution/ab-executor-slots/src/lib.rs\<close>):
  a collection of slots, each with a state that records who is accessing it, and nested views of
  it that are created for every contract call and commit or reset their changes.

  A \<open>NestedSlots\<close> borrows the shared \<open>Inner\<close>; here the borrowed state is passed explicitly and
  a nested view is only what it owns itself, the position in the access list where it began.
  Panics (\<open>expect\<close>, \<open>unreachable!\<close>, an out-of-range \<open>drain\<close>) are the value \<open>None\<close> of the
  outermost \<open>option\<close>. Buffers are the values of \<^verbatim>\<open>Aligned_Buffer\<close>.
\<close>

section \<open>Data\<close>

record SlotKey =
  key_owner :: Address
  key_contract :: Address

type_synonym SlotIndex = nat

datatype Slot =
    ReadOnlySlot SlotKey SharedAlignedBuffer
  | ReadWriteSlot SlotKey SharedAlignedBuffer

primrec is_null_contract :: "Slot \<Rightarrow> bool" where
  "is_null_contract (ReadOnlySlot key _) \<longleftrightarrow> key_contract key = NULL"
| "is_null_contract (ReadWriteSlot key _) \<longleftrightarrow> key_contract key = NULL"

datatype SlotState =
    Original SharedAlignedBuffer
  | OriginalReadOnly SharedAlignedBuffer
  | Modified SharedAlignedBuffer
  | ModifiedReadOnly SharedAlignedBuffer
  | OriginalReadWrite OwnedAlignedBuffer SharedAlignedBuffer
  | ModifiedReadWrite OwnedAlignedBuffer SharedAlignedBuffer

record SlotAccess =
  slot_index :: SlotIndex
  read_write :: bool

record Inner =
  slots :: "(SlotKey \<times> SlotState) list"
  slot_access :: "SlotAccess list"
  new_contracts :: "Address list"

datatype NestedSlots =
    NestedReadWrite (parent_slot_access_len: nat) (original_parent: bool)
  | NestedReadOnly

section \<open>The collection\<close>

definition slots_new :: "Slot list \<Rightarrow> Inner" where
  "slots_new ss =
    \<lparr>slots = List.map_filter (\<lambda>slot.
       if is_null_contract slot then None
       else Some (case slot of
           ReadOnlySlot key buffer \<Rightarrow> (key, OriginalReadOnly buffer)
         | ReadWriteSlot key buffer \<Rightarrow> (key, Original buffer))) ss,
     slot_access = [], new_contracts = []\<rparr>"

definition slots_new_nested_rw :: NestedSlots where
  "slots_new_nested_rw = NestedReadWrite 0 True"

definition slots_new_nested_ro :: NestedSlots where
  "slots_new_nested_ro = NestedReadOnly"

definition slots_add_new_contract :: "Address \<Rightarrow> Inner \<Rightarrow> bool \<times> Inner" where
  "slots_add_new_contract own inner =
    (if own \<in> set (new_contracts inner) then (False, inner)
     else (True, inner\<lparr>new_contracts := new_contracts inner @ [own]\<rparr>))"

primrec iter_slot :: "SlotState \<Rightarrow> SharedAlignedBuffer option" where
  "iter_slot (Original buffer) = Some buffer"
| "iter_slot (OriginalReadOnly _) = None"
| "iter_slot (Modified buffer) = Some buffer"
| "iter_slot (ModifiedReadOnly _) = None"
| "iter_slot (OriginalReadWrite _ _) = None"
| "iter_slot (ModifiedReadWrite _ _) = None"

primrec slots_iter_list ::
  "(SlotKey \<times> SlotState) list \<Rightarrow> (SlotKey \<times> SharedAlignedBuffer) list option" where
  "slots_iter_list [] = Some []"
| "slots_iter_list (x # xs) =
    do { b \<leftarrow> iter_slot (snd x); bs \<leftarrow> slots_iter_list xs; Some ((fst x, b) # bs) }"

definition slots_iter :: "Inner \<Rightarrow> (SlotKey \<times> SharedAlignedBuffer) list option" where
  "slots_iter inner = slots_iter_list (slots inner)"

primrec iter_modified_slot :: "SlotState \<Rightarrow> SharedAlignedBuffer option option" where
  "iter_modified_slot (Original _) = Some None"
| "iter_modified_slot (OriginalReadOnly _) = None"
| "iter_modified_slot (Modified buffer) = Some (Some buffer)"
| "iter_modified_slot (ModifiedReadOnly _) = None"
| "iter_modified_slot (OriginalReadWrite _ _) = None"
| "iter_modified_slot (ModifiedReadWrite _ _) = None"

primrec slots_iter_modified_list ::
  "(SlotKey \<times> SlotState) list \<Rightarrow> (SlotKey \<times> SharedAlignedBuffer) list option" where
  "slots_iter_modified_list [] = Some []"
| "slots_iter_modified_list (x # xs) = do {
     b \<leftarrow> iter_modified_slot (snd x);
     bs \<leftarrow> slots_iter_modified_list xs;
     Some (case b of None \<Rightarrow> bs | Some b \<Rightarrow> (fst x, b) # bs)
   }"

definition slots_iter_modified :: "Inner \<Rightarrow> (SlotKey \<times> SharedAlignedBuffer) list option" where
  "slots_iter_modified inner = slots_iter_modified_list (slots inner)"

definition slots_into_slots :: "Inner \<Rightarrow> (SlotKey \<times> SharedAlignedBuffer) list option" where
  "slots_into_slots inner = slots_iter_list (slots inner)"

section \<open>Committing and resetting a nested view\<close>

text \<open>\<open>SmallVec::drain(k..)\<close>: what is left and what is drained; panics beyond the end.\<close>

definition drain_from :: "nat \<Rightarrow> 'a list \<Rightarrow> ('a list \<times> 'a list) option" where
  "drain_from k xs = (if k \<le> length xs then Some (take k xs, drop k xs) else None)"

primrec commit_state :: "SlotState \<Rightarrow> SlotState option" where
  "commit_state (Original _) = None"
| "commit_state (OriginalReadOnly buffer) = Some (Original buffer)"
| "commit_state (Modified buffer) = Some (Modified buffer)"
| "commit_state (ModifiedReadOnly buffer) = Some (Modified buffer)"
| "commit_state (OriginalReadWrite buffer _) = Some (Modified (ob_into_shared buffer))"
| "commit_state (ModifiedReadWrite buffer _) = Some (Modified (ob_into_shared buffer))"

primrec reset_state :: "SlotState \<Rightarrow> SlotState option" where
  "reset_state (Original _) = None"
| "reset_state (OriginalReadOnly buffer) = Some (Original buffer)"
| "reset_state (Modified buffer) = Some (Modified buffer)"
| "reset_state (ModifiedReadOnly buffer) = Some (Modified buffer)"
| "reset_state (OriginalReadWrite _ previous) = Some (Original previous)"
| "reset_state (ModifiedReadWrite _ previous) = Some (Modified previous)"

primrec fixup_slots :: "(SlotState \<Rightarrow> SlotState option) \<Rightarrow> SlotAccess list \<Rightarrow>
    (SlotKey \<times> SlotState) list \<Rightarrow> (SlotKey \<times> SlotState) list option" where
  "fixup_slots f [] ss = Some ss"
| "fixup_slots f (a # as) ss =
    (if slot_index a < length ss
     then do {
       state \<leftarrow> f (snd (ss ! slot_index a));
       fixup_slots f as (ss[slot_index a := (fst (ss ! slot_index a), state)])
     }
     else None)"

fun nested_drop :: "NestedSlots \<Rightarrow> Inner \<Rightarrow> Inner option" where
  "nested_drop NestedReadOnly inner = Some inner"
| "nested_drop (NestedReadWrite k original) inner = do {
     (kept, drained) \<leftarrow> drain_from k (slot_access inner);
     ss \<leftarrow> fixup_slots commit_state drained (slots inner);
     Some (inner\<lparr>slot_access := kept,
       slots := if original then filter (\<lambda>(slot_key, _). key_contract slot_key \<noteq> NULL) ss else ss\<rparr>)
   }"

fun nested_reset :: "NestedSlots \<Rightarrow> Inner \<Rightarrow> (NestedSlots \<times> Inner) option" where
  "nested_reset NestedReadOnly inner = Some (NestedReadOnly, inner)"
| "nested_reset (NestedReadWrite k original) inner = do {
     (kept, drained) \<leftarrow> drain_from k (slot_access inner);
     ss \<leftarrow> fixup_slots reset_state drained (slots inner);
     Some (NestedReadWrite 0 original, inner\<lparr>slot_access := kept, slots := ss\<rparr>)
   }"

fun nested_new_nested_rw :: "NestedSlots \<Rightarrow> Inner \<Rightarrow> NestedSlots option" where
  "nested_new_nested_rw NestedReadOnly inner = None"
| "nested_new_nested_rw (NestedReadWrite _ _) inner =
    Some (NestedReadWrite (length (slot_access inner)) False)"

definition nested_new_nested_ro :: "NestedSlots \<Rightarrow> NestedSlots" where
  "nested_new_nested_ro n = NestedReadOnly"

fun nested_add_new_contract :: "NestedSlots \<Rightarrow> Address \<Rightarrow> Inner \<Rightarrow> bool \<times> Inner" where
  "nested_add_new_contract NestedReadOnly own inner = (False, inner)"
| "nested_add_new_contract (NestedReadWrite _ _) own inner =
    (if own \<in> set (new_contracts inner) then (False, inner)
     else (True, inner\<lparr>new_contracts := new_contracts inner @ [own]\<rparr>))"

section \<open>Accessing slots\<close>

primrec position :: "('a \<Rightarrow> bool) \<Rightarrow> 'a list \<Rightarrow> nat option" where
  "position P [] = None"
| "position P (x # xs) = (if P x then Some 0 else map_option Suc (position P xs))"

definition find_access :: "SlotIndex \<Rightarrow> SlotAccess list \<Rightarrow> bool option" where
  "find_access i as = map_option read_write (find (\<lambda>a. slot_index a = i) as)"

text \<open>The address comparison in \<open>new_contracts.iter().any(..)\<close> is the one between a reference
  and an address.\<close>

definition may_create :: "SlotKey \<Rightarrow> Address list \<Rightarrow> bool" where
  "may_create slot_key contracts \<longleftrightarrow>
    key_contract slot_key = NULL \<or>
    list_ex (\<lambda>candidate. ref_eq_Address candidate (key_owner slot_key) \<or>
      ref_eq_Address candidate (key_contract slot_key)) contracts"

definition get_code :: "Address \<Rightarrow> Inner \<Rightarrow> SharedAlignedBuffer option" where
  "get_code own inner = do {
     i \<leftarrow> position (\<lambda>(slot_key, _). key_owner slot_key = own \<and> key_contract slot_key = SYSTEM_CODE)
       (slots inner);
     if list_ex (\<lambda>a. slot_index a = i \<and> read_write a) (slot_access inner) then None
     else (case snd (slots inner ! i) of
         Original buffer \<Rightarrow> Some buffer
       | OriginalReadOnly buffer \<Rightarrow> Some buffer
       | Modified buffer \<Rightarrow> Some buffer
       | ModifiedReadOnly buffer \<Rightarrow> Some buffer
       | _ \<Rightarrow> None)
   }"

definition use_ro_internal :: "SlotKey \<Rightarrow> Inner \<Rightarrow> SharedAlignedBuffer option \<times> Inner" where
  "use_ro_internal slot_key inner =
    (case position (\<lambda>(candidate, _). candidate = slot_key) (slots inner) of
       Some i \<Rightarrow>
         (if find_access i (slot_access inner) = Some True then (None, inner)
          else
            let inner = (if find_access i (slot_access inner) = None
                  then inner\<lparr>slot_access := slot_access inner @ [\<lparr>slot_index = i, read_write = False\<rparr>]\<rparr>
                  else inner)
            in (case snd (slots inner ! i) of
                 Original buffer \<Rightarrow>
                   (Some buffer, inner\<lparr>slots := (slots inner)[i := (fst (slots inner ! i), OriginalReadOnly buffer)]\<rparr>)
               | OriginalReadOnly buffer \<Rightarrow> (Some buffer, inner)
               | ModifiedReadOnly buffer \<Rightarrow> (Some buffer, inner)
               | Modified buffer \<Rightarrow>
                   (Some buffer, inner\<lparr>slots := (slots inner)[i := (fst (slots inner ! i), ModifiedReadOnly buffer)]\<rparr>)
               | OriginalReadWrite _ _ \<Rightarrow> (None, inner)
               | ModifiedReadWrite _ _ \<Rightarrow> (None, inner)))
     | None \<Rightarrow>
         (if \<not> may_create slot_key (new_contracts inner) then (None, inner)
          else (Some [], inner\<lparr>
            slot_access := slot_access inner @ [\<lparr>slot_index = length (slots inner), read_write = False\<rparr>],
            slots := slots inner @ [(slot_key, OriginalReadOnly [])]\<rparr>)))"

definition use_ro_internal_read_only :: "SlotKey \<Rightarrow> Inner \<Rightarrow> SharedAlignedBuffer option" where
  "use_ro_internal_read_only slot_key inner =
    (case position (\<lambda>(candidate, _). candidate = slot_key) (slots inner) of
       Some i \<Rightarrow>
         (if find_access i (slot_access inner) = Some True then None
          else (case snd (slots inner ! i) of
              Original buffer \<Rightarrow> Some buffer
            | OriginalReadOnly buffer \<Rightarrow> Some buffer
            | ModifiedReadOnly buffer \<Rightarrow> Some buffer
            | Modified buffer \<Rightarrow> Some buffer
            | OriginalReadWrite _ _ \<Rightarrow> None
            | ModifiedReadWrite _ _ \<Rightarrow> None))
     | None \<Rightarrow> if \<not> may_create slot_key (new_contracts inner) then None else Some [])"

fun use_ro :: "NestedSlots \<Rightarrow> SlotKey \<Rightarrow> Inner \<Rightarrow> SharedAlignedBuffer option \<times> Inner" where
  "use_ro (NestedReadWrite _ _) slot_key inner = use_ro_internal slot_key inner"
| "use_ro NestedReadOnly slot_key inner = (use_ro_internal_read_only slot_key inner, inner)"

text \<open>The writable copy of a slot: at least the requested capacity, the old contents.\<close>

definition writable_copy :: "u32 \<Rightarrow> SharedAlignedBuffer \<Rightarrow> OwnedAlignedBuffer option" where
  "writable_copy c buffer = ob_copy_from_slice (ob_with_capacity (max c (sb_len buffer))) buffer"

definition use_rw_internal ::
  "SlotKey \<Rightarrow> u32 \<Rightarrow> Inner \<Rightarrow> ((SlotIndex \<times> OwnedAlignedBuffer) option \<times> Inner) option" where
  "use_rw_internal slot_key c inner =
    (case position (\<lambda>(candidate, _). candidate = slot_key) (slots inner) of
       Some i \<Rightarrow>
         (if list_ex (\<lambda>a. slot_index a = i) (slot_access inner) then Some (None, inner)
          else
            let inner = inner\<lparr>slot_access := slot_access inner @ [\<lparr>slot_index = i, read_write = True\<rparr>]\<rparr>
            in (case snd (slots inner ! i) of
                 OriginalReadOnly _ \<Rightarrow> Some (None, inner)
               | ModifiedReadOnly _ \<Rightarrow> Some (None, inner)
               | Original buffer \<Rightarrow> do {
                   new_buffer \<leftarrow> writable_copy c buffer;
                   Some (Some (i, new_buffer), inner\<lparr>slots := (slots inner)
                     [i := (fst (slots inner ! i), OriginalReadWrite new_buffer buffer)]\<rparr>)
                 }
               | Modified buffer \<Rightarrow> do {
                   new_buffer \<leftarrow> writable_copy c buffer;
                   Some (Some (i, new_buffer), inner\<lparr>slots := (slots inner)
                     [i := (fst (slots inner ! i), ModifiedReadWrite new_buffer buffer)]\<rparr>)
                 }
               | OriginalReadWrite buffer previous \<Rightarrow>
                   (let buffer = ob_ensure_capacity buffer c
                    in Some (Some (i, buffer), inner\<lparr>slots := (slots inner)
                      [i := (fst (slots inner ! i), OriginalReadWrite buffer previous)]\<rparr>))
               | ModifiedReadWrite buffer previous \<Rightarrow>
                   (let buffer = ob_ensure_capacity buffer c
                    in Some (Some (i, buffer), inner\<lparr>slots := (slots inner)
                      [i := (fst (slots inner ! i), ModifiedReadWrite buffer previous)]\<rparr>))))
     | None \<Rightarrow>
         (if \<not> may_create slot_key (new_contracts inner) then Some (None, inner)
          else
            let i = length (slots inner); buffer = ob_with_capacity c
            in Some (Some (i, buffer), inner\<lparr>
              slot_access := slot_access inner @ [\<lparr>slot_index = i, read_write = True\<rparr>],
              slots := slots inner @ [(slot_key, OriginalReadWrite buffer [])]\<rparr>)))"

fun use_rw :: "NestedSlots \<Rightarrow> SlotKey \<Rightarrow> u32 \<Rightarrow> Inner \<Rightarrow>
    ((SlotIndex \<times> OwnedAlignedBuffer) option \<times> Inner) option" where
  "use_rw NestedReadOnly slot_key c inner = Some (None, inner)"
| "use_rw (NestedReadWrite _ _) slot_key c inner = use_rw_internal slot_key c inner"

fun access_used_rw :: "NestedSlots \<Rightarrow> SlotIndex \<Rightarrow> Inner \<Rightarrow> OwnedAlignedBuffer option" where
  "access_used_rw NestedReadOnly i inner = None"
| "access_used_rw (NestedReadWrite _ _) i inner =
    (if i < length (slots inner)
     then (case snd (slots inner ! i) of
         Original _ \<Rightarrow> None
       | OriginalReadOnly _ \<Rightarrow> None
       | Modified _ \<Rightarrow> None
       | ModifiedReadOnly _ \<Rightarrow> None
       | OriginalReadWrite buffer _ \<Rightarrow> Some buffer
       | ModifiedReadWrite buffer _ \<Rightarrow> Some buffer)
     else None)"

section \<open>Sequences of operations\<close>

text \<open>
  The borrow discipline of Rust makes the nested views of a collection a stack: only the latest
  one can be used until it is dropped. A state is the collection with its stack of views, latest
  first; an operation acts on the latest view (on the collection itself when there is none), and
  an operation the type system rules out does nothing. \<open>OpWrite\<close> is what the executor does with
  the buffer it gets from \<open>access_used_rw\<close>.
\<close>

datatype slots_op =
    OpNestedRw | OpNestedRo | OpAddNewContract Address | OpUseRo SlotKey | OpUseRw SlotKey u32
  | OpWrite SlotIndex "u8 list" | OpReset | OpDrop

datatype slots_out =
    OutUnit | OutBool bool | OutRo "SharedAlignedBuffer option"
  | OutRw "(SlotIndex \<times> OwnedAlignedBuffer) option"

primrec set_buffer :: "OwnedAlignedBuffer \<Rightarrow> SlotState \<Rightarrow> SlotState" where
  "set_buffer b (Original x) = Original x"
| "set_buffer b (OriginalReadOnly x) = OriginalReadOnly x"
| "set_buffer b (Modified x) = Modified x"
| "set_buffer b (ModifiedReadOnly x) = ModifiedReadOnly x"
| "set_buffer b (OriginalReadWrite _ p) = OriginalReadWrite b p"
| "set_buffer b (ModifiedReadWrite _ p) = ModifiedReadWrite b p"

definition write_used :: "NestedSlots \<Rightarrow> SlotIndex \<Rightarrow> u8 list \<Rightarrow> Inner \<Rightarrow> (bool \<times> Inner) option" where
  "write_used n i bs inner = (case access_used_rw n i inner of
     None \<Rightarrow> Some (False, inner)
   | Some b \<Rightarrow> do {
       b \<leftarrow> ob_copy_from_slice b bs;
       Some (True, inner\<lparr>slots := (slots inner)
         [i := (fst (slots inner ! i), set_buffer b (snd (slots inner ! i)))]\<rparr>)
     })"

fun frame_step :: "slots_op \<Rightarrow> NestedSlots \<Rightarrow> Inner \<Rightarrow> (slots_out \<times> Inner) option" where
  "frame_step (OpAddNewContract a) n inner =
    (let (r, inner) = nested_add_new_contract n a inner in Some (OutBool r, inner))"
| "frame_step (OpUseRo k) n inner = (let (r, inner) = use_ro n k inner in Some (OutRo r, inner))"
| "frame_step (OpUseRw k c) n inner = do { (r, inner) \<leftarrow> use_rw n k c inner; Some (OutRw r, inner) }"
| "frame_step (OpWrite i bs) n inner = do { (r, inner) \<leftarrow> write_used n i bs inner; Some (OutBool r, inner) }"
| "frame_step _ n inner = Some (OutUnit, inner)"

fun slots_step ::
  "slots_op \<Rightarrow> Inner \<times> NestedSlots list \<Rightarrow> (slots_out \<times> Inner \<times> NestedSlots list) option" where
  "slots_step OpNestedRw (inner, []) = Some (OutUnit, inner, [slots_new_nested_rw])"
| "slots_step OpNestedRw (inner, n # st) = (case nested_new_nested_rw n inner of
     None \<Rightarrow> Some (OutBool False, inner, n # st)
   | Some m \<Rightarrow> Some (OutBool True, inner, m # n # st))"
| "slots_step OpNestedRo (inner, []) = Some (OutUnit, inner, [slots_new_nested_ro])"
| "slots_step OpNestedRo (inner, n # st) = Some (OutUnit, inner, nested_new_nested_ro n # n # st)"
| "slots_step OpReset (inner, n # st) =
    do { (n, inner) \<leftarrow> nested_reset n inner; Some (OutUnit, inner, n # st) }"
| "slots_step OpDrop (inner, n # st) = do { inner \<leftarrow> nested_drop n inner; Some (OutUnit, inner, st) }"
| "slots_step (OpAddNewContract a) (inner, []) =
    (let (r, inner) = slots_add_new_contract a inner in Some (OutBool r, inner, []))"
| "slots_step op (inner, n # st) =
    do { (r, inner) \<leftarrow> frame_step op n inner; Some (r, inner, n # st) }"
| "slots_step _ (inner, []) = Some (OutUnit, inner, [])"

section \<open>The invariant\<close>

text \<open>
  The state of a slot agrees with its access record. A slot that nobody accesses is \<open>Original\<close>
  or \<open>Modified\<close>, or was given as read-only; a slot accessed for reading is in a read-only state,
  and one accessed for writing in a read-write state, or read-only when the write was refused.
\<close>

fun access_ok :: "bool \<Rightarrow> SlotState \<Rightarrow> bool" where
  "access_ok rw (Original _) = False"
| "access_ok rw (OriginalReadOnly _) = True"
| "access_ok rw (Modified _) = False"
| "access_ok rw (ModifiedReadOnly _) = (\<not> rw)"
| "access_ok rw (OriginalReadWrite _ _) = rw"
| "access_ok rw (ModifiedReadWrite _ _) = rw"

primrec idle_ok :: "SlotState \<Rightarrow> bool" where
  "idle_ok (Original _) = True"
| "idle_ok (OriginalReadOnly _) = True"
| "idle_ok (Modified _) = True"
| "idle_ok (ModifiedReadOnly _) = False"
| "idle_ok (OriginalReadWrite _ _) = False"
| "idle_ok (ModifiedReadWrite _ _) = False"

text \<open>The contents of a slot now, and the contents a reset brings back.\<close>

primrec slot_bytes :: "SlotState \<Rightarrow> u8 list" where
  "slot_bytes (Original b) = b"
| "slot_bytes (OriginalReadOnly b) = b"
| "slot_bytes (Modified b) = b"
| "slot_bytes (ModifiedReadOnly b) = b"
| "slot_bytes (OriginalReadWrite b _) = ob_bytes b"
| "slot_bytes (ModifiedReadWrite b _) = ob_bytes b"

primrec base_bytes :: "SlotState \<Rightarrow> u8 list" where
  "base_bytes (Original b) = b"
| "base_bytes (OriginalReadOnly b) = b"
| "base_bytes (Modified b) = b"
| "base_bytes (ModifiedReadOnly b) = b"
| "base_bytes (OriginalReadWrite _ p) = p"
| "base_bytes (ModifiedReadWrite _ p) = p"

definition state_fits :: "SlotState \<Rightarrow> bool" where
  "state_fits s \<longleftrightarrow> length (slot_bytes s) < 2 ^ 32 \<and> length (base_bytes s) < 2 ^ 32"

definition accessed :: "Inner \<Rightarrow> SlotIndex set" where
  "accessed inner = slot_index ` set (slot_access inner)"

definition inner_ok :: "Inner \<Rightarrow> bool" where
  "inner_ok inner \<longleftrightarrow>
    distinct (map fst (slots inner)) \<and> distinct (map slot_index (slot_access inner)) \<and>
    (\<forall>a \<in> set (slot_access inner). slot_index a < length (slots inner) \<and>
       access_ok (read_write a) (snd (slots inner ! slot_index a))) \<and>
    (\<forall>i < length (slots inner). i \<notin> accessed inner \<longrightarrow> idle_ok (snd (slots inner ! i))) \<and>
    (\<forall>i < length (slots inner). state_fits (snd (slots inner ! i)))"

primrec is_rw :: "NestedSlots \<Rightarrow> bool" where
  "is_rw (NestedReadWrite _ _) = True"
| "is_rw NestedReadOnly = False"

text \<open>Each view began at a prefix of the access list of the views above it.\<close>

fun frames_ok :: "nat \<Rightarrow> NestedSlots list \<Rightarrow> bool" where
  "frames_ok n [] = (n = 0)"
| "frames_ok n (NestedReadOnly # st) = frames_ok n st"
| "frames_ok n (NestedReadWrite k original # st) =
    (k \<le> n \<and> (original \<longleftrightarrow> \<not> list_ex is_rw st) \<and> frames_ok k st)"

fun state_ok :: "Inner \<times> NestedSlots list \<Rightarrow> bool" where
  "state_ok (inner, st) \<longleftrightarrow> inner_ok inner \<and> frames_ok (length (slot_access inner)) st"

section \<open>Library\<close>

lemma position_Some:
  "position P xs = Some i \<Longrightarrow> i < length xs \<and> P (xs ! i)"
  by (induction xs arbitrary: i) (auto split: if_splits)

lemma position_None: "position P xs = None \<longleftrightarrow> (\<forall>x \<in> set xs. \<not> P x)"
  by (induction xs) auto

lemma position_key_Some:
  "position (\<lambda>(c, _). c = k) xs = Some i \<Longrightarrow> i < length xs \<and> fst (xs ! i) = k"
  by (drule position_Some) (auto split: prod.splits)

lemma position_key_None:
  "position (\<lambda>(c, _). c = k) xs = None \<longleftrightarrow> k \<notin> fst ` set xs"
  by (force simp: position_None)

lemma position_key_unique:
  assumes "distinct (map fst xs)" "i < length xs"
  shows "position (\<lambda>(c, _). c = fst (xs ! i)) xs = Some i"
proof (cases "position (\<lambda>(c, _). c = fst (xs ! i)) xs")
  case None
  then have "fst (xs ! i) \<notin> fst ` set xs" by (simp add: position_key_None)
  then show ?thesis using assms(2) by (metis image_eqI nth_mem)
next
  case (Some j)
  then have "j < length xs" "map fst xs ! j = map fst xs ! i"
    using position_key_Some [OF Some] assms(2) by auto
  then show ?thesis using Some assms nth_eq_iff_index_eq [OF assms(1), of j i] by simp
qed

lemma find_access_None: "find_access i as = None \<longleftrightarrow> i \<notin> slot_index ` set as"
  by (auto simp: find_access_def find_None_iff)

lemma find_access_Some:
  assumes "find_access i as = Some rw"
  shows "\<lparr>slot_index = i, read_write = rw\<rparr> \<in> set as"
proof -
  obtain j where "j < length as" "slot_index (as ! j) = i" "read_write (as ! j) = rw"
    using assms by (auto simp: find_access_def find_Some_iff)
  moreover from this have "as ! j = \<lparr>slot_index = i, read_write = rw\<rparr>" by simp
  ultimately show ?thesis by (metis nth_mem)
qed

lemma access_unique:
  "distinct (map slot_index as) \<Longrightarrow> a \<in> set as \<Longrightarrow> b \<in> set as \<Longrightarrow>
    slot_index a = slot_index b \<Longrightarrow> a = b"
  by (auto simp: distinct_map dest: inj_onD)

lemma list_ex_access: "list_ex (\<lambda>a. slot_index a = i) as \<longleftrightarrow> i \<in> slot_index ` set as"
  by (auto simp: list_ex_iff)

lemma find_access_unique:
  assumes "distinct (map slot_index as)" "\<lparr>slot_index = i, read_write = rw\<rparr> \<in> set as"
  shows "find_access i as = Some rw"
proof (cases "find_access i as")
  case None
  then show ?thesis using assms(2) by (force simp: find_access_None)
next
  case (Some rw')
  then have "\<lparr>slot_index = i, read_write = rw'\<rparr> \<in> set as" by (rule find_access_Some)
  then have "\<lparr>slot_index = i, read_write = rw'\<rparr> = \<lparr>slot_index = i, read_write = rw\<rparr>"
    by (rule access_unique [OF assms(1) _ assms(2)]) simp
  then show ?thesis using Some by simp
qed

lemma fixup_slots_spec:
  assumes "distinct (map slot_index as)"
    and "\<forall>a \<in> set as. slot_index a < length ss \<and> f (snd (ss ! slot_index a)) \<noteq> None"
  shows "fixup_slots f as ss = Some (map (\<lambda>i. (fst (ss ! i),
    if i \<in> slot_index ` set as then the (f (snd (ss ! i))) else snd (ss ! i))) [0..<length ss])"
  using assms
proof (induction as arbitrary: ss)
  case Nil
  then show ?case by (auto intro!: nth_equalityI simp: prod_eq_iff)
next
  case (Cons a as)
  then obtain s where s: "f (snd (ss ! slot_index a)) = Some s" by auto
  let ?ss = "ss[slot_index a := (fst (ss ! slot_index a), s)]"
  have "\<forall>b \<in> set as. slot_index a \<noteq> slot_index b" 
    using Cons.prems(1) by (simp, metis image_eqI)
  then have "\<forall>b \<in> set as. slot_index b < length ?ss \<and> f (snd (?ss ! slot_index b)) \<noteq> None"
    using Cons.prems by simp
  then have "fixup_slots f as ?ss = Some (map (\<lambda>i. (fst (?ss ! i),
      if i \<in> slot_index ` set as then the (f (snd (?ss ! i))) else snd (?ss ! i))) [0..<length ?ss])"
    using Cons by simp
  then show ?case
    using Cons.prems s by (auto simp: nth_list_update intro!: nth_equalityI)
qed

lemma map_of_list_update:
  assumes "distinct (map fst xs)" "i < length xs"
  shows "map_of (xs[i := (fst (xs ! i), v)]) = (map_of xs)(fst (xs ! i) \<mapsto> v)"
  using assms
proof (induction xs arbitrary: i)
  case (Cons x xs)
  show ?case
  proof (cases i)
    case (Suc j)
    then have "fst (xs ! j) \<noteq> fst x" 
      using Cons.prems(1,2) nth_mem [of j xs] by (simp, metis image_eqI)
    then show ?thesis using Suc Cons by (auto simp: fun_eq_iff)
  qed (use Cons in auto)
qed simp

lemma map_of_position:
  "position (\<lambda>(c, _). c = k) xs = Some i \<Longrightarrow> map_of xs k = Some (snd (xs ! i))"
  by (induction xs arbitrary: i) (auto split: if_splits)

lemma length_less_bound: "length (bs :: u8 list) < 2 ^ 32 \<Longrightarrow> unat (sb_len bs) = length bs"
  by (simp add: sb_len_def unat_of_nat_less)

lemma writable_copy_Some:
  assumes "length bs < 2 ^ 32"
  shows "writable_copy c bs = Some \<lparr>ob_bytes = bs, ob_capacity = max c (sb_len bs)\<rparr>"
  using assms by (simp add: writable_copy_def ob_copy_from_slice_def ob_with_capacity_def ob_grow_def
      sb_len_def [symmetric])

section \<open>Every operation keeps the invariant\<close>

lemma inner_okD:
  assumes "inner_ok inner"
  shows "distinct (map fst (slots inner))" "distinct (map slot_index (slot_access inner))"
    "a \<in> set (slot_access inner) \<Longrightarrow> slot_index a < length (slots inner)"
    "a \<in> set (slot_access inner) \<Longrightarrow> access_ok (read_write a) (snd (slots inner ! slot_index a))"
    "i < length (slots inner) \<Longrightarrow> i \<notin> accessed inner \<Longrightarrow> idle_ok (snd (slots inner ! i))"
    "i < length (slots inner) \<Longrightarrow> state_fits (snd (slots inner ! i))"
  using assms by (simp_all add: inner_ok_def)

lemma map_fst_update: "i < length xs \<Longrightarrow> map fst (xs[i := (fst (xs ! i), v)]) = map fst xs"
  by (metis fst_conv list_update_id map_update nth_map)

lemma inner_ok_access:
  assumes ok: "inner_ok inner" and i: "i < length (slots inner)" "i \<notin> accessed inner"
    and s: "access_ok rw s" "state_fits s"
  shows "inner_ok (inner\<lparr>slot_access := slot_access inner @ [\<lparr>slot_index = i, read_write = rw\<rparr>],
    slots := (slots inner)[i := (fst (slots inner ! i), s)]\<rparr>)"
proof -
  have "slot_index a \<noteq> i" if "a \<in> set (slot_access inner)" for a
    using that i(2) by (auto simp: accessed_def)
  then show ?thesis
    using inner_okD [OF ok] i s
    by (auto simp: inner_ok_def map_fst_update nth_list_update accessed_def)
qed

lemma inner_ok_update:
  assumes ok: "inner_ok inner" and a: "\<lparr>slot_index = i, read_write = rw\<rparr> \<in> set (slot_access inner)"
    and s: "access_ok rw s" "state_fits s"
  shows "inner_ok (inner\<lparr>slots := (slots inner)[i := (fst (slots inner ! i), s)]\<rparr>)"
proof -
  have i: "i < length (slots inner)" "i \<in> accessed inner"
    using inner_okD(3) [OF ok a] a by (force simp: accessed_def)+
  have "read_write b = rw" if "b \<in> set (slot_access inner)" "slot_index b = i" for b
    using access_unique [OF inner_okD(2) [OF ok] that(1) a] that(2) by auto
  then show ?thesis
    using inner_okD [OF ok] i s
    by (auto simp: inner_ok_def map_fst_update nth_list_update accessed_def)
qed

lemma inner_ok_append:
  assumes ok: "inner_ok inner" and k: "k \<notin> fst ` set (slots inner)" and s: "access_ok rw s" "state_fits s"
  shows "inner_ok (inner\<lparr>
    slot_access := slot_access inner @ [\<lparr>slot_index = length (slots inner), read_write = rw\<rparr>],
    slots := slots inner @ [(k, s)]\<rparr>)"
proof -
  have "slot_index a < length (slots inner)" if "a \<in> set (slot_access inner)" for a
    using inner_okD(3) [OF ok that] .
  moreover from this have "length (slots inner) \<notin> slot_index ` set (slot_access inner)" by force
  ultimately show ?thesis
    using inner_okD [OF ok] k s
    by (auto simp: inner_ok_def nth_append accessed_def less_Suc_eq)
qed

lemma slots_update_same: "inner\<lparr>slot_access := x, slots := slots inner\<rparr> = inner\<lparr>slot_access := x\<rparr>"
  by (cases inner) simp

text \<open>What an access does, in the five situations it distinguishes.\<close>

lemma use_ro_internal_cases:
  assumes ok: "inner_ok inner"
  obtains (found) i s where "position (\<lambda>(c, _). c = k) (slots inner) = Some i" "i < length (slots inner)"
      "i \<notin> accessed inner" "fst (slots inner ! i) = k"
      "use_ro_internal k inner = (Some (slot_bytes (snd (slots inner ! i))),
        inner\<lparr>slot_access := slot_access inner @ [\<lparr>slot_index = i, read_write = False\<rparr>],
          slots := (slots inner)[i := (k, s)]\<rparr>)"
      "s \<in> {OriginalReadOnly (slot_bytes (snd (slots inner ! i))), ModifiedReadOnly (slot_bytes (snd (slots inner ! i)))}"
      "base_bytes (snd (slots inner ! i)) = slot_bytes (snd (slots inner ! i))"
  | (shared) i where "position (\<lambda>(c, _). c = k) (slots inner) = Some i" "i < length (slots inner)"
      "\<lparr>slot_index = i, read_write = False\<rparr> \<in> set (slot_access inner)"
      "use_ro_internal k inner = (Some (slot_bytes (snd (slots inner ! i))), inner)"
  | (refused) "use_ro_internal k inner = (None, inner)"
  | (created) "k \<notin> fst ` set (slots inner)" "may_create k (new_contracts inner)"
      "use_ro_internal k inner = (Some [], inner\<lparr>
        slot_access := slot_access inner @ [\<lparr>slot_index = length (slots inner), read_write = False\<rparr>],
        slots := slots inner @ [(k, OriginalReadOnly [])]\<rparr>)"
proof (cases "position (\<lambda>(c, _). c = k) (slots inner)")
  case None
  then have "k \<notin> fst ` set (slots inner)" by (simp add: position_key_None)
  then show ?thesis
    using None that by (cases "may_create k (new_contracts inner)") (auto simp: use_ro_internal_def)
next
  case (Some i)
  note i = position_key_Some [OF Some]
  show ?thesis
  proof (cases "find_access i (slot_access inner)")
    case None
    then have "i \<notin> accessed inner" by (simp add: find_access_None accessed_def)
    moreover from this have "idle_ok (snd (slots inner ! i))" using inner_okD(5) [OF ok] i by simp
    moreover have "(slots inner)[i := (k, snd (slots inner ! i))] = slots inner"
      using i by (metis list_update_id prod.collapse)
    moreover define s where "s = (case snd (slots inner ! i) of
      Modified b \<Rightarrow> ModifiedReadOnly b | x \<Rightarrow> OriginalReadOnly (slot_bytes x))"
    ultimately show ?thesis
      using found [of i s] i Some None
      by (cases "snd (slots inner ! i)") (auto simp: use_ro_internal_def slots_update_same)
  next
    case rw: (Some rw)
    have a: "\<lparr>slot_index = i, read_write = rw\<rparr> \<in> set (slot_access inner)"
      by (rule find_access_Some [OF rw])
    show ?thesis
    proof (cases rw)
      case True
      then show ?thesis using refused Some rw by (simp add: use_ro_internal_def)
    next
      case False
      then show ?thesis
        using shared [of i] i a Some rw inner_okD(4) [OF ok a]
        by (cases "snd (slots inner ! i)") (auto simp: use_ro_internal_def)
    qed
  qed
qed

lemma use_rw_internal_cases:
  assumes ok: "inner_ok inner"
  obtains (found) i b s where "position (\<lambda>(c, _). c = k) (slots inner) = Some i" "i < length (slots inner)"
      "i \<notin> accessed inner" "fst (slots inner ! i) = k"
      "use_rw_internal k c inner = Some (Some (i, b), inner\<lparr>
        slot_access := slot_access inner @ [\<lparr>slot_index = i, read_write = True\<rparr>],
        slots := (slots inner)[i := (k, s)]\<rparr>)"
      "ob_bytes b = slot_bytes (snd (slots inner ! i))" "c \<le> ob_capacity b"
      "s \<in> {OriginalReadWrite b (slot_bytes (snd (slots inner ! i))),
        ModifiedReadWrite b (slot_bytes (snd (slots inner ! i)))}"
      "base_bytes (snd (slots inner ! i)) = slot_bytes (snd (slots inner ! i))"
  | (read_only) i x where "position (\<lambda>(c, _). c = k) (slots inner) = Some i" "i < length (slots inner)"
      "i \<notin> accessed inner" "slots inner ! i = (k, OriginalReadOnly x)"
      "use_rw_internal k c inner = Some (None, inner\<lparr>
        slot_access := slot_access inner @ [\<lparr>slot_index = i, read_write = True\<rparr>],
        slots := (slots inner)[i := (k, OriginalReadOnly x)]\<rparr>)"
  | (refused) "use_rw_internal k c inner = Some (None, inner)"
  | (created) "k \<notin> fst ` set (slots inner)" "may_create k (new_contracts inner)"
      "use_rw_internal k c inner = Some (Some (length (slots inner), ob_with_capacity c), inner\<lparr>
        slot_access := slot_access inner @ [\<lparr>slot_index = length (slots inner), read_write = True\<rparr>],
        slots := slots inner @ [(k, OriginalReadWrite (ob_with_capacity c) [])]\<rparr>)"
proof (cases "position (\<lambda>(c, _). c = k) (slots inner)")
  case None
  then have "k \<notin> fst ` set (slots inner)" by (simp add: position_key_None)
  then show ?thesis
    using None that(3,4)
    by (cases "may_create k (new_contracts inner)") (auto simp: use_rw_internal_def Let_def)
next
  case (Some i)
  note i = position_key_Some [OF Some]
  show ?thesis
  proof (cases "i \<in> accessed inner")
    case True
    then show ?thesis
      using refused Some by (simp add: use_rw_internal_def list_ex_access accessed_def)
  next
    case False
    then have idle: "idle_ok (snd (slots inner ! i))" using inner_okD(5) [OF ok] i by simp
    have fits: "length (slot_bytes (snd (slots inner ! i))) < 2 ^ 32"
      using inner_okD(6) [OF ok] i by (simp add: state_fits_def)
    have acc: "\<not> list_ex (\<lambda>a. slot_index a = i) (slot_access inner)"
      using False by (simp add: list_ex_access accessed_def)
    show ?thesis
    proof (cases "snd (slots inner ! i)")
      case (Original x)
      then show ?thesis
        using found [of i _ "OriginalReadWrite _ x"] i Some False acc fits
        by (auto simp: use_rw_internal_def writable_copy_Some Let_def)
    next
      case (Modified x)
      then show ?thesis
        using found [of i _ "ModifiedReadWrite _ x"] i Some False acc fits
        by (auto simp: use_rw_internal_def writable_copy_Some Let_def)
    next
      case (OriginalReadOnly x)
      then have "slots inner ! i = (k, OriginalReadOnly x)" using i by (simp add: prod_eq_iff)
      moreover from this have "(slots inner)[i := (k, OriginalReadOnly x)] = slots inner"
        by (metis list_update_id)
      ultimately show ?thesis
        using read_only [of i x] i Some False acc
        by (auto simp: use_rw_internal_def Let_def slots_update_same)
    qed (use idle in simp_all)
  qed
qed

lemma use_ro_internal_ok: "inner_ok inner \<Longrightarrow> inner_ok (snd (use_ro_internal k inner))"
proof -
  assume ok: "inner_ok inner"
  show ?thesis
  proof (cases rule: use_ro_internal_cases [OF ok, of k])
    case (1 i s)
    then show ?thesis
      using inner_ok_access [OF ok 1(2,3), of False s] inner_okD(6) [OF ok 1(2)]
      by (auto simp: state_fits_def)
  next
    case 4
    then show ?thesis using inner_ok_append [OF ok 4(1), of False "OriginalReadOnly []"]
      by (simp add: state_fits_def)
  qed (use ok in simp_all)
qed

lemma use_rw_internal_ok:
  assumes ok: "inner_ok inner"
  shows "\<exists>r inner'. use_rw_internal k c inner = Some (r, inner') \<and> inner_ok inner'"
proof (cases rule: use_rw_internal_cases [OF ok, of k c])
  case (1 i b s)
  then show ?thesis
    using inner_ok_access [OF ok 1(2,3), of True s] inner_okD(6) [OF ok 1(2)]
    by (auto simp: state_fits_def)
next
  case (2 i x)
  then show ?thesis
    using inner_ok_access [OF ok 2(2,3), of True "OriginalReadOnly x"] inner_okD(6) [OF ok 2(2)] by simp
next
  case 4
  then show ?thesis
    using inner_ok_append [OF ok 4(1), of True "OriginalReadWrite (ob_with_capacity c) []"]
    by (simp add: state_fits_def ob_with_capacity_def)
qed (use ok in simp)

lemma read_write_accessed:
  assumes ok: "inner_ok inner" and i: "i < length (slots inner)"
    and rw: "snd (slots inner ! i) = OriginalReadWrite b x \<or> snd (slots inner ! i) = ModifiedReadWrite b x"
  shows "\<lparr>slot_index = i, read_write = True\<rparr> \<in> set (slot_access inner)"
proof -
  have "i \<in> accessed inner" using inner_okD(5) [OF ok i] rw by (cases "i \<in> accessed inner") auto
  then obtain a where a: "a \<in> set (slot_access inner)" "slot_index a = i" by (auto simp: accessed_def)
  then have "read_write a" using inner_okD(4) [OF ok a(1)] rw by auto
  then have "a = \<lparr>slot_index = i, read_write = True\<rparr>" using a(2) by simp
  then show ?thesis using a(1) by simp
qed

lemma write_used_cases:
  assumes ok: "inner_ok inner" and bs: "length bs < 2 ^ 32"
  obtains (written) b s where "i < length (slots inner)" "is_rw n"
      "\<lparr>slot_index = i, read_write = True\<rparr> \<in> set (slot_access inner)"
      "write_used n i bs inner = Some (True, inner\<lparr>slots := (slots inner)[i := (fst (slots inner ! i), s)]\<rparr>)"
      "ob_bytes b = bs"
      "s \<in> {OriginalReadWrite b (base_bytes (snd (slots inner ! i))),
        ModifiedReadWrite b (base_bytes (snd (slots inner ! i)))}"
  | (refused) "write_used n i bs inner = Some (False, inner)"
proof (cases "access_used_rw n i inner")
  case None
  then show ?thesis using refused by (simp add: write_used_def)
next
  case (Some b)
  then have i: "i < length (slots inner)" "is_rw n" by (cases n; auto split: if_splits)+
  then obtain x where x: "snd (slots inner ! i) = OriginalReadWrite b x \<or> snd (slots inner ! i) = ModifiedReadWrite b x"
    using Some by (cases n) (auto split: if_splits SlotState.splits)
  obtain b' where b': "ob_copy_from_slice b bs = Some b'" "ob_bytes b' = bs"
    using bs by (auto simp: ob_copy_from_slice_def)
  show ?thesis
    using written [OF i read_write_accessed [OF ok i(1) x], of "set_buffer b' (snd (slots inner ! i))" b'] x Some b'
    by (auto simp: write_used_def)
qed

lemma write_used_ok:
  assumes ok: "inner_ok inner" and bs: "length bs < 2 ^ 32"
  shows "\<exists>r inner'. write_used n i bs inner = Some (r, inner') \<and> inner_ok inner' \<and>
    slot_access inner' = slot_access inner"
proof (cases rule: write_used_cases [OF ok bs, of i n])
  case (1 b s)
  then show ?thesis
    using inner_ok_update [OF ok 1(3), of s] inner_okD(6) [OF ok 1(1)] bs by (auto simp: state_fits_def)
qed (use ok in auto)

text \<open>The result of dropping or resetting a view that began at position \<open>k\<close>.\<close>

definition fixed_up :: "(SlotState \<Rightarrow> SlotState option) \<Rightarrow> nat \<Rightarrow> Inner \<Rightarrow> (SlotKey \<times> SlotState) list" where
  "fixed_up f k inner = map (\<lambda>i. (fst (slots inner ! i),
     if i \<in> slot_index ` set (drop k (slot_access inner)) then the (f (snd (slots inner ! i)))
     else snd (slots inner ! i))) [0..<length (slots inner)]"

lemma commit_access: "access_ok rw s \<Longrightarrow> \<exists>t. commit_state s = Some t \<and> idle_ok t \<and>
    slot_bytes t = slot_bytes s \<and> base_bytes t = slot_bytes s"
  by (cases s) (auto simp: ob_into_shared_def)

lemma reset_access: "access_ok rw s \<Longrightarrow> \<exists>t. reset_state s = Some t \<and> idle_ok t \<and>
    slot_bytes t = base_bytes s \<and> base_bytes t = base_bytes s"
  by (cases s) auto

lemma fixup_ok:
  assumes ok: "inner_ok inner" and k: "k \<le> length (slot_access inner)"
    and f: "\<And>rw s. access_ok rw s \<Longrightarrow> state_fits s \<Longrightarrow> \<exists>t. f s = Some t \<and> idle_ok t \<and> state_fits t"
  shows "fixup_slots f (drop k (slot_access inner)) (slots inner) = Some (fixed_up f k inner)"
    and "inner_ok (inner\<lparr>slot_access := take k (slot_access inner), slots := fixed_up f k inner\<rparr>)"
proof -
  let ?D = "slot_index ` set (drop k (slot_access inner))"
  let ?T = "slot_index ` set (take k (slot_access inner))"
  have dist: "distinct (map slot_index (take k (slot_access inner) @ drop k (slot_access inner)))"
    using inner_okD(2) [OF ok] by simp
  then have disj: "?T \<inter> ?D = {}" and dT: "distinct (map slot_index (take k (slot_access inner)))"
    and dD: "distinct (map slot_index (drop k (slot_access inner)))"
    by (simp_all only: map_append distinct_append set_map)
  have TD: "accessed inner = ?T \<union> ?D"
    by (metis accessed_def append_take_drop_id image_Un set_append)
  have step: "\<exists>t. f (snd (slots inner ! i)) = Some t \<and> idle_ok t \<and> state_fits t" if iD: "i \<in> ?D" for i
  proof -
    obtain a where a: "a \<in> set (slot_access inner)" "slot_index a = i"
      using iD by (auto dest: in_set_dropD)
    then show ?thesis
      using f [OF inner_okD(4) [OF ok a(1)]] inner_okD(3,6) [OF ok] by auto
  qed
  have less: "slot_index a < length (slots inner)" if "a \<in> set (drop k (slot_access inner))" for a
    using inner_okD(3) [OF ok in_set_dropD [OF that]] .
  show "fixup_slots f (drop k (slot_access inner)) (slots inner) = Some (fixed_up f k inner)"
    unfolding fixed_up_def using step less dD by (intro fixup_slots_spec) auto
  have fst: "map fst (fixed_up f k inner) = map fst (slots inner)"
    by (auto simp: fixed_up_def comp_def intro!: nth_equalityI)
  have nth: "snd (fixed_up f k inner ! i) =
      (if i \<in> ?D then the (f (snd (slots inner ! i))) else snd (slots inner ! i))"
    if "i < length (slots inner)" for i
    using that by (simp add: fixed_up_def)
  have len: "length (fixed_up f k inner) = length (slots inner)" by (simp add: fixed_up_def)
  have acc: "slot_index a < length (slots inner) \<and>
      access_ok (read_write a) (snd (fixed_up f k inner ! slot_index a))"
    if "a \<in> set (take k (slot_access inner))" for a
    using inner_okD(3,4) [OF ok in_set_takeD [OF that]] nth [of "slot_index a"] disj that by auto
  have idle: "idle_ok (snd (fixed_up f k inner ! i))" if "i < length (slots inner)" "i \<notin> ?T" for i
    using step [of i] inner_okD(5) [OF ok that(1)] that TD nth [OF that(1)] by auto
  have fits: "state_fits (snd (fixed_up f k inner ! i))" if "i < length (slots inner)" for i
    using step [of i] inner_okD(6) [OF ok that] nth [OF that] by auto
  show "inner_ok (inner\<lparr>slot_access := take k (slot_access inner), slots := fixed_up f k inner\<rparr>)"
    using fst len acc idle fits dT inner_okD(1) [OF ok]
    by (auto simp: inner_ok_def accessed_def)
qed

lemma commit_fits: "access_ok rw s \<Longrightarrow> state_fits s \<Longrightarrow>
    \<exists>t. commit_state s = Some t \<and> idle_ok t \<and> state_fits t"
  using commit_access [of rw s] by (auto simp: state_fits_def)

lemma reset_fits: "access_ok rw s \<Longrightarrow> state_fits s \<Longrightarrow>
    \<exists>t. reset_state s = Some t \<and> idle_ok t \<and> state_fits t"
  using reset_access [of rw s] by (auto simp: state_fits_def)

lemmas commit_ok = fixup_ok [where f = commit_state, OF _ _ commit_fits]
lemmas reset_ok = fixup_ok [where f = reset_state, OF _ _ reset_fits]

lemma inner_ok_idle:
  "inner_ok inner \<Longrightarrow> slot_access inner = [] \<Longrightarrow> x \<in> set (slots inner) \<Longrightarrow>
    idle_ok (snd x) \<and> state_fits (snd x)"
  by (auto simp: inner_ok_def accessed_def in_set_conv_nth)

lemma inner_ok_filter:
  assumes "inner_ok inner" "slot_access inner = []"
  shows "inner_ok (inner\<lparr>slots := filter P (slots inner)\<rparr>)"
  using assms inner_ok_idle [OF assms] nth_mem [of _ "filter P (slots inner)"]
  by (auto simp: inner_ok_def distinct_map_filter)

lemma nested_drop_ok:
  assumes ok: "inner_ok inner" and k: "k \<le> length (slot_access inner)" and o: "original \<Longrightarrow> k = 0"
  shows "\<exists>inner'. nested_drop (NestedReadWrite k original) inner = Some inner' \<and> inner_ok inner' \<and>
    slot_access inner' = take k (slot_access inner)"
proof -
  let ?i = "inner\<lparr>slot_access := take k (slot_access inner), slots := fixed_up commit_state k inner\<rparr>"
  have "inner_ok ?i" by (rule commit_ok(2) [OF ok k])
  moreover from this have "original \<Longrightarrow>
      inner_ok (?i\<lparr>slots := filter (\<lambda>(slot_key, _). key_contract slot_key \<noteq> NULL) (slots ?i)\<rparr>)"
    by (rule inner_ok_filter) (simp add: o)
  ultimately show ?thesis
    using commit_ok(1) [OF ok k] k by (cases original) (simp_all add: drain_from_def)
qed

lemma nested_reset_ok:
  assumes ok: "inner_ok inner" and k: "k \<le> length (slot_access inner)"
  shows "\<exists>inner'. nested_reset (NestedReadWrite k original) inner = Some (NestedReadWrite 0 original, inner') \<and>
    inner_ok inner' \<and> slot_access inner' = take k (slot_access inner)"
  using reset_ok [OF ok k] k by (simp add: drain_from_def)

lemma frames_ok_mono: "frames_ok n (f # st) \<Longrightarrow> is_rw f \<Longrightarrow> n \<le> m \<Longrightarrow> frames_ok m (f # st)"
  by (cases f) auto

lemma frames_ok_no_rw: "frames_ok n st \<Longrightarrow> \<not> list_ex is_rw st \<Longrightarrow> n = 0"
  by (induction n st rule: frames_ok.induct) auto

lemma use_ro_internal_access:
  assumes "inner_ok inner"
  shows "length (slot_access inner) \<le> length (slot_access (snd (use_ro_internal k inner)))"
  by (cases rule: use_ro_internal_cases [OF assms, of k]) auto

lemma use_rw_internal_access:
  assumes "inner_ok inner" "use_rw_internal k c inner = Some (r, inner')"
  shows "length (slot_access inner) \<le> length (slot_access inner')"
  using assms(2) by (cases rule: use_rw_internal_cases [OF assms(1), of k c]) auto

primrec op_ok :: "slots_op \<Rightarrow> bool" where
  "op_ok OpNestedRw = True"
| "op_ok OpNestedRo = True"
| "op_ok (OpAddNewContract a) = True"
| "op_ok (OpUseRo k) = True"
| "op_ok (OpUseRw k c) = True"
| "op_ok (OpWrite i bs) = (length bs < 2 ^ 32)"
| "op_ok OpReset = True"
| "op_ok OpDrop = True"

lemma inner_ok_new_contracts [simp]: "inner_ok (inner\<lparr>new_contracts := x\<rparr>) = inner_ok inner"
  by (simp add: inner_ok_def accessed_def)

lemma frame_step_ok:
  assumes ok: "inner_ok inner" and op: "op_ok op"
  shows "\<exists>r inner'. frame_step op n inner = Some (r, inner') \<and> inner_ok inner' \<and>
    (if is_rw n then length (slot_access inner) \<le> length (slot_access inner') else inner' = inner)"
proof (cases op)
  case (OpAddNewContract a)
  then show ?thesis using ok by (cases n) auto
next
  case (OpUseRo k)
  then show ?thesis
    using ok use_ro_internal_ok [OF ok, of k] use_ro_internal_access [OF ok, of k]
    by (cases n; cases "use_ro_internal k inner") auto
next
  case (OpUseRw k c)
  then show ?thesis
    using ok use_rw_internal_ok [OF ok, of k c] use_rw_internal_access [OF ok, of k c]
    by (cases n) fastforce+
next
  case (OpWrite i bs)
  then show ?thesis
    using write_used_ok [OF ok, of bs n i] op ok by (cases n) (auto simp: write_used_def)
qed (use ok in auto)

section \<open>Reachable states\<close>

primrec slot_key_of :: "Slot \<Rightarrow> SlotKey" where
  "slot_key_of (ReadOnlySlot k _) = k"
| "slot_key_of (ReadWriteSlot k _) = k"

primrec slot_buffer_of :: "Slot \<Rightarrow> SharedAlignedBuffer" where
  "slot_buffer_of (ReadOnlySlot _ b) = b"
| "slot_buffer_of (ReadWriteSlot _ b) = b"

text \<open>The slots given to \<open>Slots::new\<close> come from a map and hold buffers with a \<open>u32\<close> length.\<close>

definition input_ok :: "Slot list \<Rightarrow> bool" where
  "input_ok ss \<longleftrightarrow> distinct (map slot_key_of ss) \<and> list_all (\<lambda>s. length (slot_buffer_of s) < 2 ^ 32) ss"

text \<open>A reset is safe when the views below the one being reset began with no access at all.\<close>

fun reset_safe :: "slots_op \<Rightarrow> NestedSlots list \<Rightarrow> bool" where
  "reset_safe OpReset (NestedReadWrite _ _ # st) = list_all (\<lambda>f. is_rw f \<longrightarrow> parent_slot_access_len f = 0) st"
| "reset_safe _ _ = True"

inductive slots_reach :: "Slot list \<Rightarrow> Inner \<times> NestedSlots list \<Rightarrow> bool" for ss where
  reach_new: "slots_reach ss (slots_new ss, [])"
| reach_step: "slots_reach ss s \<Longrightarrow> op_ok op \<Longrightarrow> reset_safe op (snd s) \<Longrightarrow>
    slots_step op s = Some (r, s') \<Longrightarrow> slots_reach ss s'"

lemma slots_new_ok:
  assumes "input_ok ss"
  shows "state_ok (slots_new ss, [])"
proof -
  have keys: "map fst (slots (slots_new ss)) = map slot_key_of (filter (\<lambda>s. \<not> is_null_contract s) ss)" for ss
    by (induction ss) (auto simp: slots_new_def map_filter_simps split: Slot.split)
  have all: "\<forall>x \<in> set (slots (slots_new ss)). idle_ok (snd x) \<and> state_fits (snd x)"
    using assms by (induction ss)
      (auto simp: slots_new_def map_filter_simps input_ok_def state_fits_def split: Slot.splits if_splits)
  have "distinct (map fst (slots (slots_new ss)))"
    using assms by (simp add: keys input_ok_def distinct_map_filter)
  then show ?thesis
    using all nth_mem [of _ "slots (slots_new ss)"]
    by (auto simp: inner_ok_def slots_new_def)
qed

lemma frames_ok_zero:
  "frames_ok n st \<Longrightarrow> list_all (\<lambda>f. is_rw f \<longrightarrow> parent_slot_access_len f = 0) st \<Longrightarrow> frames_ok 0 st"
  by (induction n st rule: frames_ok.induct) auto

lemma slots_step_ok:
  assumes ok: "state_ok (inner, st)" and op: "op_ok op" and safe: "reset_safe op st"
  shows "\<exists>r s'. slots_step op (inner, st) = Some (r, s') \<and> state_ok s'"
proof (cases st)
  case Nil
  then show ?thesis
    using ok by (cases op) (auto simp: slots_new_nested_rw_def slots_new_nested_ro_def slots_add_new_contract_def)
next
  case (Cons n st')
  note inner = ok [unfolded Cons state_ok.simps]
  have frame: ?thesis if "slots_step op (inner, st) =
      do { (r, inner) \<leftarrow> frame_step op n inner; Some (r, inner, n # st') }"
  proof -
    obtain r inner' where "frame_step op n inner = Some (r, inner')" "inner_ok inner'"
      "if is_rw n then length (slot_access inner) \<le> length (slot_access inner') else inner' = inner"
      using frame_step_ok [OF conjunct1 [OF inner] op] by blast
    then show ?thesis
      using that inner frames_ok_mono [of "length (slot_access inner)" n st']
      by (auto split: if_splits)
  qed
  show ?thesis
  proof (cases op)
    case OpNestedRw
    then show ?thesis using inner Cons by (cases n) auto
  next
    case OpNestedRo
    then show ?thesis using inner Cons by (simp add: nested_new_nested_ro_def)
  next
    case OpReset
    show ?thesis
    proof (cases n)
      case (NestedReadWrite k original)
      then have "frames_ok 0 st'"
        using inner safe Cons OpReset frames_ok_zero [of k st'] by simp
      then show ?thesis
        using nested_reset_ok [of inner k original] inner Cons OpReset NestedReadWrite
        by (auto simp del: nested_reset.simps)
    qed (use inner Cons OpReset in simp)
  next
    case OpDrop
    show ?thesis
    proof (cases n)
      case (NestedReadWrite k original)
      then have "original \<Longrightarrow> k = 0" using inner frames_ok_no_rw [of k st'] by auto
      then show ?thesis
        using nested_drop_ok [of inner k original] inner Cons OpDrop NestedReadWrite
        by (auto simp del: nested_drop.simps)
    qed (use inner Cons OpDrop in simp)
  qed (use frame Cons in simp_all)
qed

lemma slots_reach_ok: "slots_reach ss s \<Longrightarrow> input_ok ss \<Longrightarrow> state_ok s"
proof (induction rule: slots_reach.induct)
  case reach_new
  then show ?case by (rule slots_new_ok)
next
  case (reach_step s op r s')
  then show ?case
    using slots_step_ok [of "fst s" "snd s" op] by auto
qed

end
