(* ===== verification/Slots_Store.thy ===== *)
theory Slots_Store
  imports Slots
begin

text \<open>
  What the slots of the executor do for their clients: over the invariant of \<^verbatim>\<open>Slots\<close>, the
  operations implement a store from keys to bytes, access for writing is exclusive, and a reset
  brings the old contents back. The last section shows three situations in which the code does
  not do what its documentation promises.
\<close>

section \<open>Contents\<close>

text \<open>What the slots hold, as a store from keys to bytes: now, or as a reset would leave it.\<close>

definition contents :: "(SlotState \<Rightarrow> u8 list) \<Rightarrow> Inner \<Rightarrow> SlotKey \<rightharpoonup> u8 list" where
  "contents f inner = map_of (map (apsnd f) (slots inner))"

lemma contents_alt: "contents f inner = map_option f \<circ> map_of (slots inner)"
proof -
  have "map_of (map (apsnd f) xs) = map_option f \<circ> map_of xs" for xs :: "(SlotKey \<times> SlotState) list"
    by (induction xs) (auto simp: fun_eq_iff)
  then show ?thesis by (simp add: contents_def)
qed

lemma map_of_filter_key: "map_of (filter (\<lambda>(k, _). P k) xs) = map_of xs |` {k. P k}"
  by (induction xs) (auto simp: restrict_map_def fun_eq_iff)

lemma contents_update:
  assumes "inner_ok inner" "i < length (slots inner)"
  shows "contents f (inner\<lparr>slots := (slots inner)[i := (fst (slots inner ! i), s)]\<rparr>) =
    (contents f inner)(fst (slots inner ! i) \<mapsto> f s)"
  using map_of_list_update [OF inner_okD(1) [OF assms(1)] assms(2), of s]
  by (auto simp: contents_alt fun_eq_iff)

lemma contents_access [simp]: "contents f (inner\<lparr>slot_access := x\<rparr>) = contents f inner"
  "contents f (inner\<lparr>new_contracts := y\<rparr>) = contents f inner"
  "contents f (inner\<lparr>slot_access := x, slots := z\<rparr>) = contents f (inner\<lparr>slots := z\<rparr>)"
  by (simp_all add: contents_def)

lemma contents_append:
  "k \<notin> fst ` set (slots inner) \<Longrightarrow>
    contents f (inner\<lparr>slots := slots inner @ [(k, s)]\<rparr>) = (contents f inner)(k \<mapsto> f s)"
  using map_of_eq_None_iff [of "slots inner" k]
  by (auto simp: contents_alt fun_eq_iff map_add_def split: option.split)

lemma contents_None: "contents f inner k = None \<longleftrightarrow> k \<notin> fst ` set (slots inner)"
  by (simp add: contents_alt map_of_eq_None_iff)

lemma contents_position:
  "position (\<lambda>(c, _). c = k) (slots inner) = Some i \<Longrightarrow> contents f inner k = Some (f (snd (slots inner ! i)))"
  by (simp add: contents_alt map_of_position)

lemma contents_fixed_up:
  assumes ok: "inner_ok inner" and k: "k \<le> length (slot_access inner)"
    and f: "\<And>rw s. access_ok rw s \<Longrightarrow> state_fits s \<Longrightarrow> g (the (f s)) = h s"
    and idle: "\<And>i. i < length (slots inner) \<Longrightarrow>
      i \<notin> slot_index ` set (drop k (slot_access inner)) \<Longrightarrow> g (snd (slots inner ! i)) = h (snd (slots inner ! i))"
  shows "contents g (inner\<lparr>slots := fixed_up f k inner\<rparr>) = contents h inner"
proof -
  have "map (apsnd g) (fixed_up f k inner) = map (apsnd h) (slots inner)"
  proof (rule nth_equalityI)
    fix i assume "i < length (map (apsnd g) (fixed_up f k inner))"
    then have i: "i < length (slots inner)" by (simp add: fixed_up_def)
    show "map (apsnd g) (fixed_up f k inner) ! i = map (apsnd h) (slots inner) ! i"
    proof (cases "i \<in> slot_index ` set (drop k (slot_access inner))")
      case True
      then obtain a where a: "a \<in> set (slot_access inner)" "slot_index a = i"
        by (auto dest: in_set_dropD)
      then show ?thesis
        using f [OF inner_okD(4) [OF ok a(1)]] inner_okD(6) [OF ok i] i True
        by (simp add: fixed_up_def prod_eq_iff)
    next
      case False
      then show ?thesis using idle [OF i] i by (simp add: fixed_up_def prod_eq_iff)
    qed
  qed (simp add: fixed_up_def)
  then show ?thesis by (simp add: contents_def)
qed

lemma contents_commit:
  assumes "inner_ok inner" "k \<le> length (slot_access inner)"
  shows "contents slot_bytes (inner\<lparr>slots := fixed_up commit_state k inner\<rparr>) = contents slot_bytes inner"
  using assms commit_access by (intro contents_fixed_up) fastforce+



section \<open>The store that the slots implement\<close>

text \<open>
  What an operation may do to a store from keys to bytes, forgetting access tracking: reading
  returns the bytes, writing replaces the bytes of one key, opening and dropping views changes
  nothing, except that dropping the outermost view forgets the ephemeral slots.
\<close>

type_synonym store = "SlotKey \<rightharpoonup> u8 list"

fun store_step :: "slots_op \<Rightarrow> SlotKey list \<Rightarrow> NestedSlots list \<Rightarrow> store \<Rightarrow> slots_out \<Rightarrow> store \<Rightarrow> bool" where
  "store_step (OpUseRo k) ks st v (OutRo None) v' \<longleftrightarrow> v' = v"
| "store_step (OpUseRo k) ks st v (OutRo (Some bs)) v' \<longleftrightarrow>
    (v k = Some bs \<and> v' = v) \<or> (v k = None \<and> bs = [] \<and> v' \<in> {v, v(k \<mapsto> [])})"
| "store_step (OpUseRw k c) ks st v (OutRw None) v' \<longleftrightarrow> v' = v"
| "store_step (OpUseRw k c) ks st v (OutRw (Some (i, b))) v' \<longleftrightarrow>
    c \<le> ob_capacity b \<and>
    (v k = Some (ob_bytes b) \<and> i < length ks \<and> ks ! i = k \<and> v' = v \<or>
     v k = None \<and> ob_bytes b = [] \<and> i = length ks \<and> v' = v(k \<mapsto> []))"
| "store_step (OpWrite i bs) ks st v (OutBool r) v' \<longleftrightarrow>
    v' = (if r then v(ks ! i \<mapsto> bs) else v)"
| "store_step OpDrop ks (NestedReadWrite k True # st) v r v' \<longleftrightarrow> v' = v |` {k. key_contract k \<noteq> NULL}"
| "store_step op ks st v r v' \<longleftrightarrow> v' = v"

lemma contents_same_update:
  assumes "inner_ok inner" "i < length (slots inner)" "fst (slots inner ! i) = k"
    "f s = f (snd (slots inner ! i))"
  shows "contents f (inner\<lparr>slots := (slots inner)[i := (k, s)]\<rparr>) = contents f inner"
proof -
  have "contents f inner k = Some (f s)"
    using contents_position [OF position_key_unique [OF inner_okD(1) [OF assms(1)] assms(2)], of f] assms(3,4)
    by simp
  then show ?thesis
    using contents_update [OF assms(1,2), of f s] assms(3) by (auto simp: fun_eq_iff)
qed

lemma use_ro_store:
  assumes ok: "inner_ok inner"
  shows "store_step (OpUseRo k) ks st (contents slot_bytes inner) (OutRo (fst (use_ro_internal k inner)))
    (contents slot_bytes (snd (use_ro_internal k inner)))"
proof (cases rule: use_ro_internal_cases [OF ok, of k])
  case (1 i s)
  have "contents slot_bytes (inner\<lparr>slots := (slots inner)[i := (k, s)]\<rparr>) = contents slot_bytes inner"
    using 1 by (intro contents_same_update [OF ok]) auto
  then show ?thesis using 1 contents_position [OF 1(1), of slot_bytes] by simp
next
  case (2 i)
  then show ?thesis using contents_position [OF 2(1), of slot_bytes] by simp
next
  case 4
  then show ?thesis using contents_None [of slot_bytes inner k]
    by (simp add: contents_append)
qed simp

lemma use_rw_store:
  assumes ok: "inner_ok inner" and r: "use_rw_internal k c inner = Some (r, inner')"
  shows "store_step (OpUseRw k c) (map fst (slots inner)) st (contents slot_bytes inner) (OutRw r)
    (contents slot_bytes inner')"
proof (cases rule: use_rw_internal_cases [OF ok, of k c])
  case (1 i b s)
  have "contents slot_bytes (inner\<lparr>slots := (slots inner)[i := (k, s)]\<rparr>) = contents slot_bytes inner"
    using 1 by (intro contents_same_update [OF ok]) auto
  then show ?thesis using 1 r contents_position [OF 1(1), of slot_bytes] by auto
next
  case (2 i x)
  have "contents slot_bytes (inner\<lparr>slots := (slots inner)[i := (k, OriginalReadOnly x)]\<rparr>) = contents slot_bytes inner"
    using 2 by (intro contents_same_update [OF ok]) auto
  then show ?thesis using 2 r by auto
next
  case 4
  then show ?thesis using r contents_None [of slot_bytes inner k]
    by (auto simp: contents_append ob_with_capacity_def)
qed (use r in auto)

lemma write_store:
  assumes ok: "inner_ok inner" and bs: "length bs < 2 ^ 32" and r: "write_used n i bs inner = Some (r, inner')"
  shows "store_step (OpWrite i bs) (map fst (slots inner)) st (contents slot_bytes inner) (OutBool r)
    (contents slot_bytes inner')"
proof (cases rule: write_used_cases [OF ok bs, of i n])
  case (1 b s)
  then show ?thesis using r contents_update [OF ok 1(1), of slot_bytes s] by auto
qed (use r in auto)

lemma read_only_store:
  assumes ok: "inner_ok inner"
  shows "store_step (OpUseRo k) ks st (contents slot_bytes inner)
    (OutRo (use_ro_internal_read_only k inner)) (contents slot_bytes inner)"
proof (cases "position (\<lambda>(c, _). c = k) (slots inner)")
  case None
  then have "contents slot_bytes inner k = None"
    by (simp add: contents_None position_key_None)
  then show ?thesis using None by (simp add: use_ro_internal_read_only_def)
next
  case (Some i)
  then show ?thesis
    using contents_position [OF Some, of slot_bytes]
    by (cases "snd (slots inner ! i)"; cases "find_access i (slot_access inner) = Some True")
      (simp_all add: use_ro_internal_read_only_def)
qed

lemma frame_step_store:
  assumes ok: "inner_ok inner" and op: "op_ok op" and r: "frame_step op n inner = Some (r, inner')"
    and frame: "op \<noteq> OpDrop"
  shows "store_step op (map fst (slots inner)) (n # st) (contents slot_bytes inner) r (contents slot_bytes inner')"
proof (cases op)
  case (OpAddNewContract a)
  then show ?thesis using r by (cases n) (auto split: if_splits)
next
  case (OpUseRo k)
  then show ?thesis
    using r use_ro_store [OF ok, of k "map fst (slots inner)" "n # st"]
      read_only_store [OF ok, of k "map fst (slots inner)" "n # st"]
    by (cases n; cases "use_ro_internal k inner") auto
next
  case (OpUseRw k c)
  then show ?thesis
    using r use_rw_store [OF ok, of k c _ inner' "n # st"] by (cases n) (auto split: Option.bind_splits)
next
  case (OpWrite i bs)
  then obtain q where q: "write_used n i bs inner = Some (q, inner')" "r = OutBool q"
    using r by (auto split: Option.bind_splits)
  have "length bs < 2 ^ 32" using op OpWrite by simp
  from write_store [OF ok this q(1)] show ?thesis by (simp add: q(2) OpWrite del: store_step.simps)
qed (use r frame in auto)

lemma nested_drop_store:
  assumes ok: "inner_ok inner" and k: "k \<le> length (slot_access inner)"
    and d: "nested_drop (NestedReadWrite k original) inner = Some inner'"
  shows "store_step OpDrop ks (NestedReadWrite k original # st) (contents slot_bytes inner) r (contents slot_bytes inner')"
proof -
  let ?ss = "fixed_up commit_state k inner"
  note same = contents_commit [OF ok k]
  have "contents slot_bytes (inner\<lparr>slots := filter (\<lambda>(k, _). key_contract k \<noteq> NULL) ?ss\<rparr>) =
      contents slot_bytes (inner\<lparr>slots := ?ss\<rparr>) |` {k. key_contract k \<noteq> NULL}"
    by (auto simp: contents_alt map_of_filter_key restrict_map_def fun_eq_iff)
  then show ?thesis
    using d k commit_ok(1) [OF ok k] same by (cases original) (auto simp: drain_from_def)
qed

lemma slots_step_store:
  assumes ok: "state_ok (inner, st)" and op: "op_ok op" and reset: "op \<noteq> OpReset"
    and r: "slots_step op (inner, st) = Some (r, inner', st')"
  shows "store_step op (map fst (slots inner)) st (contents slot_bytes inner) r (contents slot_bytes inner')"
proof (cases st)
  case Nil
  then show ?thesis
    using r reset by (cases op) (auto simp: slots_add_new_contract_def split: if_splits slots_out.split)
next
  case (Cons n st1)
  have inner: "inner_ok inner" using ok by simp
  have frame: "frame_step op n inner = Some (r, inner')" if "op \<noteq> OpDrop" "op \<noteq> OpNestedRw" "op \<noteq> OpNestedRo"
    using that r reset Cons by (cases op) (auto split: Option.bind_splits)
  show ?thesis
  proof (cases "op \<in> {OpDrop, OpNestedRw, OpNestedRo}")
    case False
    then show ?thesis using frame_step_store [OF inner op frame] Cons by simp
  next
    case True
    then consider "op = OpDrop" | "op = OpNestedRw" | "op = OpNestedRo" by auto
    then show ?thesis
    proof cases
      case 1
      then show ?thesis
      proof (cases n)
        case (NestedReadWrite k original)
        then show ?thesis
          using 1 r Cons ok nested_drop_store [OF inner, of k original inner' _ st1 r]
          by (auto split: Option.bind_splits simp del: nested_drop.simps)
      qed (use 1 r Cons in auto)
    qed (use r Cons in \<open>auto split: option.splits\<close>)
  qed
qed

section \<open>Rolling back\<close>


text \<open>What a reset would restore only grows, by slots that are empty.\<close>

definition grows :: "store \<Rightarrow> store \<Rightarrow> bool" where
  "grows v v' \<longleftrightarrow> (\<forall>k. v' k = v k \<or> v k = None \<and> v' k = Some [])"

lemma grows_refl [simp]: "grows v v"
  by (simp add: grows_def)








section \<open>Runs\<close>

primrec slots_run :: "slots_op list \<Rightarrow> Inner \<times> NestedSlots list \<Rightarrow>
    (slots_out list \<times> Inner \<times> NestedSlots list) option" where
  "slots_run [] s = Some ([], s)"
| "slots_run (op # ops) s = do {
     (r, s) \<leftarrow> slots_step op s;
     (rs, s) \<leftarrow> slots_run ops s;
     Some (r # rs, s)
   }"

lemma reset_safe_other [simp]: "op \<noteq> OpReset \<Longrightarrow> reset_safe op st"
  by (cases op) auto

lemma slots_reach_run:
  assumes "slots_reach ss s" "list_all (\<lambda>op. op_ok op \<and> op \<noteq> OpReset) ops" "slots_run ops s = Some (rs, s')"
  shows "slots_reach ss s'"
  using assms
proof (induction ops arbitrary: s rs)
  case (Cons op ops)
  then obtain r s1 rs1 where "slots_step op s = Some (r, s1)" "slots_run ops s1 = Some (rs1, s')"
    by (auto split: Option.bind_splits)
  then show ?case
    using Cons reach_step [of ss s op r s1] by auto
qed simp

lemmas slots_eval = slots_new_def map_filter_simps slots_new_nested_rw_def slots_new_nested_ro_def
  nested_new_nested_ro_def use_ro_internal_def use_rw_internal_def use_ro_internal_read_only_def
  find_access_def may_create_def writable_copy_Some drain_from_def write_used_def ob_copy_from_slice_def
  ob_with_capacity_def ob_into_shared_def sb_len_def ob_grow_def slots_add_new_contract_def

definition key_a :: SlotKey where "key_a = \<lparr>key_owner = Address 5 0, key_contract = Address 6 0\<rparr>"
definition key_b :: SlotKey where "key_b = \<lparr>key_owner = Address 7 0, key_contract = Address 6 0\<rparr>"

definition demo_slots :: "Slot list" where
  "demo_slots = [ReadWriteSlot key_a [1, 2], ReadWriteSlot key_b [3]]"

lemma demo_keys: "key_a \<noteq> key_b" "key_contract key_a \<noteq> NULL" "key_contract key_b \<noteq> NULL"
  by (simp_all add: key_a_def key_b_def NULL_def Address_from_def)

lemma demo_input_ok: "input_ok demo_slots"
  by (simp add: input_ok_def demo_slots_def demo_keys)

section \<open>Properties\<close>



text \<open>
  C13: the slots implement a store from keys to bytes. Every operation other than a reset, on any
  reachable state, does to the contents what \<open>store_step\<close> says: a read returns the current
  bytes, a write access returns a buffer that holds them and has the requested capacity, writing
  through it changes that one key, refusals change nothing, and dropping a view keeps all
  contents (but for the ephemeral slots when the outermost view is dropped).
\<close>

theorem slots_implement_store:
  assumes "input_ok ss" and "slots_reach ss (inner, st)" and "op_ok op" and "op \<noteq> OpReset"
    and "slots_step op (inner, st) = Some (r, inner', st')"
  shows "store_step op (map fst (slots inner)) st (contents slot_bytes inner) r (contents slot_bytes inner')"
  using slots_step_store [OF slots_reach_ok [OF assms(2,1)] assms(3-5)] .

definition demo_rw :: "Inner \<times> NestedSlots list" where
  "demo_rw = (\<lparr>slots = [(key_a, OriginalReadWrite \<lparr>ob_bytes = [1, 2], ob_capacity = 8\<rparr> [1, 2]), (key_b, Original [3])],
     slot_access = [\<lparr>slot_index = 0, read_write = True\<rparr>], new_contracts = []\<rparr>, [NestedReadWrite 0 True])"

lemma demo_rw_run:
  "slots_run [OpNestedRw, OpUseRw key_a 8] (slots_new demo_slots, []) =
    Some ([OutUnit, OutRw (Some (0, \<lparr>ob_bytes = [1, 2], ob_capacity = 8\<rparr>))], demo_rw)"
  using demo_keys by (simp add: demo_slots_def slots_eval demo_rw_def)

lemma demo_rw_reach: "slots_reach demo_slots demo_rw"
  using slots_reach_run [OF reach_new _ demo_rw_run] by simp

theorem slots_implement_store_witness:
  "\<exists>inner'. slots_step (OpWrite 0 [9]) demo_rw = Some (OutBool True, inner', [NestedReadWrite 0 True]) \<and>
    contents slot_bytes inner' = (contents slot_bytes (fst demo_rw))(key_a \<mapsto> [9])"
proof -
  obtain inner' where 1: "slots_step (OpWrite 0 [9]) demo_rw = Some (OutBool True, inner', [NestedReadWrite 0 True])"
    by (simp add: demo_rw_def slots_eval)
  show ?thesis
    using slots_implement_store [OF demo_input_ok demo_rw_reach [unfolded demo_rw_def], of "OpWrite 0 [9]"
        "OutBool True" inner' "[NestedReadWrite 0 True]"] 1
    by (simp add: demo_rw_def)
qed






section \<open>Where the code does not keep its promises\<close>

text \<open>
  C16: resetting a nested call destroys the caller's view. \<open>reset\<close> sets the position the view
  remembers to zero, so the drop that follows drains the accesses of all views below as well.
  Afterwards the caller has lost every slot it was writing to (the executor expects to find them),
  and if the caller's own view had begun with slots in use, dropping it panics.
\<close>

theorem nested_reset_breaks_caller:
  assumes "input_ok ss"
    and "slots_reach ss (inner, NestedReadWrite k2 o2 # NestedReadWrite k1 o1 # st)"
  shows "\<exists>inner1 inner2.
    slots_step OpReset (inner, NestedReadWrite k2 o2 # NestedReadWrite k1 o1 # st) =
      Some (OutUnit, inner1, NestedReadWrite 0 o2 # NestedReadWrite k1 o1 # st) \<and>
    slots_step OpDrop (inner1, NestedReadWrite 0 o2 # NestedReadWrite k1 o1 # st) =
      Some (OutUnit, inner2, NestedReadWrite k1 o1 # st) \<and>
    (\<forall>i. access_used_rw (NestedReadWrite k1 o1) i inner2 = None) \<and>
    (0 < k1 \<longrightarrow> slots_step OpDrop (inner2, NestedReadWrite k1 o1 # st) = None)"
proof -
  have ok: "inner_ok inner" "k2 \<le> length (slot_access inner)"
    using slots_reach_ok [OF assms(2,1)] by simp_all
  obtain inner1 where 1: "nested_reset (NestedReadWrite k2 o2) inner = Some (NestedReadWrite 0 o2, inner1)"
    "inner_ok inner1"
    using nested_reset_ok [OF ok] by blast
  obtain inner2 where 2: "nested_drop (NestedReadWrite 0 o2) inner1 = Some inner2" "inner_ok inner2"
    "slot_access inner2 = []"
    using nested_drop_ok [OF 1(2), of 0 o2] by (auto simp del: nested_drop.simps)
  have "access_used_rw (NestedReadWrite k1 o1) i inner2 = None" for i
  proof (cases "i < length (slots inner2)")
    case True
    then have "idle_ok (snd (slots inner2 ! i))" using inner_ok_idle [OF 2(2,3)] by simp
    then show ?thesis by (cases "snd (slots inner2 ! i)") auto
  qed simp
  moreover have "nested_drop (NestedReadWrite k1 o1) inner2 = None" if "0 < k1"
    using that 2(3) by (simp add: drain_from_def)
  ultimately show ?thesis
    using 1(1) 2(1) by (auto simp del: nested_reset.simps nested_drop.simps access_used_rw.simps)
qed

definition demo_nested :: "Inner \<times> NestedSlots list" where
  "demo_nested = (fst demo_rw, [NestedReadWrite 1 False, NestedReadWrite 1 False, NestedReadWrite 0 True])"

lemma demo_nested_reach: "slots_reach demo_slots demo_nested"
proof -
  have "slots_run [OpNestedRw, OpNestedRw] demo_rw = Some ([OutBool True, OutBool True], demo_nested)"
    by (simp add: demo_rw_def demo_nested_def)
  from slots_reach_run [OF demo_rw_reach _ this] show ?thesis by simp
qed

theorem nested_reset_breaks_caller_witness:
  "\<exists>inner2. slots_run [OpReset, OpDrop] demo_nested =
      Some ([OutUnit, OutUnit], inner2, [NestedReadWrite 1 False, NestedReadWrite 0 True]) \<and>
    slots_run [OpReset, OpDrop, OpDrop] demo_nested = None"
proof -
  obtain inner1 inner2 where
    "slots_step OpReset demo_nested = Some (OutUnit, inner1, [NestedReadWrite 0 False, NestedReadWrite 1 False, NestedReadWrite 0 True])"
    "slots_step OpDrop (inner1, [NestedReadWrite 0 False, NestedReadWrite 1 False, NestedReadWrite 0 True]) =
      Some (OutUnit, inner2, [NestedReadWrite 1 False, NestedReadWrite 0 True])"
    "slots_step OpDrop (inner2, [NestedReadWrite 1 False, NestedReadWrite 0 True]) = None"
    using nested_reset_breaks_caller [OF demo_input_ok demo_nested_reach [unfolded demo_nested_def]]
    by (auto simp: demo_nested_def simp del: slots_step.simps)
  then show ?thesis by (simp del: slots_step.simps)
qed

text \<open>
  C17: a slot given as read-only can be written to. A write access to it is refused, but is still
  recorded, and dropping the view turns the slot into an ordinary one; the next view may write
  to it.
\<close>

theorem read_only_slot_becomes_writable:
  assumes "key_contract k \<noteq> NULL" and "length x < 2 ^ 32"
  shows "\<exists>b s. slots_run [OpNestedRw, OpUseRw k c, OpDrop, OpNestedRw, OpUseRw k c]
      (slots_new [ReadOnlySlot k x], []) =
    Some ([OutUnit, OutRw None, OutUnit, OutUnit, OutRw (Some (0, b))], s) \<and> ob_bytes b = x"
  using assms by (simp add: slots_eval)

theorem read_only_slot_becomes_writable_witness:
  "\<exists>b s. slots_run [OpNestedRw, OpUseRw key_a 4, OpDrop, OpNestedRw, OpUseRw key_a 4]
      (slots_new [ReadOnlySlot key_a [1]], []) =
    Some ([OutUnit, OutRw None, OutUnit, OutUnit, OutRw (Some (0, b))], s) \<and> ob_bytes b = [1]"
  using read_only_slot_becomes_writable [OF demo_keys(2), of "[1]" 4] by simp

text \<open>
  C18: a new contract on one shard opens the slots of foreign addresses. Slots may only be created
  for contracts that were created in the transaction; because the check compares a reference with
  an address, it also accepts the address with the same number on any other shard, as owner or as
  contract, although that address is not among the new contracts.
\<close>

theorem new_contract_opens_foreign_slots:
  assumes "s \<le> MAX_SHARD_INDEX" and "t \<le> MAX_SHARD_INDEX" and "s \<noteq> t" and "j < 2 ^ 108"
    and "new_contracts inner = [Address_from (u128_from_Address (system_address_allocator s) + j)]"
    and "key_owner k = Address_from (u128_from_Address (system_address_allocator t) + j)"
    and "k \<notin> fst ` set (slots inner)"
  shows "key_owner k \<notin> set (new_contracts inner) \<and>
    use_rw (NestedReadWrite n original) k c inner = Some (Some (length (slots inner), ob_with_capacity c),
      inner\<lparr>slot_access := slot_access inner @ [\<lparr>slot_index = length (slots inner), read_write = True\<rparr>],
        slots := slots inner @ [(k, OriginalReadWrite (ob_with_capacity c) [])]\<rparr>)"
proof -
  have "may_create k (new_contracts inner)"
    using assms(1,2,5,6) by (simp add: may_create_def ref_eq_Address_def low_half_shard_base)
  moreover have "position (\<lambda>(x, _). x = k) (slots inner) = None"
    using assms(7) by (simp add: position_key_None)
  moreover have "key_owner k \<notin> set (new_contracts inner)"
    using address_shard_base [OF assms(1,4)] address_shard_base [OF assms(2,4)] assms(3,5,6)
    by (metis empty_iff empty_set set_ConsD)
  ultimately show ?thesis by (simp add: use_rw_internal_def Let_def)
qed

theorem new_contract_opens_foreign_slots_witness:
  "\<exists>inner k r. new_contracts inner = [Address_from (u128_from_Address (system_address_allocator 1) + 7)] \<and>
    key_owner k = Address_from (u128_from_Address (system_address_allocator 2) + 7) \<and>
    key_owner k \<notin> set (new_contracts inner) \<and>
    use_rw (NestedReadWrite 0 True) k 4 inner = Some (Some (0, ob_with_capacity 4), r)"
proof -
  define inner :: Inner where "inner = \<lparr>slots = [], slot_access = [],
    new_contracts = [Address_from (u128_from_Address (system_address_allocator 1) + 7)]\<rparr>"
  define k where "k = \<lparr>key_owner = Address_from (u128_from_Address (system_address_allocator 2) + 7), key_contract = SYSTEM_STATE\<rparr>"
  have "1 \<le> MAX_SHARD_INDEX" "2 \<le> MAX_SHARD_INDEX" "(7 :: u128) < 2 ^ 108" "(1 :: u32) \<noteq> 2"
    by (simp_all add: MAX_SHARD_INDEX_def MAX_SHARDS_def)
  moreover have "new_contracts inner = [Address_from (u128_from_Address (system_address_allocator 1) + 7)]"
    "key_owner k = Address_from (u128_from_Address (system_address_allocator 2) + 7)"
    "k \<notin> fst ` set (slots inner)" "length (slots inner) = 0"
    by (simp_all add: inner_def k_def)
  ultimately show ?thesis
    using new_contract_opens_foreign_slots [of 1 2 7 inner k 0 True 4] by (metis)
qed

text \<open>
  C19: iterating over the slots panics exactly when a read-only slot has not been touched. On a
  collection without open views, \<open>iter\<close> and \<open>into_slots\<close> return every key with its contents when
  all slots are original or modified, and otherwise hit the arm they call unreachable.
\<close>

theorem slots_iter_result:
  assumes "input_ok ss" and "slots_reach ss (inner, [])"
  shows "slots_iter inner = (if \<exists>x \<in> set (slots inner). \<exists>b. snd x = OriginalReadOnly b then None
    else Some (map (apsnd slot_bytes) (slots inner))) \<and> slots_into_slots inner = slots_iter inner"
proof -
  have ok: "inner_ok inner" "slot_access inner = []"
    using slots_reach_ok [OF assms(2,1)] by auto
  have "slots_iter_list xs = (if \<exists>x \<in> set xs. \<exists>b. snd x = OriginalReadOnly b then None
      else Some (map (apsnd slot_bytes) xs))" if "\<forall>x \<in> set xs. idle_ok (snd x)" for xs
    using that
  proof (induction xs)
    case (Cons x xs)
    then show ?case by (cases "snd x") (auto simp: prod_eq_iff)
  qed simp
  then show ?thesis using inner_ok_idle [OF ok] by (simp add: slots_iter_def slots_into_slots_def)
qed

theorem slots_iter_result_witness:
  "slots_iter (slots_new demo_slots) = Some [(key_a, [1, 2]), (key_b, [3])] \<and>
    slots_into_slots (slots_new demo_slots) = slots_iter (slots_new demo_slots)"
  using slots_iter_result [OF demo_input_ok reach_new] demo_keys by (auto simp: demo_slots_def slots_eval)

end
