(* ===== verification/Rust_Slices.thy ===== *)
theory Rust_Slices
  imports Prelude "HOL-Library.Log_Nat"
begin

text \<open>
  Slices and arrays of the Rust standard library as lists. An operation that panics on a
  length that does not fit returns \<open>None\<close>; a \<open>debug_assert!\<close> is a panic as well
  (it is one in debug builds), so a theorem that a function returns \<open>Some\<close> shows that none of
  its assertions fires. Lengths and indices (\<open>usize\<close>) are natural numbers; the
  places where their width matters say so.
\<close>

definition rust_assert :: "bool \<Rightarrow> unit option" where
  "rust_assert b = (if b then Some () else None)"

definition split_at :: "nat \<Rightarrow> 'a list \<Rightarrow> ('a list \<times> 'a list) option" where
  "split_at n xs = (if n \<le> length xs then Some (take n xs, drop n xs) else None)"

definition copy_from_slice :: "'a list \<Rightarrow> 'a list \<Rightarrow> 'a list option" where
  "copy_from_slice dst src = (if length dst = length src then Some src else None)"

fun as_chunks :: "nat \<Rightarrow> 'a list \<Rightarrow> 'a list list \<times> 'a list" where
  "as_chunks n xs =
    (if n = 0 \<or> length xs < n then ([], xs)
     else let (cs, r) = as_chunks n (drop n xs) in (take n xs # cs, r))"

declare as_chunks.simps [simp del]

definition next_power_of_two :: "nat \<Rightarrow> nat option" where
  "next_power_of_two n = (let p = 2 ^ ceillog2 n in if p < 2 ^ 64 then Some p else None)"

definition ilog2 :: "nat \<Rightarrow> nat option" where
  "ilog2 n = (if n = 0 then None else Some (floorlog 2 n - 1))"

definition nat_div_ceil :: "nat \<Rightarrow> nat \<Rightarrow> nat" where
  "nat_div_ceil a b = (let d = a div b in if a mod b > 0 then d + 1 else d)"

lemma rust_assert_bind [simp]: "rust_assert b \<bind> f = (if b then f () else None)"
  by (simp add: rust_assert_def)

lemma split_at_append [simp]: "n = length xs \<Longrightarrow> split_at n (xs @ ys) = Some (xs, ys)"
  by (simp add: split_at_def)

lemma split_at_le: "n \<le> length xs \<Longrightarrow> split_at n xs = Some (take n xs, drop n xs)"
  by (simp add: split_at_def)

lemma copy_from_slice_eq [simp]: "length dst = length src \<Longrightarrow> copy_from_slice dst src = Some src"
  by (simp add: copy_from_slice_def)

lemma as_chunks_short: "length xs < n \<Longrightarrow> as_chunks n xs = ([], xs)"
  by (subst as_chunks.simps) simp

lemma as_chunks_append:
  "0 < n \<Longrightarrow> length c = n \<Longrightarrow>
    as_chunks n (c @ xs) = (c # fst (as_chunks n xs), snd (as_chunks n xs))"
  by (subst as_chunks.simps) (simp add: case_prod_beta)

lemma as_chunks_concat:
  "0 < n \<Longrightarrow> \<forall>c\<in>set cs. length c = n \<Longrightarrow> length r < n \<Longrightarrow>
    as_chunks n (concat cs @ r) = (cs, r)"
  by (induction cs) (simp_all add: as_chunks_short as_chunks_append)

lemma as_chunks_parts:
  assumes "0 < n"
  shows "concat (fst (as_chunks n xs)) @ snd (as_chunks n xs) = xs \<and>
    (\<forall>c\<in>set (fst (as_chunks n xs)). length c = n) \<and> length (snd (as_chunks n xs)) < n"
  using assms
proof (induction n xs rule: as_chunks.induct)
  case (1 n xs)
  show ?case
  proof (cases "length xs < n")
    case True
    then have "as_chunks n xs = ([], xs)" by (rule as_chunks_short)
    with True show ?thesis by simp
  next
    case False
    obtain cs r where rest: "as_chunks n (drop n xs) = (cs, r)" by fastforce
    have "concat cs @ r = drop n xs \<and> (\<forall>c\<in>set cs. length c = n) \<and> length r < n"
      using 1(1) [OF _ 1(2)] False 1(2) by (simp add: rest)
    moreover have "as_chunks n xs = (take n xs # cs, r)"
      using False 1(2) by (subst as_chunks.simps) (simp add: rest)
    ultimately show ?thesis
      using False append_take_drop_id [of n xs] by simp
  qed
qed

lemma length_concat_same:
  "\<forall>x\<in>set xss. length x = n \<Longrightarrow> length (concat xss) = n * length xss"
  by (induction xss) simp_all

lemma nat_div_ceil_2: "nat_div_ceil n 2 = (n + 1) div 2"
  by (simp add: nat_div_ceil_def Let_def) presburger

text \<open>The power of two that splits a left-full binary tree: the largest one below \<open>n\<close>.\<close>

definition left_half :: "nat \<Rightarrow> nat" where
  "left_half n = 2 ^ (ceillog2 n - 1)"

lemma left_half_pos [simp]: "0 < left_half n"
  by (simp add: left_half_def)

lemma left_half_bounds:
  assumes "1 < n"
  shows "left_half n < n" and "n \<le> 2 * left_half n"
proof -
  from assms have "0 < ceillog2 n" using ceillog2_ge_iff [of n 1] by simp
  then have eq: "2 * left_half n = 2 ^ ceillog2 n"
    by (cases "ceillog2 n") (simp_all add: left_half_def)
  with assms two_power_ceillog2_gt [of n] show "left_half n < n" by simp
  from eq show "n \<le> 2 * left_half n" using le_two_power_ceillog2 [of n] by simp
qed

lemma left_half_unique:
  assumes "2 ^ k < n" and "n \<le> 2 * 2 ^ k"
  shows "left_half n = 2 ^ k"
proof -
  have "ceillog2 n = Suc k" using assms by (intro ceillog2_eqI) auto
  then show ?thesis by (simp add: left_half_def)
qed

lemma left_half_eq_next_power:
  assumes "1 < n"
  shows "left_half n = 2 ^ ceillog2 (nat_div_ceil n 2)"
  using assms ceillog2_rec [of n] by (simp add: left_half_def nat_div_ceil_2)

end
