(* ===== verification/Blake3.thy ===== *)
theory Blake3
  imports Rust_Slices
begin

text \<open>
  The BLAKE3 functions of \<open>ab-blake3\<close>: the portable compression function, the \<open>const fn\<close> tree
  hash, and the functions on at most one block and at most one chunk, which call the
  compression function of the \<open>blake3\<close> crate. The latter crate is a parameter
  (\<open>Platform\<close>), about which the locale \<open>blake3_platform\<close> says what it documents: that it
  computes the same compression function.

  The reference definition is the tree of the BLAKE3 paper (\<open>chunk_node\<close>, \<open>tree_node\<close>):
  a chunk is a chain of block compressions, and a longer input has as its left subtree
  the largest power of two bytes below its length. The lemmas show that the wide,
  buffer-passing tree hash computes it without a panic for every input a slice can hold, and that
  the single-block and single-chunk functions agree with it.
\<close>

section \<open>Constants\<close>

type_synonym CVWords = "u32 list"
type_synonym BlockWords = "u32 list"
type_synonym CVBytes = "u8 list"
type_synonym BlockBytes = "u8 list"

definition OUT_LEN :: nat where [simp]: "OUT_LEN = 32"
definition KEY_LEN :: nat where [simp]: "KEY_LEN = 32"
definition BLOCK_LEN :: nat where [simp]: "BLOCK_LEN = 64"
definition CHUNK_LEN :: nat where [simp]: "CHUNK_LEN = 1024"

definition IV :: CVWords where
  "IV = [0x6A09E667, 0xBB67AE85, 0x3C6EF372, 0xA54FF53A,
         0x510E527F, 0x9B05688C, 0x1F83D9AB, 0x5BE0CD19]"

definition MSG_SCHEDULE :: "nat list list" where
  "MSG_SCHEDULE = [
    [0, 1, 2, 3, 4, 5, 6, 7, 8, 9, 10, 11, 12, 13, 14, 15],
    [2, 6, 3, 10, 7, 0, 4, 13, 1, 11, 12, 5, 9, 14, 15, 8],
    [3, 4, 10, 12, 13, 2, 7, 14, 6, 5, 9, 0, 11, 15, 8, 1],
    [10, 7, 12, 9, 14, 3, 13, 15, 4, 0, 11, 2, 5, 8, 1, 6],
    [12, 13, 9, 11, 15, 10, 14, 8, 7, 2, 5, 3, 0, 1, 6, 4],
    [9, 14, 11, 5, 8, 12, 15, 1, 13, 3, 0, 10, 2, 6, 4, 7],
    [11, 15, 5, 0, 1, 9, 8, 6, 14, 10, 2, 12, 3, 4, 7, 13]]"

definition CHUNK_START :: u8 where "CHUNK_START = push_bit 0 1"
definition CHUNK_END :: u8 where "CHUNK_END = push_bit 1 1"
definition PARENT :: u8 where "PARENT = push_bit 2 1"
definition ROOT :: u8 where "ROOT = push_bit 3 1"
definition KEYED_HASH :: u8 where "KEYED_HASH = push_bit 4 1"
definition DERIVE_KEY_CONTEXT :: u8 where "DERIVE_KEY_CONTEXT = push_bit 5 1"
definition DERIVE_KEY_MATERIAL :: u8 where "DERIVE_KEY_MATERIAL = push_bit 6 1"

definition MAX_SIMD_DEGREE :: nat where [simp]: "MAX_SIMD_DEGREE = 1"
definition MAX_SIMD_DEGREE_OR_2 :: nat where [simp]: "MAX_SIMD_DEGREE_OR_2 = 2"

section \<open>Conversions between bytes and words\<close>

definition extract_u32_from_byte_chunks :: "u8 list \<Rightarrow> nat \<Rightarrow> u32" where
  "extract_u32_from_byte_chunks src chunk_index =
    from_le_bytes [src ! (chunk_index * 4 + 0), src ! (chunk_index * 4 + 1),
                   src ! (chunk_index * 4 + 2), src ! (chunk_index * 4 + 3)]"

definition words_from_le_bytes_32 :: "u8 list \<Rightarrow> CVWords" where
  "words_from_le_bytes_32 bytes = map (extract_u32_from_byte_chunks bytes) [0..<8]"

definition words_from_le_bytes_64 :: "BlockBytes \<Rightarrow> BlockWords" where
  "words_from_le_bytes_64 bytes = map (extract_u32_from_byte_chunks bytes) [0..<16]"

definition le_bytes_from_words_32 :: "CVWords \<Rightarrow> u8 list" where
  "le_bytes_from_words_32 words = concat (map to_le_bytes words)"

section \<open>Portable compression function\<close>

definition blake3_g ::
  "BlockWords \<Rightarrow> nat \<Rightarrow> nat \<Rightarrow> nat \<Rightarrow> nat \<Rightarrow> u32 \<Rightarrow> u32 \<Rightarrow> BlockWords" where
  "blake3_g state a b c d x y =
    (let state = state[a := state ! a + state ! b + x];
         state = state[d := word_rotr 16 (state ! d XOR state ! a)];
         state = state[c := state ! c + state ! d];
         state = state[b := word_rotr 12 (state ! b XOR state ! c)];
         state = state[a := state ! a + state ! b + y];
         state = state[d := word_rotr 8 (state ! d XOR state ! a)];
         state = state[c := state ! c + state ! d];
         state = state[b := word_rotr 7 (state ! b XOR state ! c)]
     in state)"

definition blake3_round :: "BlockWords \<Rightarrow> BlockWords \<Rightarrow> nat \<Rightarrow> BlockWords" where
  "blake3_round state msg r =
    (let schedule = MSG_SCHEDULE ! r;
         state = blake3_g state 0 4 8 12 (msg ! (schedule ! 0)) (msg ! (schedule ! 1));
         state = blake3_g state 1 5 9 13 (msg ! (schedule ! 2)) (msg ! (schedule ! 3));
         state = blake3_g state 2 6 10 14 (msg ! (schedule ! 4)) (msg ! (schedule ! 5));
         state = blake3_g state 3 7 11 15 (msg ! (schedule ! 6)) (msg ! (schedule ! 7));
         state = blake3_g state 0 5 10 15 (msg ! (schedule ! 8)) (msg ! (schedule ! 9));
         state = blake3_g state 1 6 11 12 (msg ! (schedule ! 10)) (msg ! (schedule ! 11));
         state = blake3_g state 2 7 8 13 (msg ! (schedule ! 12)) (msg ! (schedule ! 13));
         state = blake3_g state 3 4 9 14 (msg ! (schedule ! 14)) (msg ! (schedule ! 15))
     in state)"

definition counter_low :: "u64 \<Rightarrow> u32" where
  "counter_low counter = ucast counter"

definition counter_high :: "u64 \<Rightarrow> u32" where
  "counter_high counter = ucast (shr counter 32)"

definition compress_pre :: "CVWords \<Rightarrow> BlockWords \<Rightarrow> u32 \<Rightarrow> u64 \<Rightarrow> u32 \<Rightarrow> BlockWords" where
  "compress_pre cv block_words block_len counter flags =
    (let state = [cv ! 0, cv ! 1, cv ! 2, cv ! 3, cv ! 4, cv ! 5, cv ! 6, cv ! 7,
                  IV ! 0, IV ! 1, IV ! 2, IV ! 3,
                  counter_low counter, counter_high counter, block_len, flags];
         state = blake3_round state block_words 0;
         state = blake3_round state block_words 1;
         state = blake3_round state block_words 2;
         state = blake3_round state block_words 3;
         state = blake3_round state block_words 4;
         state = blake3_round state block_words 5;
         state = blake3_round state block_words 6
     in state)"

definition compress_in_place :: "CVWords \<Rightarrow> BlockWords \<Rightarrow> u32 \<Rightarrow> u64 \<Rightarrow> u32 \<Rightarrow> CVWords" where
  "compress_in_place cv block_words block_len counter flags =
    (let state = compress_pre cv block_words block_len counter flags in
     [state ! 0 XOR state ! 8, state ! 1 XOR state ! 9, state ! 2 XOR state ! 10,
      state ! 3 XOR state ! 11, state ! 4 XOR state ! 12, state ! 5 XOR state ! 13,
      state ! 6 XOR state ! 14, state ! 7 XOR state ! 15])"

definition compress_pre_u32 :: "CVWords \<Rightarrow> BlockWords \<Rightarrow> u32 \<Rightarrow> u32 \<Rightarrow> u32 \<Rightarrow> BlockWords" where
  "compress_pre_u32 cv block_words block_len counter flags =
    (let state = [cv ! 0, cv ! 1, cv ! 2, cv ! 3, cv ! 4, cv ! 5, cv ! 6, cv ! 7,
                  IV ! 0, IV ! 1, IV ! 2, IV ! 3,
                  counter, 0, block_len, flags];
         state = blake3_round state block_words 0;
         state = blake3_round state block_words 1;
         state = blake3_round state block_words 2;
         state = blake3_round state block_words 3;
         state = blake3_round state block_words 4;
         state = blake3_round state block_words 5;
         state = blake3_round state block_words 6
     in state)"

definition compress_in_place_u32 ::
  "CVWords \<Rightarrow> BlockWords \<Rightarrow> u32 \<Rightarrow> u32 \<Rightarrow> u32 \<Rightarrow> CVWords" where
  "compress_in_place_u32 cv block_words block_len counter flags =
    (let state = compress_pre_u32 cv block_words block_len counter flags in
     [state ! 0 XOR state ! 8, state ! 1 XOR state ! 9, state ! 2 XOR state ! 10,
      state ! 3 XOR state ! 11, state ! 4 XOR state ! 12, state ! 5 XOR state ! 13,
      state ! 6 XOR state ! 14, state ! 7 XOR state ! 15])"

section \<open>Portable hashing of many inputs\<close>

datatype IncrementCounter = IncYes | IncNo

text \<open>
  The loop of \<open>hash1\<close>: one compression per block, with the end flags added on the last block.
\<close>

fun hash1_loop :: "u64 \<Rightarrow> u8 \<Rightarrow> u8 \<Rightarrow> CVWords \<Rightarrow> u8 \<Rightarrow> u8 list \<Rightarrow> CVWords" where
  "hash1_loop counter flags flags_end cv block_flags bytes =
    (if length bytes < BLOCK_LEN then cv
     else let block = take BLOCK_LEN bytes; bytes' = drop BLOCK_LEN bytes;
              block_flags = (if bytes' = [] then block_flags OR flags_end else block_flags);
              cv = compress_in_place cv (words_from_le_bytes_64 block) (of_nat BLOCK_LEN)
                     counter (ucast block_flags)
          in hash1_loop counter flags flags_end cv flags bytes')"

declare hash1_loop.simps [simp del]

definition hash1 :: "u8 list \<Rightarrow> CVWords \<Rightarrow> u64 \<Rightarrow> u8 \<Rightarrow> u8 \<Rightarrow> u8 \<Rightarrow> CVBytes option" where
  "hash1 input key counter flags flags_start flags_end = do {
    rust_assert (length input mod BLOCK_LEN = 0);
    Some (le_bytes_from_words_32
      (hash1_loop counter flags flags_end key (flags OR flags_start) input))
  }"

text \<open>The result is the output slice after the call, its tail untouched.\<close>

primrec hash_many_loop ::
  "u8 list list \<Rightarrow> CVWords \<Rightarrow> u64 \<Rightarrow> IncrementCounter \<Rightarrow> u8 \<Rightarrow> u8 \<Rightarrow> u8 \<Rightarrow> u8 list \<Rightarrow> u8 list option"
where
  "hash_many_loop [] key counter inc flags flags_start flags_end out = Some out"
| "hash_many_loop (input # inputs) key counter inc flags flags_start flags_end out = do {
    (_, out) \<leftarrow> split_at OUT_LEN out;
    h \<leftarrow> hash1 input key counter flags flags_start flags_end;
    counter \<leftarrow> (if inc = IncYes then checked_add counter 1 else Some counter);
    rest \<leftarrow> hash_many_loop inputs key counter inc flags flags_start flags_end out;
    Some (h @ rest)
  }"

definition hash_many ::
  "u8 list list \<Rightarrow> CVWords \<Rightarrow> u64 \<Rightarrow> IncrementCounter \<Rightarrow> u8 \<Rightarrow> u8 \<Rightarrow> u8 \<Rightarrow> u8 list \<Rightarrow> u8 list option"
where
  "hash_many inputs key counter inc flags flags_start flags_end out = do {
    rust_assert (length inputs * OUT_LEN \<le> length out);
    hash_many_loop inputs key counter inc flags flags_start flags_end out
  }"

section \<open>The \<open>const fn\<close> tree hash\<close>

record ConstOutput =
  co_input_chaining_value :: CVWords
  co_block :: BlockBytes
  co_block_len :: u8
  co_counter :: u64
  co_flags :: u8

definition chaining_value :: "ConstOutput \<Rightarrow> CVBytes" where
  "chaining_value self =
    (let block_words = words_from_le_bytes_64 (co_block self) in
     le_bytes_from_words_32
       (compress_in_place (co_input_chaining_value self) block_words
         (ucast (co_block_len self)) (co_counter self) (ucast (co_flags self))))"

definition root_hash :: "ConstOutput \<Rightarrow> u8 list option" where
  "root_hash self = do {
    rust_assert (co_counter self = 0);
    let block_words = words_from_le_bytes_64 (co_block self);
    Some (le_bytes_from_words_32
      (compress_in_place (co_input_chaining_value self) block_words
        (ucast (co_block_len self)) 0 (ucast (co_flags self OR ROOT))))
  }"

record ConstChunkState =
  cs_cv :: CVWords
  cs_chunk_counter :: u64
  cs_buf :: BlockBytes
  cs_buf_len :: u8
  cs_blocks_compressed :: u8
  cs_flags :: u8

definition chunk_state_new :: "CVWords \<Rightarrow> u64 \<Rightarrow> u8 \<Rightarrow> ConstChunkState" where
  "chunk_state_new key chunk_counter flags =
    \<lparr> cs_cv = key, cs_chunk_counter = chunk_counter, cs_buf = replicate BLOCK_LEN 0,
      cs_buf_len = 0, cs_blocks_compressed = 0, cs_flags = flags \<rparr>"

definition chunk_state_count :: "ConstChunkState \<Rightarrow> nat" where
  "chunk_state_count self =
    BLOCK_LEN * unat (cs_blocks_compressed self) + unat (cs_buf_len self)"

definition fill_buf :: "ConstChunkState \<Rightarrow> u8 list \<Rightarrow> (ConstChunkState \<times> u8 list) option" where
  "fill_buf self input = do {
    rust_assert (unat (cs_buf_len self) \<le> BLOCK_LEN);
    let want = BLOCK_LEN - unat (cs_buf_len self);
    let tk = (if want < length input then want else length input);
    (head, tail) \<leftarrow> split_at (unat (cs_buf_len self)) (cs_buf self);
    (output, tail) \<leftarrow> split_at tk tail;
    (src, rest) \<leftarrow> split_at tk input;
    output \<leftarrow> copy_from_slice output src;
    buf_len \<leftarrow> checked_add (cs_buf_len self) (of_nat tk);
    Some (self \<lparr> cs_buf := head @ output @ tail, cs_buf_len := buf_len \<rparr>, rest)
  }"

definition start_flag :: "ConstChunkState \<Rightarrow> u8" where
  "start_flag self = (if cs_blocks_compressed self = 0 then CHUNK_START else 0)"

text \<open>The two halves of \<open>update\<close>: emptying the buffer, and the loop over whole blocks.\<close>

definition update_flush :: "ConstChunkState \<Rightarrow> u8 list \<Rightarrow> (ConstChunkState \<times> u8 list) option" where
  "update_flush self input =
    (if 0 < cs_buf_len self then do {
       (self, input) \<leftarrow> fill_buf self input;
       if input \<noteq> [] then do {
         rust_assert (unat (cs_buf_len self) = BLOCK_LEN);
         let block_flags = cs_flags self OR start_flag self;
         let block_words = words_from_le_bytes_64 (cs_buf self);
         let cv = compress_in_place (cs_cv self) block_words (of_nat BLOCK_LEN)
                    (cs_chunk_counter self) (ucast block_flags);
         n \<leftarrow> checked_add (cs_blocks_compressed self) 1;
         Some (self \<lparr> cs_cv := cv, cs_buf_len := 0, cs_buf := replicate BLOCK_LEN 0,
                      cs_blocks_compressed := n \<rparr>, input)
       } else Some (self, input)
     } else Some (self, input))"

fun update_loop :: "ConstChunkState \<Rightarrow> u8 list \<Rightarrow> (ConstChunkState \<times> u8 list) option" where
  "update_loop self input =
    (if length input \<le> BLOCK_LEN then Some (self, input)
     else if cs_buf_len self \<noteq> 0 then None
     else let block_flags = cs_flags self OR start_flag self;
              block_words = words_from_le_bytes_64 (take BLOCK_LEN input);
              cv = compress_in_place (cs_cv self) block_words (of_nat BLOCK_LEN)
                     (cs_chunk_counter self) (ucast block_flags)
          in case checked_add (cs_blocks_compressed self) 1 of
               None \<Rightarrow> None
             | Some n \<Rightarrow> update_loop (self \<lparr> cs_cv := cv, cs_blocks_compressed := n \<rparr>)
                          (drop BLOCK_LEN input))"

declare update_loop.simps [simp del]

definition chunk_state_update :: "ConstChunkState \<Rightarrow> u8 list \<Rightarrow> ConstChunkState option" where
  "chunk_state_update self input = do {
    (self, input) \<leftarrow> update_flush self input;
    (self, input) \<leftarrow> update_loop self input;
    (self, input) \<leftarrow> fill_buf self input;
    rust_assert (input = []);
    rust_assert (chunk_state_count self \<le> CHUNK_LEN);
    Some self
  }"

definition chunk_state_output :: "ConstChunkState \<Rightarrow> ConstOutput" where
  "chunk_state_output self =
    (let block_flags = cs_flags self OR start_flag self OR CHUNK_END in
     \<lparr> co_input_chaining_value = cs_cv self, co_block = cs_buf self,
       co_block_len = cs_buf_len self, co_counter = cs_chunk_counter self,
       co_flags = block_flags \<rparr>)"

definition left_subtree_len :: "nat \<Rightarrow> nat option" where
  "left_subtree_len input_len = do {
    rust_assert (input_len > CHUNK_LEN);
    next_power_of_two (nat_div_ceil input_len 2)
  }"

text \<open>
  The loops that gather whole chunks and whole parents; an array of \<open>MAX_SIMD_DEGREE\<close> or
  \<open>MAX_SIMD_DEGREE_OR_2\<close> references holds them, so a surplus one is an index out of range.
\<close>

fun gather_chunks :: "u8 list \<Rightarrow> u8 list list \<Rightarrow> (u8 list list \<times> u8 list) option" where
  "gather_chunks chunks chunks_array =
    (if length chunks < CHUNK_LEN then Some (chunks_array, chunks)
     else if length chunks_array < MAX_SIMD_DEGREE
     then gather_chunks (drop CHUNK_LEN chunks) (chunks_array @ [take CHUNK_LEN chunks])
     else None)"

fun gather_parents :: "u8 list \<Rightarrow> u8 list list \<Rightarrow> (u8 list list \<times> u8 list) option" where
  "gather_parents parents parents_array =
    (if length parents < BLOCK_LEN then Some (parents_array, parents)
     else if length parents_array < MAX_SIMD_DEGREE_OR_2
     then gather_parents (drop BLOCK_LEN parents) (parents_array @ [take BLOCK_LEN parents])
     else None)"

declare gather_chunks.simps [simp del] gather_parents.simps [simp del]

text \<open>The output slice is passed in and returned, with the number of chaining values in it.\<close>

definition const_compress_chunks_parallel ::
  "u8 list \<Rightarrow> CVWords \<Rightarrow> u64 \<Rightarrow> u8 \<Rightarrow> u8 list \<Rightarrow> (u8 list \<times> nat) option" where
  "const_compress_chunks_parallel input key chunk_counter flags out = do {
    rust_assert (input \<noteq> []);
    rust_assert (length input \<le> MAX_SIMD_DEGREE * CHUNK_LEN);
    (chunks_array, chunks) \<leftarrow> gather_chunks input [];
    let chunks_so_far = length chunks_array;
    out \<leftarrow> hash_many chunks_array key chunk_counter IncYes flags CHUNK_START CHUNK_END out;
    if chunks = [] then Some (out, chunks_so_far)
    else do {
      counter \<leftarrow> checked_add chunk_counter (of_nat chunks_so_far);
      chunk_state \<leftarrow> chunk_state_update (chunk_state_new key counter flags) chunks;
      (before, rest) \<leftarrow> split_at (chunks_so_far * OUT_LEN) out;
      (dst, rest) \<leftarrow> split_at OUT_LEN rest;
      dst \<leftarrow> copy_from_slice dst (chaining_value (chunk_state_output chunk_state));
      Some (before @ dst @ rest, chunks_so_far + 1)
    }
  }"

definition const_compress_parents_parallel ::
  "u8 list \<Rightarrow> CVWords \<Rightarrow> u8 \<Rightarrow> u8 list \<Rightarrow> (u8 list \<times> nat) option" where
  "const_compress_parents_parallel child_chaining_values key flags out = do {
    rust_assert (length child_chaining_values mod OUT_LEN = 0);
    let num_children = length child_chaining_values div OUT_LEN;
    rust_assert (num_children \<ge> 2);
    rust_assert (num_children \<le> 2 * MAX_SIMD_DEGREE_OR_2);
    (parents_array, parents) \<leftarrow> gather_parents child_chaining_values [];
    let parents_so_far = length parents_array;
    out \<leftarrow> hash_many parents_array key 0 IncNo (flags OR PARENT) 0 0 out;
    if parents = [] then Some (out, parents_so_far)
    else do {
      (before, rest) \<leftarrow> split_at (parents_so_far * OUT_LEN) out;
      (dst, rest) \<leftarrow> split_at OUT_LEN rest;
      dst \<leftarrow> copy_from_slice dst parents;
      Some (before @ dst @ rest, parents_so_far + 1)
    }
  }"

partial_function (option) const_compress_subtree_wide ::
  "u8 list \<Rightarrow> CVWords \<Rightarrow> u64 \<Rightarrow> u8 \<Rightarrow> u8 list \<Rightarrow> (u8 list \<times> nat) option" where
  "const_compress_subtree_wide input key chunk_counter flags out =
    (if length input \<le> CHUNK_LEN
     then const_compress_chunks_parallel input key chunk_counter flags out
     else do {
       mid \<leftarrow> left_subtree_len (length input);
       (left, right) \<leftarrow> split_at mid input;
       right_chunk_counter \<leftarrow> checked_add chunk_counter (of_nat (length left div CHUNK_LEN));
       let cv_array = replicate (2 * MAX_SIMD_DEGREE_OR_2 * OUT_LEN) 0;
       let degree = (if length left = CHUNK_LEN then 1 else 2);
       (left_out, right_out) \<leftarrow> split_at (degree * OUT_LEN) cv_array;
       (left_out, left_n) \<leftarrow> const_compress_subtree_wide left key chunk_counter flags left_out;
       (right_out, right_n) \<leftarrow>
         const_compress_subtree_wide right key right_chunk_counter flags right_out;
       let cv_array = left_out @ right_out;
       rust_assert (left_n = degree);
       rust_assert (right_n \<ge> 1 \<and> right_n \<le> left_n);
       if left_n = 1 then do {
         (dst, rest) \<leftarrow> split_at (2 * OUT_LEN) out;
         (src, _) \<leftarrow> split_at (2 * OUT_LEN) cv_array;
         dst \<leftarrow> copy_from_slice dst src;
         Some (dst @ rest, 2)
       } else do {
         let num_children = left_n + right_n;
         (children, _) \<leftarrow> split_at (num_children * OUT_LEN) cv_array;
         const_compress_parents_parallel children key flags out
       }
     })"

text \<open>The loop that condenses more than two chaining values, on \<open>num_cvs\<close> and \<open>cv_array\<close>.\<close>

partial_function (option) condense_cvs :: "CVWords \<Rightarrow> u8 \<Rightarrow> u8 list \<Rightarrow> u8 list \<Rightarrow> nat \<Rightarrow> u8 list option" where
  "condense_cvs key flags cv_array out_array num_cvs =
    (if num_cvs \<le> 2 then Some cv_array
     else do {
       (cv_slice, _) \<leftarrow> split_at (num_cvs * OUT_LEN) cv_array;
       (out_array, num_cvs) \<leftarrow> const_compress_parents_parallel cv_slice key flags out_array;
       (dst, rest) \<leftarrow> split_at (num_cvs * OUT_LEN) cv_array;
       (src, _) \<leftarrow> split_at (num_cvs * OUT_LEN) out_array;
       dst \<leftarrow> copy_from_slice dst src;
       condense_cvs key flags (dst @ rest) out_array num_cvs
     })"

definition const_compress_subtree_to_parent_node ::
  "u8 list \<Rightarrow> CVWords \<Rightarrow> u64 \<Rightarrow> u8 \<Rightarrow> BlockBytes option" where
  "const_compress_subtree_to_parent_node input key chunk_counter flags = do {
    rust_assert (length input > CHUNK_LEN);
    let cv_array = replicate (MAX_SIMD_DEGREE_OR_2 * OUT_LEN) 0;
    (cv_array, num_cvs) \<leftarrow> const_compress_subtree_wide input key chunk_counter flags cv_array;
    rust_assert (num_cvs \<ge> 2);
    let out_array = replicate (MAX_SIMD_DEGREE_OR_2 * OUT_LEN div 2) 0;
    cv_array \<leftarrow> condense_cvs key flags cv_array out_array num_cvs;
    rust_assert (BLOCK_LEN \<le> length cv_array);
    Some (take BLOCK_LEN cv_array)
  }"

definition const_hash_all_at_once :: "u8 list \<Rightarrow> CVWords \<Rightarrow> u8 \<Rightarrow> ConstOutput option" where
  "const_hash_all_at_once input key flags =
    (if length input \<le> CHUNK_LEN then do {
       self \<leftarrow> chunk_state_update (chunk_state_new key 0 flags) input;
       Some (chunk_state_output self)
     } else do {
       block \<leftarrow> const_compress_subtree_to_parent_node input key 0 flags;
       Some \<lparr> co_input_chaining_value = key, co_block = block,
              co_block_len = of_nat BLOCK_LEN, co_counter = 0, co_flags = flags OR PARENT \<rparr>
     })"

definition const_hash :: "u8 list \<Rightarrow> u8 list option" where
  "const_hash input = do { output \<leftarrow> const_hash_all_at_once input IV 0; root_hash output }"

definition const_keyed_hash :: "u8 list \<Rightarrow> u8 list \<Rightarrow> u8 list option" where
  "const_keyed_hash key input = do {
    let key_words = words_from_le_bytes_32 key;
    output \<leftarrow> const_hash_all_at_once input key_words KEYED_HASH;
    root_hash output
  }"

definition const_derive_key :: "u8 list \<Rightarrow> u8 list \<Rightarrow> u8 list option" where
  "const_derive_key ctx key_material = do {
    output \<leftarrow> const_hash_all_at_once ctx IV DERIVE_KEY_CONTEXT;
    context_key \<leftarrow> root_hash output;
    let context_key_words = words_from_le_bytes_32 context_key;
    output \<leftarrow> const_hash_all_at_once key_material context_key_words DERIVE_KEY_MATERIAL;
    root_hash output
  }"

section \<open>At most one block, and at most one chunk\<close>

text \<open>
  The part of the \<open>blake3\<close> crate these functions call: \<open>Platform::compress_in_place\<close> (on a
  block of bytes) and \<open>Platform::hash_many\<close>.
\<close>

record Platform =
  plat_compress_in_place :: "CVWords \<Rightarrow> BlockBytes \<Rightarrow> u8 \<Rightarrow> u64 \<Rightarrow> u8 \<Rightarrow> CVWords"
  plat_hash_many ::
    "BlockBytes list \<Rightarrow> CVWords \<Rightarrow> u64 \<Rightarrow> IncrementCounter \<Rightarrow> u8 \<Rightarrow> u8 \<Rightarrow> u8 \<Rightarrow> u8 list \<Rightarrow> u8 list"

definition hash_block :: "Platform \<Rightarrow> u8 list \<Rightarrow> CVWords \<Rightarrow> u8 \<Rightarrow> u8 list option" where
  "hash_block platform input key flags =
    (if length input > BLOCK_LEN then None
     else let block = input @ replicate (BLOCK_LEN - length input) 0;
              cv = plat_compress_in_place platform key block (of_nat (length input)) 0
                     (flags OR CHUNK_START OR CHUNK_END OR ROOT)
          in Some (le_bytes_from_words_32 cv))"

definition hash_block_many_exact ::
  "Platform \<Rightarrow> BlockBytes list \<Rightarrow> u8 list list \<Rightarrow> CVWords \<Rightarrow> u8 \<Rightarrow> u8 list list" where
  "hash_block_many_exact platform inputs outputs key flags =
    (let (input_chunks, remaining_inputs) = as_chunks 16 inputs;
         (output_chunks, remaining_output_chunks) = as_chunks 16 outputs
     in concat (map2 (\<lambda>inputs outputs.
          fst (as_chunks OUT_LEN (plat_hash_many platform inputs key 0 IncNo
            (flags OR CHUNK_START OR CHUNK_END OR ROOT) 0 0 (concat outputs))))
          input_chunks output_chunks)
        @ map2 (\<lambda>input output.
          le_bytes_from_words_32 (plat_compress_in_place platform key input (of_nat BLOCK_LEN) 0
            (flags OR CHUNK_START OR CHUNK_END OR ROOT)))
          remaining_inputs remaining_output_chunks)"

definition single_block_hash :: "Platform \<Rightarrow> u8 list \<Rightarrow> u8 list option" where
  "single_block_hash platform input = hash_block platform input IV 0"

definition single_block_hash_many_exact ::
  "Platform \<Rightarrow> BlockBytes list \<Rightarrow> u8 list list \<Rightarrow> u8 list list" where
  "single_block_hash_many_exact platform inputs outputs =
    hash_block_many_exact platform inputs outputs IV 0"

definition single_block_keyed_hash :: "Platform \<Rightarrow> u8 list \<Rightarrow> u8 list \<Rightarrow> u8 list option" where
  "single_block_keyed_hash platform key input =
    (let key_words = words_from_le_bytes_32 key in hash_block platform input key_words KEYED_HASH)"

definition single_block_keyed_hash_many_exact ::
  "Platform \<Rightarrow> u8 list \<Rightarrow> BlockBytes list \<Rightarrow> u8 list list \<Rightarrow> u8 list list" where
  "single_block_keyed_hash_many_exact platform key inputs outputs =
    (let key_words = words_from_le_bytes_32 key
     in hash_block_many_exact platform inputs outputs key_words KEYED_HASH)"

definition single_block_derive_key :: "Platform \<Rightarrow> u8 list \<Rightarrow> u8 list \<Rightarrow> u8 list option" where
  "single_block_derive_key platform ctx key_material = do {
    context_key \<leftarrow> hash_block platform ctx IV DERIVE_KEY_CONTEXT;
    let context_key_words = words_from_le_bytes_32 context_key;
    hash_block platform key_material context_key_words DERIVE_KEY_MATERIAL
  }"

definition single_block_hash_portable_words :: "BlockWords \<Rightarrow> u32 \<Rightarrow> CVWords" where
  "single_block_hash_portable_words input num_bytes =
    compress_in_place_u32 IV input num_bytes 0 (ucast (CHUNK_START OR CHUNK_END OR ROOT))"

text \<open>The loop of \<open>hash_chunk\<close> over the whole blocks, with their index.\<close>

primrec hash_chunk_blocks ::
  "Platform \<Rightarrow> nat \<Rightarrow> u8 \<Rightarrow> BlockBytes list \<Rightarrow> nat \<Rightarrow> CVWords \<Rightarrow> CVWords" where
  "hash_chunk_blocks platform num_blocks flags [] block_index cv = cv"
| "hash_chunk_blocks platform num_blocks flags (block # blocks) block_index cv =
    (let block_flags = flags;
         block_flags = (if block_index = 0 then block_flags OR CHUNK_START else block_flags);
         block_flags = (if block_index + 1 = num_blocks then block_flags OR (CHUNK_END OR ROOT)
                        else block_flags);
         cv = plat_compress_in_place platform cv block (of_nat BLOCK_LEN) 0 block_flags
     in hash_chunk_blocks platform num_blocks flags blocks (block_index + 1) cv)"

definition hash_chunk :: "Platform \<Rightarrow> u8 list \<Rightarrow> CVWords \<Rightarrow> u8 \<Rightarrow> u8 list option" where
  "hash_chunk platform input key flags =
    (if length input > CHUNK_LEN then None
     else let (blocks, remainder) = as_chunks BLOCK_LEN input;
              num_blocks = length blocks + of_bool (remainder \<noteq> []);
              cv = hash_chunk_blocks platform num_blocks flags blocks 0 key;
              cv = (if remainder \<noteq> [] \<or> num_blocks = 0
                    then let block_flags = flags OR CHUNK_END OR ROOT;
                             block_flags = (if num_blocks \<le> 1 then block_flags OR CHUNK_START
                                            else block_flags);
                             buf = remainder @ replicate (BLOCK_LEN - length remainder) 0
                         in plat_compress_in_place platform cv buf (of_nat (length remainder)) 0
                              block_flags
                    else cv)
          in Some (le_bytes_from_words_32 cv))"

definition single_chunk_hash :: "Platform \<Rightarrow> u8 list \<Rightarrow> u8 list option" where
  "single_chunk_hash platform input = hash_chunk platform input IV 0"

definition single_chunk_keyed_hash :: "Platform \<Rightarrow> u8 list \<Rightarrow> u8 list \<Rightarrow> u8 list option" where
  "single_chunk_keyed_hash platform key input =
    (let key_words = words_from_le_bytes_32 key in hash_chunk platform input key_words KEYED_HASH)"

definition single_chunk_derive_key :: "Platform \<Rightarrow> u8 list \<Rightarrow> u8 list \<Rightarrow> u8 list option" where
  "single_chunk_derive_key platform ctx key_material = do {
    context_key \<leftarrow> hash_chunk platform ctx IV DERIVE_KEY_CONTEXT;
    let context_key_words = words_from_le_bytes_32 context_key;
    hash_chunk platform key_material context_key_words DERIVE_KEY_MATERIAL
  }"

section \<open>Reference definition\<close>

fun chunk_node :: "u64 \<Rightarrow> u8 \<Rightarrow> CVWords \<Rightarrow> u8 \<Rightarrow> u8 list \<Rightarrow> ConstOutput" where
  "chunk_node counter flags cv start bytes =
    (if length bytes \<le> BLOCK_LEN
     then \<lparr> co_input_chaining_value = cv,
            co_block = bytes @ replicate (BLOCK_LEN - length bytes) 0,
            co_block_len = of_nat (length bytes), co_counter = counter,
            co_flags = flags OR start OR CHUNK_END \<rparr>
     else chunk_node counter flags
            (compress_in_place cv (words_from_le_bytes_64 (take BLOCK_LEN bytes))
              (of_nat BLOCK_LEN) counter (ucast (flags OR start)))
            0 (drop BLOCK_LEN bytes))"

declare chunk_node.simps [simp del]

definition parent_node :: "CVWords \<Rightarrow> u8 \<Rightarrow> CVBytes \<Rightarrow> CVBytes \<Rightarrow> ConstOutput" where
  "parent_node key flags left right =
    \<lparr> co_input_chaining_value = key, co_block = left @ right,
      co_block_len = of_nat BLOCK_LEN, co_counter = 0, co_flags = flags OR PARENT \<rparr>"

function tree_node :: "CVWords \<Rightarrow> u8 \<Rightarrow> u64 \<Rightarrow> u8 list \<Rightarrow> ConstOutput" where
  "tree_node key flags counter bytes =
    (if length bytes \<le> CHUNK_LEN then chunk_node counter flags key CHUNK_START bytes
     else let n = left_half (length bytes) in
          parent_node key flags
            (chaining_value (tree_node key flags counter (take n bytes)))
            (chaining_value
              (tree_node key flags (counter + of_nat (n div CHUNK_LEN)) (drop n bytes))))"
  by pat_completeness auto
termination
proof (relation "measure (\<lambda>(key, flags, counter, bytes). length bytes)", goal_cases)
  case (2 key flags counter bytes n)
  then show ?case using left_half_bounds(1) [of "length bytes"] by simp
next
  case (3 key flags counter bytes n)
  then show ?case using left_half_bounds(1) [of "length bytes"] left_half_pos [of "length bytes"]
    by (simp del: left_half_pos)
qed simp

declare tree_node.simps [simp del]

definition node_root :: "ConstOutput \<Rightarrow> u8 list" where
  "node_root node = le_bytes_from_words_32
    (compress_in_place (co_input_chaining_value node) (words_from_le_bytes_64 (co_block node))
      (ucast (co_block_len node)) 0 (ucast (co_flags node OR ROOT)))"

section \<open>Chunks\<close>

lemma length_compress_in_place [simp]: "length (compress_in_place cv b l c f) = 8"
  by (simp add: compress_in_place_def Let_def)

lemma length_le_bytes_from_words: "length (le_bytes_from_words_32 ws) = 4 * length ws"
  by (induction ws) (simp_all add: le_bytes_from_words_32_def)

lemma length_chaining_value [simp]: "length (chaining_value node) = 32"
  by (simp add: chaining_value_def length_le_bytes_from_words)

lemma length_node_root [simp]: "length (node_root node) = 32"
  by (simp add: node_root_def length_le_bytes_from_words)

lemma root_hash_eq: "co_counter node = 0 \<Longrightarrow> root_hash node = Some (node_root node)"
  by (simp add: root_hash_def node_root_def)

definition state_node :: "ConstChunkState \<Rightarrow> u8 list \<Rightarrow> ConstOutput" where
  "state_node s bytes =
    chunk_node (cs_chunk_counter s) (cs_flags s) (cs_cv s) (start_flag s) bytes"

text \<open>The buffer holds \<open>pend\<close>, and the state has seen \<open>seen\<close> bytes.\<close>

definition buffered :: "ConstChunkState \<Rightarrow> u8 list \<Rightarrow> nat \<Rightarrow> bool" where
  "buffered s pend seen \<longleftrightarrow>
    cs_buf s = pend @ replicate (64 - length pend) 0 \<and> unat (cs_buf_len s) = length pend \<and>
    length pend \<le> 64 \<and> 64 * unat (cs_blocks_compressed s) + length pend = seen"

lemma bufferedD:
  assumes "buffered s pend seen"
  shows "cs_buf s = pend @ replicate (64 - length pend) 0"
    and "unat (cs_buf_len s) = length pend" and "length pend \<le> 64"
    and "64 * unat (cs_blocks_compressed s) + length pend = seen"
  using assms by (simp_all add: buffered_def)

lemma fill_buf_spec:
  assumes "buffered s pend seen"
  obtains s' where "fill_buf s input = Some (s', drop (64 - length pend) input)"
    and "buffered s' (pend @ take (64 - length pend) input)
           (seen + length (take (64 - length pend) input))"
    and "state_node s' = state_node s"
proof -
  note b = bufferedD [OF assms]
  define k where "k = length (take (64 - length pend) input)"
  have k: "(if 64 - length pend < length input then 64 - length pend else length input) = k"
    "k \<le> 64 - length pend" "k \<le> length input" "take (64 - length pend) input = take k input"
    "drop (64 - length pend) input = drop k input"
    by (auto simp: k_def min_def)
  have length_take_k: "length (take k input) = k" using k(3) by simp
  have unat_k: "unat (of_nat k :: u8) = k" using k(2) by (intro unat_of_nat_less) simp
  have add: "checked_add (cs_buf_len s) (of_nat k) = Some (cs_buf_len s + of_nat k)"
    "unat (cs_buf_len s + of_nat k) = length pend + k"
    using b(2,3) k(2) unat_k by (simp_all add: checked_add_def unat_word_ariths)
  let ?s = "s \<lparr> cs_buf := pend @ take k input @ replicate (64 - length pend - k) 0,
                cs_buf_len := cs_buf_len s + of_nat k \<rparr>"
  have "fill_buf s input = Some (?s, drop k input)"
    using b k add by (simp add: fill_buf_def split_at_def copy_from_slice_def Let_def)
  moreover have "buffered ?s (pend @ take k input) (seen + k)"
    using b(3,4) k add by (simp add: buffered_def)
  moreover have "state_node ?s = state_node s"
    by (simp add: state_node_def start_flag_def fun_eq_iff)
  ultimately show thesis by (intro that [of ?s, unfolded k(4,5) length_take_k])
qed

lemma take_drop_append [simp]: "take n xs @ drop n xs @ ys = xs @ ys"
  by (simp flip: append_assoc)

text \<open>Compressing a full block that is not the last one moves it into the chaining value.\<close>

lemma chunk_node_block:
  "length block = 64 \<Longrightarrow> rest \<noteq> [] \<Longrightarrow>
    chunk_node c f cv st (block @ rest) =
    chunk_node c f (compress_in_place cv (words_from_le_bytes_64 block) 64 c (ucast (f OR st))) 0 rest"
  by (subst chunk_node.simps) simp

lemma blocks_compressed_Suc:
  assumes "64 * unat (n :: u8) < 1024"
  shows "checked_add n 1 = Some (n + 1)" and "unat (n + 1) = unat n + 1" and "n + 1 \<noteq> 0"
proof -
  from assms show "checked_add n 1 = Some (n + 1)" by (simp add: checked_add_def)
  from assms show eq: "unat (n + 1) = unat n + 1" by (simp add: unat_word_ariths)
  then show "n + 1 \<noteq> 0" by (metis add_is_0 one_neq_zero unat_0)
qed

lemma state_node_compress:
  assumes "length block = 64" and "rest \<noteq> []" and "64 * unat (cs_blocks_compressed s) < 1024"
    and "cs_cv s' = compress_in_place (cs_cv s) (words_from_le_bytes_64 block) 64
           (cs_chunk_counter s) (ucast (cs_flags s OR start_flag s))"
    and "cs_chunk_counter s' = cs_chunk_counter s" and "cs_flags s' = cs_flags s"
    and "cs_blocks_compressed s' = cs_blocks_compressed s + 1"
  shows "state_node s (block @ rest) = state_node s' rest"
  using assms blocks_compressed_Suc(3) [OF assms(3)]
  by (simp add: state_node_def chunk_node_block start_flag_def)

lemma update_flush_spec:
  assumes "buffered s pend seen" and "seen + length input \<le> 1024"
  obtains s' pend' seen' input' where "update_flush s input = Some (s', input')"
    and "buffered s' pend' seen'" and "seen' + length input' = seen + length input"
    and "pend' = [] \<or> input' = []"
    and "\<And>rest. state_node s (pend @ input @ rest) = state_node s' (pend' @ input' @ rest)"
proof (cases "pend = []")
  case True
  with bufferedD(2) [OF assms(1)] have "cs_buf_len s = 0" by (simp add: unat_eq_0)
  then have "update_flush s input = Some (s, input)" by (simp add: update_flush_def)
  with True assms(1) show thesis by (intro that [of s input pend seen]) simp_all
next
  case False
  note b = bufferedD [OF assms(1)]
  have pos: "0 < cs_buf_len s" using False b(2) by (simp add: word_less_nat_alt)
  obtain s1 where fill: "fill_buf s input = Some (s1, drop (64 - length pend) input)"
    and buf: "buffered s1 (pend @ take (64 - length pend) input)
           (seen + length (take (64 - length pend) input))"
    and node: "state_node s1 = state_node s"
    using fill_buf_spec [OF assms(1), of input] .
  note b1 = bufferedD [OF buf]
  show thesis
  proof (cases "drop (64 - length pend) input = []")
    case True
    then have "take (64 - length pend) input = input" by simp
    with fill buf pos True node show thesis
      by (intro that [of s1 "[]" "pend @ input" "seen + length input"])
        (simp_all add: update_flush_def)
  next
    case False
    let ?block = "pend @ take (64 - length pend) input"
    let ?rest = "drop (64 - length pend) input"
    have len: "length ?block = 64" using False b(3) by simp
    have few: "64 * unat (cs_blocks_compressed s1) < 1024"
      using b1(4) len assms(2) False by simp
    define s' where "s' = s1 \<lparr> cs_cv := compress_in_place (cs_cv s1)
          (words_from_le_bytes_64 (cs_buf s1)) 64 (cs_chunk_counter s1)
          (ucast (cs_flags s1 OR start_flag s1)),
        cs_buf_len := 0, cs_buf := replicate 64 0,
        cs_blocks_compressed := cs_blocks_compressed s1 + 1 \<rparr>"
    have run: "update_flush s input = Some (s', ?rest)"
      using fill pos False b1(2) len blocks_compressed_Suc(1) [OF few]
      by (simp add: update_flush_def s'_def)
    have buf': "buffered s' [] (seen + length (take (64 - length pend) input))"
      using b1(4) len blocks_compressed_Suc(2) [OF few] by (simp add: buffered_def s'_def)
    have node': "state_node s (pend @ input @ rest) = state_node s' (?rest @ rest)" for rest
    proof -
      have "state_node s1 (?block @ ?rest @ rest) = state_node s' (?rest @ rest)"
        using False b1(1) len by (intro state_node_compress [OF len _ few]) (simp_all add: s'_def)
      then show ?thesis by (simp add: node)
    qed
    have eq: "seen + length (take (64 - length pend) input) + length ?rest = seen + length input"
      by (metis add.assoc append_take_drop_id length_append)
    show thesis by (rule that [OF run buf' eq disjI1 [OF refl]]) (simp add: node')
  qed
qed

lemma update_loop_spec:
  "buffered s [] seen \<Longrightarrow> seen + length input \<le> 1024 \<Longrightarrow>
    \<exists>s' seen' rest. update_loop s input = Some (s', rest) \<and> buffered s' [] seen' \<and>
      seen' + length rest = seen + length input \<and> length rest \<le> 64 \<and>
      (\<forall>more. state_node s (input @ more) = state_node s' (rest @ more))"
proof (induction s input arbitrary: seen rule: update_loop.induct)
  case (1 s input)
  show ?case
  proof (cases "length input \<le> 64")
    case True
    with 1(2) show ?thesis by (subst update_loop.simps) auto
  next
    case False
    let ?block = "take 64 input" and ?rest = "drop 64 input"
    note b = bufferedD [OF 1(2)]
    have zero: "cs_buf_len s = 0" using b(2) by (simp add: unat_eq_0)
    have len: "length ?block = 64" using False by simp
    have few: "64 * unat (cs_blocks_compressed s) < 1024" using b(4) 1(3) False by simp
    let ?s = "s \<lparr> cs_cv := compress_in_place (cs_cv s) (words_from_le_bytes_64 ?block) 64
                  (cs_chunk_counter s) (ucast (cs_flags s OR start_flag s)),
                  cs_blocks_compressed := cs_blocks_compressed s + 1 \<rparr>"
    have buf': "buffered ?s [] (seen + 64)"
      using b blocks_compressed_Suc(2) [OF few] by (simp add: buffered_def)
    have step: "update_loop s input = update_loop ?s ?rest"
      using False zero blocks_compressed_Suc(1) [OF few]
      by (subst update_loop.simps) (simp add: Let_def)
    have node: "state_node s (input @ more) = state_node ?s (?rest @ more)" for more
      using state_node_compress [OF len _ few, of "?rest @ more" ?s] False by simp
    obtain s' seen' rest where IH: "update_loop ?s ?rest = Some (s', rest)"
      "buffered s' [] seen'" "seen' + length rest = seen + 64 + length ?rest" "length rest \<le> 64"
      "\<And>more. state_node ?s (?rest @ more) = state_node s' (rest @ more)"
      using 1(1) [OF _ _ refl refl refl, of "cs_blocks_compressed s + 1" "seen + 64"] False zero
        blocks_compressed_Suc(1) [OF few] buf' 1(3)
      by auto
    have "seen + 64 + length ?rest = seen + length input" using False by simp
    with IH show ?thesis unfolding step node by auto
  qed
qed

text \<open>
  \<open>consumed s bytes\<close>: the state has absorbed \<open>bytes\<close> after its creation with \<open>key\<close>.
\<close>

definition consumed :: "CVWords \<Rightarrow> u64 \<Rightarrow> u8 \<Rightarrow> ConstChunkState \<Rightarrow> u8 list \<Rightarrow> bool" where
  "consumed key counter flags s bytes \<longleftrightarrow>
    (\<exists>pend. buffered s pend (length bytes) \<and>
      (\<forall>more. chunk_node counter flags key CHUNK_START (bytes @ more) = state_node s (pend @ more)))"

lemma consumed_new: "consumed key counter flags (chunk_state_new key counter flags) []"
  unfolding consumed_def
  by (intro exI [of _ "[]"])
    (simp add: buffered_def chunk_state_new_def state_node_def start_flag_def)

lemma consumed_update:
  assumes "consumed key counter flags s bytes" and "length bytes + length input \<le> 1024"
  obtains s' where "chunk_state_update s input = Some s'"
    and "consumed key counter flags s' (bytes @ input)"
proof -
  obtain pend where b: "buffered s pend (length bytes)"
    and n: "\<And>more. chunk_node counter flags key CHUNK_START (bytes @ more) = state_node s (pend @ more)"
    using assms(1) by (auto simp: consumed_def)
  obtain s1 pend1 seen1 input1 where flush: "update_flush s input = Some (s1, input1)"
    and b1: "buffered s1 pend1 seen1" "seen1 + length input1 = length bytes + length input"
    and e1: "pend1 = [] \<or> input1 = []"
    and n1: "\<And>rest. state_node s (pend @ input @ rest) = state_node s1 (pend1 @ input1 @ rest)"
    by (rule update_flush_spec [OF b assms(2)]) blast
  obtain s2 seen2 input2 pend2 where loop: "update_loop s1 input1 = Some (s2, input2)"
    and b2: "buffered s2 pend2 seen2" "seen2 + length input2 = seen1 + length input1"
    and l2: "length pend2 + length input2 \<le> 64"
    and n2: "\<And>more. state_node s1 (pend1 @ input1 @ more) = state_node s2 (pend2 @ input2 @ more)"
  proof (cases "pend1 = []")
    case True
    with b1 assms(2) update_loop_spec [of s1 seen1 input1] that show thesis
      by (metis add_0 append_Nil list.size(3))
  next
    case False
    with e1 b1 bufferedD(3) [OF b1(1)] show thesis
      by (intro that [of s1 "[]" pend1 seen1]) (simp_all add: update_loop.simps)
  qed
  obtain s3 where fill: "fill_buf s2 input2 = Some (s3, [])"
    and b3: "buffered s3 (pend2 @ input2) (length bytes + length input)"
    and n3: "state_node s3 = state_node s2"
    using fill_buf_spec [OF b2(1), of input2] l2 b1(2) b2(2) by auto
  have "chunk_state_count s3 \<le> 1024"
    using bufferedD(2,4) [OF b3] assms(2) by (simp add: chunk_state_count_def)
  then have "chunk_state_update s input = Some s3"
    using flush loop fill by (simp add: chunk_state_update_def)
  moreover have "consumed key counter flags s3 (bytes @ input)"
    unfolding consumed_def
    using b3 n [of "input @ _"] n1 n2 n3 by (intro exI [of _ "pend2 @ input2"]) simp
  ultimately show thesis by (rule that)
qed

lemma consumed_output:
  assumes "consumed key counter flags s bytes"
  shows "chunk_state_output s = chunk_node counter flags key CHUNK_START bytes"
proof -
  obtain pend where b: "buffered s pend (length bytes)"
    and n: "chunk_node counter flags key CHUNK_START (bytes @ []) = state_node s (pend @ [])"
    using assms unfolding consumed_def by blast
  have "of_nat (length pend) = cs_buf_len s"
    by (simp flip: bufferedD(2) [OF b])
  with bufferedD(1,3) [OF b] have "state_node s pend = chunk_state_output s"
    by (simp add: state_node_def chunk_state_output_def chunk_node.simps [of _ _ _ _ pend])
  with n show ?thesis by simp
qed

lemma chunk_state_hash:
  assumes "length bytes \<le> 1024"
  obtains s where "chunk_state_update (chunk_state_new key counter flags) bytes = Some s"
    and "chunk_state_output s = chunk_node counter flags key CHUNK_START bytes"
  using consumed_update [OF consumed_new, of bytes key counter flags] assms
  by (metis add_0 append_Nil consumed_output list.size(3))

text \<open>A chunk fed in pieces.\<close>

primrec chunk_state_updates :: "ConstChunkState \<Rightarrow> u8 list list \<Rightarrow> ConstChunkState option" where
  "chunk_state_updates s [] = Some s"
| "chunk_state_updates s (piece # pieces) = do {
    s \<leftarrow> chunk_state_update s piece;
    chunk_state_updates s pieces
  }"

lemma consumed_updates:
  "consumed key counter flags s bytes \<Longrightarrow> length bytes + length (concat pieces) \<le> 1024 \<Longrightarrow>
    \<exists>s'. chunk_state_updates s pieces = Some s' \<and>
      consumed key counter flags s' (bytes @ concat pieces)"
proof (induction pieces arbitrary: s bytes)
  case (Cons piece pieces)
  then obtain s1 where s1: "chunk_state_update s piece = Some s1"
    "consumed key counter flags s1 (bytes @ piece)"
    using consumed_update [OF Cons.prems(1), of piece] by auto
  with Cons.IH [OF s1(2)] Cons.prems(2) show ?case by auto
qed simp

lemma co_counter_chunk_node [simp]: "co_counter (chunk_node c f cv st bytes) = c"
  by (induction c f cv st bytes rule: chunk_node.induct) (subst chunk_node.simps, simp)

section \<open>The tree\<close>

lemma hash1_loop_chunk:
  "length bytes mod 64 = 0 \<Longrightarrow> bytes \<noteq> [] \<Longrightarrow>
    le_bytes_from_words_32 (hash1_loop c f CHUNK_END cv (f OR st) bytes) =
    chaining_value (chunk_node c f cv st bytes)"
proof (induction bytes arbitrary: cv st rule: length_induct)
  case (1 bytes)
  have len: "64 \<le> length bytes"
    using 1(2,3) by (intro dvd_imp_le) (simp_all add: mod_eq_0_iff_dvd)
  show ?case
  proof (cases "length bytes = 64")
    case True
    then show ?thesis
      by (subst hash1_loop.simps, subst hash1_loop.simps, subst chunk_node.simps)
        (simp add: chaining_value_def or.assoc Let_def)
  next
    case False
    with len have "drop 64 bytes \<noteq> []" "length (drop 64 bytes) < length bytes" by simp_all
    moreover have "length (drop 64 bytes) mod 64 = 0"
      using 1(2) len by (simp add: le_mod_geq)
    ultimately have "le_bytes_from_words_32 (hash1_loop c f CHUNK_END cv' (f OR 0) (drop 64 bytes)) =
        chaining_value (chunk_node c f cv' 0 (drop 64 bytes))" for cv'
      using 1(1) [rule_format, of "drop 64 bytes" cv' 0] by iprover
    with False len show ?thesis
      by (subst hash1_loop.simps, subst chunk_node.simps) (simp add: Let_def)
  qed
qed

lemma hash1_parent:
  assumes "length a = 32" and "length b = 32"
  shows "hash1 (a @ b) key 0 (flags OR PARENT) 0 0 = Some (chaining_value (parent_node key flags a b))"
  using assms
  by (subst hash1_def, subst hash1_loop.simps, subst hash1_loop.simps)
    (simp add: chaining_value_def parent_node_def Let_def)

lemma parents_3:
  assumes "length a = 32" "length b = 32" "length c = 32" and "64 \<le> length out"
  shows "const_compress_parents_parallel (a @ b @ c) key flags out =
    Some (chaining_value (parent_node key flags a b) @ c @ drop 64 out, 2)"
proof -
  have "gather_parents (a @ b @ c) [] = Some ([a @ b], c)"
    using assms by (simp add: gather_parents.simps)
  then show ?thesis
    using assms hash1_parent [OF assms(1,2)]
    by (auto simp: const_compress_parents_parallel_def hash_many_def split_at_def Let_def)
qed

lemma parents_4:
  assumes "length a = 32" "length b = 32" "length c = 32" "length d = 32" and "64 \<le> length out"
  shows "const_compress_parents_parallel (a @ b @ c @ d) key flags out =
    Some (chaining_value (parent_node key flags a b) @
          chaining_value (parent_node key flags c d) @ drop 64 out, 2)"
proof -
  have "gather_parents (a @ b @ c @ d) [] = Some ([a @ b, c @ d], [])"
    using assms by (simp add: gather_parents.simps)
  then show ?thesis
    using assms hash1_parent [OF assms(1,2)] hash1_parent [OF assms(3,4)]
    by (simp add: const_compress_parents_parallel_def hash_many_def split_at_def Let_def)
qed

lemma compress_chunks:
  assumes "input \<noteq> []" and "length input \<le> 1024" and "unat counter + 1 < 2 ^ 64"
    and "32 \<le> length out"
  shows "const_compress_chunks_parallel input key counter flags out =
    Some (chaining_value (tree_node key flags counter input) @ drop 32 out, 1)"
proof (cases "length input = 1024")
  case True
  have "hash1 input key counter flags CHUNK_START CHUNK_END =
      Some (chaining_value (tree_node key flags counter input))"
    using True hash1_loop_chunk [of input counter flags key CHUNK_START] assms(1)
    by (simp add: hash1_def tree_node.simps)
  moreover have "gather_chunks input [] = Some ([input], [])"
    using True by (simp add: gather_chunks.simps)
  ultimately show ?thesis
    using True assms
    by (simp add: const_compress_chunks_parallel_def hash_many_def split_at_def checked_add_def)
next
  case False
  obtain s where "chunk_state_update (chunk_state_new key counter flags) input = Some s"
    and "chunk_state_output s = chunk_node counter flags key CHUNK_START input"
    using chunk_state_hash [OF assms(2)] .
  moreover have "gather_chunks input [] = Some ([], input)"
    using False assms(2) by (simp add: gather_chunks.simps)
  ultimately show ?thesis
    using False assms
    by (simp add: const_compress_chunks_parallel_def hash_many_def split_at_def checked_add_def
        tree_node.simps)
qed

text \<open>The chaining values a subtree is represented by: its own, or those of its two children.\<close>

definition subtree_cvs :: "CVWords \<Rightarrow> u8 \<Rightarrow> u64 \<Rightarrow> u8 list \<Rightarrow> u8 list list" where
  "subtree_cvs key flags counter bytes =
    (if length bytes \<le> 1024 then [chaining_value (tree_node key flags counter bytes)]
     else let n = left_half (length bytes) in
       [chaining_value (tree_node key flags counter (take n bytes)),
        chaining_value (tree_node key flags (counter + of_nat (n div 1024)) (drop n bytes))])"

lemma subtree_cvs_cases:
  obtains (one) "length bytes \<le> 1024"
    "subtree_cvs key flags counter bytes = [chaining_value (tree_node key flags counter bytes)]"
  | (two) a b where "1024 < length bytes" "subtree_cvs key flags counter bytes = [a, b]"
    "length a = 32" "length b = 32" "tree_node key flags counter bytes = parent_node key flags a b"
  using that
  by (cases "length bytes \<le> 1024") (simp_all add: subtree_cvs_def tree_node.simps Let_def)

lemma left_half_chunks:
  assumes "1024 < n"
  shows "1024 \<le> left_half n" and "1024 dvd left_half n" and "left_half n < n"
    and "left_half n \<noteq> 1024 \<Longrightarrow> 1024 < left_half n"
    and "left_half n = 1024 \<Longrightarrow> n - left_half n \<le> 1024"
proof -
  have b: "left_half n < n" "n \<le> 2 * left_half n" using left_half_bounds assms by simp_all
  then show "left_half n < n" by simp
  have "2 ^ 9 < left_half n" using assms b(2) by simp
  then have "(2::nat) ^ 9 < 2 ^ (ceillog2 n - 1)" by (simp add: left_half_def)
  then have "10 \<le> ceillog2 n - 1" by (simp only: power_strict_increasing_iff)
  then have dvd: "(2::nat) ^ 10 dvd left_half n" unfolding left_half_def by (rule le_imp_power_dvd)
  then show "1024 dvd left_half n" by simp
  then show le: "1024 \<le> left_half n" by (intro dvd_imp_le) simp_all
  then show "left_half n \<noteq> 1024 \<Longrightarrow> 1024 < left_half n" by simp
  show "left_half n = 1024 \<Longrightarrow> n - left_half n \<le> 1024" using b(2) by simp
qed

lemma left_subtree_len_eq:
  assumes "1024 < n" and "n < 2 ^ 64"
  shows "left_subtree_len n = Some (left_half n)"
  using assms left_half_eq_next_power [of n] left_half_bounds(1) [of n]
  by (simp add: left_subtree_len_def next_power_of_two_def)

text \<open>One level of the recursion, given what the two recursive calls return.\<close>

lemma wide_step:
  fixes key :: CVWords
  defines "cvs \<equiv> subtree_cvs key"
  assumes big: "1024 < length input" and bound: "unat counter + length input < 2 ^ 64"
    and m: "m = left_half (length input)" and rc: "rc = counter + of_nat (m div 1024)"
    and out: "64 \<le> length out"
    and left: "\<And>out. 32 * length (cvs flags counter (take m input)) \<le> length out \<Longrightarrow>
      const_compress_subtree_wide (take m input) key counter flags out =
      Some (concat (cvs flags counter (take m input)) @
              drop (32 * length (cvs flags counter (take m input))) out,
            length (cvs flags counter (take m input)))"
    and right: "\<And>out. 32 * length (cvs flags rc (drop m input)) \<le> length out \<Longrightarrow>
      const_compress_subtree_wide (drop m input) key rc flags out =
      Some (concat (cvs flags rc (drop m input)) @
              drop (32 * length (cvs flags rc (drop m input))) out,
            length (cvs flags rc (drop m input)))"
  shows "const_compress_subtree_wide input key counter flags out =
    Some (chaining_value (tree_node key flags counter (take m input)) @
          chaining_value (tree_node key flags rc (drop m input)) @ drop 64 out, 2)"
proof -
  note h = left_half_chunks [OF big, folded m]
  have len: "length (take m input) = m" using h(3) by simp
  have "m div 1024 \<le> m" by simp
  then have "unat counter + m div 1024 < 2 ^ 64" using h(3) bound by linarith
  then have add: "checked_add counter (of_nat (m div 1024)) = Some rc"
    by (simp add: checked_add_def rc unat_of_nat_less)
  have mid: "left_subtree_len (length input) = Some m"
    using left_subtree_len_eq [OF big] bound m by simp
  show ?thesis
  proof (cases rule: subtree_cvs_cases [of "take m input" key flags counter])
    case one
    then have "m = 1024" using h(1) len by simp
    moreover from this have "length (drop m input) \<le> 1024" using h(5) by simp
    then have "cvs flags rc (drop m input) = [chaining_value (tree_node key flags rc (drop m input))]"
      by (simp add: cvs_def subtree_cvs_def)
    ultimately show ?thesis
      using one left right out len mid add big
      by (subst const_compress_subtree_wide.simps) (simp add: cvs_def split_at_def Let_def)
  next
    case (two a b)
    have "m \<noteq> 1024" using two(1) len by simp
    note 2 = two this
    show ?thesis
    proof (cases rule: subtree_cvs_cases [of "drop m input" key flags rc])
      case one
      with 2 left right out len mid add big show ?thesis
        by (subst const_compress_subtree_wide.simps)
          (simp add: cvs_def split_at_def Let_def parents_3)
    next
      case (two c d)
      with 2 left right out len mid add big show ?thesis
        by (subst const_compress_subtree_wide.simps)
          (simp add: cvs_def split_at_def Let_def parents_4)
    qed
  qed
qed

lemma wide_spec:
  assumes "input \<noteq> []" and "unat counter + length input < 2 ^ 64"
    and "32 * length (subtree_cvs key flags counter input) \<le> length out"
  shows "const_compress_subtree_wide input key counter flags out =
    Some (concat (subtree_cvs key flags counter input) @
            drop (32 * length (subtree_cvs key flags counter input)) out,
          length (subtree_cvs key flags counter input))"
  using assms
proof (induction "length input" arbitrary: input counter out rule: less_induct)
  case less
  show ?case
  proof (cases "length input \<le> 1024")
    case True
    have "unat counter + 1 < 2 ^ 64" using less.prems(1,2) by (cases input) simp_all
    with True less.prems compress_chunks [of input counter out key flags] show ?thesis
      by (subst const_compress_subtree_wide.simps) (simp add: subtree_cvs_def)
  next
    case False
    then have big: "1024 < length input" by simp
    define m where "m = left_half (length input)"
    define rc where "rc = counter + of_nat (m div 1024)"
    note h = left_half_chunks [OF big, folded m_def]
    have cvs: "subtree_cvs key flags counter input =
        [chaining_value (tree_node key flags counter (take m input)),
         chaining_value (tree_node key flags rc (drop m input))]"
      using big by (simp add: subtree_cvs_def m_def rc_def Let_def)
    have div: "m div 1024 \<le> m" by simp
    have rc: "unat rc = unat counter + m div 1024"
      using div h(3) less.prems(2) by (simp add: rc_def unat_word_ariths unat_of_nat_less)
    have "const_compress_subtree_wide input key counter flags out =
      Some (chaining_value (tree_node key flags counter (take m input)) @
            chaining_value (tree_node key flags rc (drop m input)) @ drop 64 out, 2)"
    proof (rule wide_step [OF big less.prems(2) m_def rc_def])
      show "64 \<le> length out" using less.prems(3) cvs by simp
    qed (use h rc div less.prems(2) in \<open>auto intro!: less.hyps\<close>)
    then show ?thesis by (simp add: cvs)
  qed
qed

lemma co_counter_tree_node [simp]: "co_counter (tree_node key flags 0 bytes) = 0"
  by (subst tree_node.simps) (simp add: parent_node_def Let_def)

lemma const_hash_all_at_once_eq:
  assumes "length input < 2 ^ 64"
  shows "const_hash_all_at_once input key flags = Some (tree_node key flags 0 input)"
proof (cases rule: subtree_cvs_cases [of input key flags 0])
  case one
  then obtain s where "chunk_state_update (chunk_state_new key 0 flags) input = Some s"
    and "chunk_state_output s = chunk_node 0 flags key CHUNK_START input"
    using chunk_state_hash by blast
  with one show ?thesis by (simp add: const_hash_all_at_once_def tree_node.simps)
next
  case (two a b)
  then have "const_compress_subtree_wide input key 0 flags (replicate 64 0) = Some (a @ b, 2)"
    using wide_spec [of input 0 key flags "replicate 64 0"] assms
    by (cases input) (simp_all add: numeral_2_eq_2)
  with two show ?thesis
    by (simp add: const_hash_all_at_once_def const_compress_subtree_to_parent_node_def
        condense_cvs.simps parent_node_def)
qed

text \<open>The hash of the BLAKE3 paper in its three modes.\<close>

definition blake3_hash :: "u8 list \<Rightarrow> u8 list" where
  "blake3_hash input = node_root (tree_node IV 0 0 input)"

definition blake3_keyed_hash :: "u8 list \<Rightarrow> u8 list \<Rightarrow> u8 list" where
  "blake3_keyed_hash key input =
    node_root (tree_node (words_from_le_bytes_32 key) KEYED_HASH 0 input)"

definition blake3_derive_key :: "u8 list \<Rightarrow> u8 list \<Rightarrow> u8 list" where
  "blake3_derive_key ctx key_material =
    (let context_key = node_root (tree_node IV DERIVE_KEY_CONTEXT 0 ctx) in
     node_root (tree_node (words_from_le_bytes_32 context_key) DERIVE_KEY_MATERIAL 0 key_material))"

section \<open>The platform of the \<open>blake3\<close> crate\<close>

locale blake3_platform =
  fixes platform :: Platform
  assumes compress_law:
      "length cv = 8 \<Longrightarrow> length block = 64 \<Longrightarrow>
        plat_compress_in_place platform cv block block_len counter flags =
        compress_in_place cv (words_from_le_bytes_64 block) (ucast block_len) counter (ucast flags)"
    and hash_many_law:
      "length key = 8 \<Longrightarrow> \<forall>i\<in>set inputs. length i = 64 \<Longrightarrow>
        hash_many inputs key counter inc flags flags_start flags_end out = Some result \<Longrightarrow>
        plat_hash_many platform inputs key counter inc flags flags_start flags_end out = result"
begin

lemma node_root_last:
  "length bytes \<le> 64 \<Longrightarrow> node_root (chunk_node 0 flags cv st bytes) =
    le_bytes_from_words_32 (compress_in_place cv
      (words_from_le_bytes_64 (bytes @ replicate (64 - length bytes) 0))
      (ucast (of_nat (length bytes) :: u8)) 0 (ucast (flags OR st OR CHUNK_END OR ROOT)))"
  by (subst chunk_node.simps) (simp add: node_root_def or.assoc)

lemma hash_block_eq:
  assumes "length input \<le> 64" and "length key = 8"
  shows "hash_block platform input key flags = Some (node_root (tree_node key flags 0 input))"
  using assms
  by (simp add: hash_block_def compress_law tree_node.simps node_root_last)

lemma flags_perm: "(f OR e OR r) OR s = f OR s OR e OR (r :: u8)"
  by (simp add: or.assoc or.commute or.left_commute)

lemma hash_chunk_blocks_eq:
  assumes "num = n + length blocks + of_bool (rest \<noteq> [])" and "length cv = 8"
    and "\<forall>b\<in>set blocks. length b = 64" and "length rest < 64" and "rest \<noteq> [] \<or> blocks \<noteq> []"
    and "st = (if n = 0 then CHUNK_START else 0)"
  shows "(let cv = hash_chunk_blocks platform num flags blocks n cv in
      le_bytes_from_words_32 (if rest \<noteq> [] then plat_compress_in_place platform cv
        (rest @ replicate (64 - length rest) 0) (of_nat (length rest)) 0
        (if num \<le> 1 then (flags OR CHUNK_END OR ROOT) OR CHUNK_START
         else flags OR CHUNK_END OR ROOT) else cv)) =
    node_root (chunk_node 0 flags cv st (concat blocks @ rest))"
  using assms
proof (induction blocks arbitrary: n cv st)
  case Nil
  then show ?case
    by (auto simp: compress_law node_root_last flags_perm)
next
  case (Cons b blocks)
  show ?case
  proof (cases "blocks = [] \<and> rest = []")
    case True
    with Cons.prems(1,2,3,6) show ?thesis
      by (simp add: compress_law node_root_last [of b] or.assoc)
  next
    case False
    define cv' where "cv' = compress_in_place cv (words_from_le_bytes_64 b) 64 0 (ucast (flags OR st))"
    have ne: "concat blocks @ rest \<noteq> []"
      using False Cons.prems(3) by (cases blocks) auto
    have step: "hash_chunk_blocks platform num flags (b # blocks) n cv =
        hash_chunk_blocks platform num flags blocks (n + 1) cv'"
      using False Cons.prems by (auto simp: cv'_def compress_law)
    have node: "chunk_node 0 flags cv st (concat (b # blocks) @ rest) =
        chunk_node 0 flags cv' 0 (concat blocks @ rest)"
      using ne Cons.prems(3) by (simp add: cv'_def chunk_node_block)
    show ?thesis
      unfolding step node
      by (rule Cons.IH) (use False Cons.prems(1,3,4) in \<open>auto simp: cv'_def\<close>)
  qed
qed

lemma hash_chunk_eq:
  assumes "length input \<le> 1024" and "length key = 8"
  shows "hash_chunk platform input key flags = Some (node_root (tree_node key flags 0 input))"
proof (cases "input = []")
  case True
  with assms show ?thesis
    by (simp add: hash_chunk_def as_chunks_short compress_law tree_node.simps node_root_last
        flags_perm)
next
  case False
  obtain blocks rest where c: "as_chunks 64 input = (blocks, rest)" by fastforce
  with as_chunks_parts [of 64 input] have p: "concat blocks @ rest = input"
    "\<forall>b\<in>set blocks. length b = 64" "length rest < 64"
    by simp_all
  with False have "rest \<noteq> [] \<or> blocks \<noteq> []" by auto
  with hash_chunk_blocks_eq [of _ 0 blocks rest key CHUNK_START flags] p assms c False show ?thesis
    by (auto simp: hash_chunk_def tree_node.simps Let_def)
qed

lemma platform_hash_many:
  assumes "length key = 8" and "\<forall>i\<in>set inputs. length i = 64"
    and "length out = 32 * length inputs"
  shows "plat_hash_many platform inputs key 0 IncNo
      (flags OR CHUNK_START OR CHUNK_END OR ROOT) 0 0 out =
    concat (map (\<lambda>i. node_root (tree_node key flags 0 i)) inputs)"
proof (rule hash_many_law [OF assms(1,2)])
  have h1: "hash1 i key 0 (flags OR CHUNK_START OR CHUNK_END OR ROOT) 0 0 =
      Some (node_root (tree_node key flags 0 i))" if "length i = 64" for i
    using that
    by (subst hash1_def, subst hash1_loop.simps, subst hash1_loop.simps)
      (simp add: tree_node.simps node_root_last Let_def)
  have "hash_many_loop inputs key 0 IncNo (flags OR CHUNK_START OR CHUNK_END OR ROOT) 0 0 out =
      Some (concat (map (\<lambda>i. node_root (tree_node key flags 0 i)) inputs))"
    using assms(2,3) by (induction inputs arbitrary: out) (simp_all add: h1 split_at_def)
  then show "hash_many inputs key 0 IncNo (flags OR CHUNK_START OR CHUNK_END OR ROOT) 0 0 out =
      Some (concat (map (\<lambda>i. node_root (tree_node key flags 0 i)) inputs))"
    using assms(3) by (simp add: hash_many_def)
qed

lemma hash_block_many_exact_eq:
  assumes "length key = 8" and "\<forall>i\<in>set inputs. length i = 64"
    and "length outputs = length inputs" and "\<forall>h\<in>set outputs. length h = 32"
  shows "hash_block_many_exact platform inputs outputs key flags =
    map (\<lambda>i. node_root (tree_node key flags 0 i)) inputs"
  using assms(2-)
proof (induction "length inputs" arbitrary: inputs outputs rule: less_induct)
  case less
  let ?f = "\<lambda>i. node_root (tree_node key flags 0 i)"
  show ?case
  proof (cases "length inputs < 16")
    case True
    have "map2 (\<lambda>i h. le_bytes_from_words_32 (plat_compress_in_place platform key i 64 0
          (flags OR CHUNK_START OR CHUNK_END OR ROOT))) inputs outputs = map ?f inputs"
      using less.prems assms(1)
      by (auto simp: list_eq_iff_nth_eq compress_law tree_node.simps node_root_last)
    with True less.prems(2) show ?thesis
      by (simp add: hash_block_many_exact_def as_chunks_short)
  next
    case False
    let ?hs = "map ?f (take 16 inputs)"
    have len: "length (concat (take 16 outputs)) = 32 * length (take 16 inputs)"
      using less.prems(2,3) length_concat_same [of "take 16 outputs" 32]
      by (metis in_set_takeD length_take)
    have many: "plat_hash_many platform (take 16 inputs) key 0 IncNo
        (flags OR CHUNK_START OR CHUNK_END OR ROOT) 0 0 (concat (take 16 outputs)) = concat ?hs"
      using less.prems(1) by (intro platform_hash_many assms(1) len) (blast dest: in_set_takeD)
    have hs: "fst (as_chunks 32 (concat ?hs)) = ?hs"
      using as_chunks_concat [of 32 ?hs "[]"] by simp
    have IH: "hash_block_many_exact platform (drop 16 inputs) (drop 16 outputs) key flags =
        map ?f (drop 16 inputs)"
      using less.prems False by (intro less.hyps) (auto dest: in_set_dropD)
    have "hash_block_many_exact platform inputs outputs key flags =
        ?hs @ hash_block_many_exact platform (drop 16 inputs) (drop 16 outputs) key flags"
      using False less.prems(2) many hs
      by (simp add: hash_block_many_exact_def as_chunks.simps [of 16 inputs]
          as_chunks.simps [of 16 outputs] case_prod_beta)
    then show ?thesis by (simp add: IH flip: map_append)
  qed
qed

end

text \<open>The portable functions of this crate are such a platform.\<close>

definition portable_platform :: Platform where
  "portable_platform =
    \<lparr> plat_compress_in_place = (\<lambda>cv block block_len counter flags.
        compress_in_place cv (words_from_le_bytes_64 block) (ucast block_len) counter (ucast flags)),
      plat_hash_many = (\<lambda>inputs key counter inc flags flags_start flags_end out.
        case hash_many inputs key counter inc flags flags_start flags_end out of
          Some out \<Rightarrow> out | None \<Rightarrow> out) \<rparr>"

interpretation portable: blake3_platform portable_platform
  by unfold_locales (simp_all add: portable_platform_def)

section \<open>Conversions and the word interface\<close>

lemma length_words_from_le_bytes_32 [simp]: "length (words_from_le_bytes_32 bytes) = 8"
  by (simp add: words_from_le_bytes_32_def)

lemma length_IV [simp]: "length IV = 8"
  by (simp add: IV_def)

lemma list_4_cases:
  assumes "length xs = 4"
  obtains a b c d where "xs = [a, b, c, d]"
  using assms by (auto simp: numeral_eq_Suc length_Suc_conv)

lemma extract_concat:
  "i < length ws \<Longrightarrow> extract_u32_from_byte_chunks (concat (map to_le_bytes ws)) i = ws ! i"
proof (induction ws arbitrary: i)
  case (Cons w ws)
  have len: "length (to_le_bytes w) = 4" by simp
  obtain a b c d where four: "to_le_bytes w = [a, b, c, d]"
    using len by (elim list_4_cases)
  show ?case
  proof (cases i)
    case 0
    have "from_le_bytes (to_le_bytes w) = w" by (rule from_le_bytes_to_le_bytes) simp
    with 0 show ?thesis by (simp add: extract_u32_from_byte_chunks_def four)
  next
    case (Suc j)
    with Cons show ?thesis by (simp add: extract_u32_from_byte_chunks_def four add.commute)
  qed
qed simp

lemma words_bytes_words_32:
  "length ws = 8 \<Longrightarrow> words_from_le_bytes_32 (le_bytes_from_words_32 ws) = ws"
  by (simp add: words_from_le_bytes_32_def le_bytes_from_words_32_def extract_concat list_eq_iff_nth_eq)

lemma concat_take_4: "concat (map (\<lambda>i. take 4 (drop (4 * i) xs)) [0..<n]) = take (4 * n) xs"
  by (induction n) (simp_all add: take_add add.commute [of 4])

lemma take_4: "k + 4 \<le> length xs \<Longrightarrow> take 4 (drop k xs) = [xs ! k, xs ! (k + 1), xs ! (k + 2), xs ! (k + 3)]"
  by (simp add: list_eq_iff_nth_eq numeral_eq_Suc less_Suc_eq all_conj_distrib)

lemma bytes_words_bytes_32:
  assumes "length bytes = 32"
  shows "le_bytes_from_words_32 (words_from_le_bytes_32 bytes) = bytes"
proof -
  have "to_le_bytes (extract_u32_from_byte_chunks bytes i) = take 4 (drop (4 * i) bytes)"
    if "i < 8" for i
    using that assms unfolding extract_u32_from_byte_chunks_def
    by (subst to_le_bytes_from_le_bytes) (simp_all add: take_4 mult.commute)
  then have "le_bytes_from_words_32 (words_from_le_bytes_32 bytes) =
      concat (map (\<lambda>i. take 4 (drop (4 * i) bytes)) [0..<8])"
    by (auto simp: le_bytes_from_words_32_def words_from_le_bytes_32_def
        intro!: arg_cong [where f = concat])
  also have "\<dots> = bytes"
    using assms by (simp only: concat_take_4) simp
  finally show ?thesis .
qed

lemma compress_u32_eq:
  "compress_in_place_u32 cv b l c f = compress_in_place cv b l (ucast c) f"
proof -
  have "counter_low (ucast c) = c" "counter_high (ucast c) = 0"
    by (auto simp: counter_low_def counter_high_def shr_def bit_eq_iff bit_simps
        dest: bit_imp_le_length)
  then show ?thesis
    by (simp add: compress_in_place_u32_def compress_in_place_def compress_pre_u32_def
        compress_pre_def Let_def)
qed

lemma length_portable_words [simp]: "length (single_block_hash_portable_words input n) = 8"
  by (simp add: single_block_hash_portable_words_def compress_u32_eq)

lemma portable_words_eq:
  assumes "length input \<le> 64"
  shows "le_bytes_from_words_32 (single_block_hash_portable_words
      (words_from_le_bytes_64 (input @ replicate (64 - length input) 0)) (of_nat (length input))) =
    blake3_hash input"
proof -
  have "unat (of_nat (length input) :: u8) = length input"
    using assms by (intro unat_of_nat_less) simp
  then have "(ucast (of_nat (length input) :: u8) :: u32) = of_nat (length input)"
    using assms by (simp add: word_unat_eq_iff unat_ucast_up unat_of_nat_less)
  with assms show ?thesis
    by (simp add: single_block_hash_portable_words_def compress_u32_eq blake3_hash_def
        tree_node.simps portable.node_root_last)
qed

section \<open>Properties\<close>

lemma const_hash_eq:
  "length input < 2 ^ 64 \<Longrightarrow> const_hash input = Some (blake3_hash input)"
  by (simp add: const_hash_def const_hash_all_at_once_eq root_hash_eq blake3_hash_def)

lemma const_keyed_hash_eq:
  "length input < 2 ^ 64 \<Longrightarrow> const_keyed_hash key input = Some (blake3_keyed_hash key input)"
  by (simp add: const_keyed_hash_def const_hash_all_at_once_eq root_hash_eq blake3_keyed_hash_def)

lemma const_derive_key_eq:
  "length ctx < 2 ^ 64 \<Longrightarrow> length key_material < 2 ^ 64 \<Longrightarrow>
    const_derive_key ctx key_material = Some (blake3_derive_key ctx key_material)"
  by (simp add: const_derive_key_def const_hash_all_at_once_eq root_hash_eq blake3_derive_key_def)

text \<open>
  C23: On every input that fits the address space, the \<open>const fn\<close> hash functions return, with no
  panic and no failing assertion, the root of the BLAKE3 tree: hashing, keyed
  hashing and key derivation differ only in key and flags, as the paper has it. The reference
  splits at the largest power of two below the length and compresses one parent at a time; the
  code carries up to four chaining values in shared buffers.
\<close>

theorem const_hash_correct:
  assumes "length input < 2 ^ 64" and "length ctx < 2 ^ 64"
  shows "const_hash input = Some (blake3_hash input) \<and>
    const_keyed_hash key input = Some (blake3_keyed_hash key input) \<and>
    const_derive_key ctx input = Some (blake3_derive_key ctx input)"
  using assms by (simp add: const_hash_eq const_keyed_hash_eq const_derive_key_eq)

theorem const_hash_correct_witness:
  "const_hash (replicate 3000 7) = Some (blake3_hash (replicate 3000 7)) \<and>
   const_keyed_hash (replicate 32 1) (replicate 3000 7) =
     Some (blake3_keyed_hash (replicate 32 1) (replicate 3000 7)) \<and>
   const_derive_key [1, 2, 3] (replicate 3000 7) =
     Some (blake3_derive_key [1, 2, 3] (replicate 3000 7))"
  by (rule const_hash_correct) simp_all

text \<open>
  C24: The single-block and single-chunk functions are the \<open>const fn\<close> ones restricted to their length:
  whatever platform the \<open>blake3\<close> crate picks, they return the same hash for at most 64 or
  1024 bytes and \<open>None\<close> for longer inputs. The portable function on words returns that hash as
  words.
\<close>

theorem single_apis_agree:
  assumes "blake3_platform platform"
  shows "single_block_hash platform input =
      (if length input \<le> BLOCK_LEN then const_hash input else None) \<and>
    single_block_keyed_hash platform key input =
      (if length input \<le> BLOCK_LEN then const_keyed_hash key input else None) \<and>
    single_block_derive_key platform ctx input =
      (if length ctx \<le> BLOCK_LEN \<and> length input \<le> BLOCK_LEN then const_derive_key ctx input
       else None) \<and>
    single_chunk_hash platform input =
      (if length input \<le> CHUNK_LEN then const_hash input else None) \<and>
    single_chunk_keyed_hash platform key input =
      (if length input \<le> CHUNK_LEN then const_keyed_hash key input else None) \<and>
    single_chunk_derive_key platform ctx input =
      (if length ctx \<le> CHUNK_LEN \<and> length input \<le> CHUNK_LEN then const_derive_key ctx input
       else None) \<and>
    (length input \<le> BLOCK_LEN \<longrightarrow>
      Some (single_block_hash_portable_words
        (words_from_le_bytes_64 (input @ replicate (BLOCK_LEN - length input) 0))
        (of_nat (length input))) = map_option words_from_le_bytes_32 (const_hash input))"
proof -
  note block = blake3_platform.hash_block_eq [OF assms]
  note chunk = blake3_platform.hash_chunk_eq [OF assms]
  note defs = const_hash_eq const_keyed_hash_eq const_derive_key_eq blake3_hash_def
    blake3_keyed_hash_def blake3_derive_key_def
  have long: "BLOCK_LEN < length i \<Longrightarrow> hash_block platform i k f = None"
    "CHUNK_LEN < length i \<Longrightarrow> hash_chunk platform i k f = None" for i k f
    by (simp_all add: hash_block_def hash_chunk_def)
  show ?thesis
  proof (intro conjI impI)
    show "single_block_derive_key platform ctx input =
      (if length ctx \<le> BLOCK_LEN \<and> length input \<le> BLOCK_LEN then const_derive_key ctx input
       else None)"
      by (cases "length ctx \<le> 64") (simp_all add: single_block_derive_key_def block long defs)
    show "single_chunk_derive_key platform ctx input =
      (if length ctx \<le> CHUNK_LEN \<and> length input \<le> CHUNK_LEN then const_derive_key ctx input
       else None)"
      by (cases "length ctx \<le> 1024") (simp_all add: single_chunk_derive_key_def chunk long defs)
  next
    assume "length input \<le> BLOCK_LEN"
    then show "Some (single_block_hash_portable_words
        (words_from_le_bytes_64 (input @ replicate (BLOCK_LEN - length input) 0))
        (of_nat (length input))) = map_option words_from_le_bytes_32 (const_hash input)"
      by (simp add: const_hash_eq words_bytes_words_32 flip: portable_words_eq)
  qed (simp_all add: single_block_hash_def single_block_keyed_hash_def single_chunk_hash_def
      single_chunk_keyed_hash_def block chunk long defs)
qed

theorem single_apis_agree_witness:
  "single_block_hash portable_platform (replicate 64 5) = const_hash (replicate 64 5) \<and>
   single_chunk_derive_key portable_platform (replicate 65 1) (replicate 1024 5) =
     const_derive_key (replicate 65 1) (replicate 1024 5) \<and>
   single_block_derive_key portable_platform (replicate 65 1) (replicate 1024 5) = None"
  using single_apis_agree [OF portable.blake3_platform_axioms, of "replicate 64 5"]
    single_apis_agree [OF portable.blake3_platform_axioms, of "replicate 1024 5" _ "replicate 65 1"]
  by simp

text \<open>
  C25: A chunk can be fed in pieces: as long as the pieces add up to at most one chunk, no update
  panics, and the output after the last one is the output for the concatenation, wherever the
  pieces are cut relative to the 64-byte blocks.
\<close>

theorem chunk_state_streaming:
  "length (concat pieces) \<le> CHUNK_LEN \<Longrightarrow>
    \<exists>s. chunk_state_updates (chunk_state_new key counter flags) pieces = Some s \<and>
      chunk_state_output s = chunk_node counter flags key CHUNK_START (concat pieces)"
  using consumed_updates [OF consumed_new, of pieces key counter flags]
  by (auto simp: consumed_output)

theorem chunk_state_streaming_witness:
  "\<exists>s. chunk_state_updates (chunk_state_new IV 3 0) [replicate 60 1, replicate 70 2, [], [9]] = Some s \<and>
     chunk_state_output s =
       chunk_node 3 0 IV CHUNK_START (concat [replicate 60 1, replicate 70 2, [], [9]])"
  by (rule chunk_state_streaming) simp

end
