(* ===== verification/Merkle.thy ===== *)
theory Merkle
  imports Blake3 Bit_Counts
begin

text \<open>
  What the Merkle trees of \<open>ab-merkle-tree\<close> share: the hashing of pairs of nodes
  (\<open>lib.rs\<close>), and the reference tree that all of them are compared with.

  The reference is given twice. \<open>tree_root\<close> is the usual recursive definition, splitting at the
  largest power of two below the number of leaves. \<open>level_root\<close> works level by level,
  pairing neighbours and carrying an odd last node up unchanged; it is the shape the code
  computes in. \<open>level_root_eq_tree_root\<close> shows that they agree, and \<open>level_path\<close> is the list of
  siblings a proof consists of.
\<close>

section \<open>Hashing pairs of nodes\<close>

type_synonym hash = "u8 list"

definition INNER_NODE_DOMAIN_SEPARATOR :: "u8 list" where
  "INNER_NODE_DOMAIN_SEPARATOR =
    the (const_hash (map of_char ''merkle-tree-inner-node''))"

text \<open>
  The \<open>expect\<close> of both functions cannot fail: two hashes of 32 bytes make exactly one block
  (\<open>hash_pair_total\<close>).
\<close>

definition hash_pair :: "Platform \<Rightarrow> hash \<Rightarrow> hash \<Rightarrow> hash" where
  "hash_pair platform left right =
    (let pair = left @ right in
     the (single_block_keyed_hash platform INNER_NODE_DOMAIN_SEPARATOR pair))"

definition hash_pair_block :: "Platform \<Rightarrow> u8 list \<Rightarrow> hash" where
  "hash_pair_block platform pair =
    the (single_block_keyed_hash platform INNER_NODE_DOMAIN_SEPARATOR pair)"

text \<open>The \<open>transmute\<close> of the leaves into blocks joins neighbours.\<close>

fun join_pairs :: "'a list list \<Rightarrow> 'a list list" where
  "join_pairs (x # y # zs) = (x @ y) # join_pairs zs"
| "join_pairs zs = []"

definition hash_pairs :: "Platform \<Rightarrow> nat \<Rightarrow> hash list \<Rightarrow> hash list option" where
  "hash_pairs platform num_blocks pairs = do {
    rust_assert (length pairs = num_blocks * BLOCK_LEN div OUT_LEN);
    let hashes = replicate num_blocks (replicate OUT_LEN 0);
    Some (single_block_keyed_hash_many_exact platform INNER_NODE_DOMAIN_SEPARATOR
      (join_pairs pairs) hashes)
  }"

section \<open>Reference trees\<close>

fun pair_up :: "('h \<Rightarrow> 'h \<Rightarrow> 'h) \<Rightarrow> 'h list \<Rightarrow> 'h list" where
  "pair_up hp (x # y # zs) = hp x y # pair_up hp zs"
| "pair_up hp zs = zs"

lemma length_pair_up [simp]: "length (pair_up hp xs) = (length xs + 1) div 2"
  by (induction hp xs rule: pair_up.induct) simp_all

lemma pair_up_Nil [simp]: "pair_up hp xs = [] \<longleftrightarrow> xs = []"
  by (cases "(hp, xs)" rule: pair_up.cases) simp_all

function level_root :: "('h \<Rightarrow> 'h \<Rightarrow> 'h) \<Rightarrow> 'h list \<Rightarrow> 'h" where
  "level_root hp xs = (if length xs \<le> 1 then hd xs else level_root hp (pair_up hp xs))"
  by pat_completeness auto
termination by (relation "measure (\<lambda>(hp, xs). length xs)") auto

function level_path :: "('h \<Rightarrow> 'h \<Rightarrow> 'h) \<Rightarrow> 'h list \<Rightarrow> nat \<Rightarrow> 'h list" where
  "level_path hp xs i =
    (if length xs \<le> 1 then []
     else (if odd i then [xs ! (i - 1)] else if i + 1 < length xs then [xs ! (i + 1)] else [])
       @ level_path hp (pair_up hp xs) (i div 2))"
  by pat_completeness auto
termination by (relation "measure (\<lambda>(hp, xs, i). length xs)") auto

function tree_root :: "('h \<Rightarrow> 'h \<Rightarrow> 'h) \<Rightarrow> 'h list \<Rightarrow> 'h" where
  "tree_root hp xs =
    (if length xs \<le> 1 then hd xs
     else let k = left_half (length xs) in hp (tree_root hp (take k xs)) (tree_root hp (drop k xs)))"
  by pat_completeness auto
termination
proof (relation "measure (\<lambda>(hp, xs). length xs)", goal_cases)
  case (2 hp xs k)
  then show ?case using left_half_bounds(1) [of "length xs"] by simp
next
  case (3 hp xs k)
  then show ?case using left_half_bounds(1) [of "length xs"] left_half_pos [of "length xs"]
    by (simp del: left_half_pos)
qed simp

declare level_root.simps [simp del] level_path.simps [simp del] tree_root.simps [simp del]

lemma level_root_single [simp]: "level_root hp [x] = x"
  by (simp add: level_root.simps)

lemma level_root_pair_up: "1 < length xs \<Longrightarrow> level_root hp (pair_up hp xs) = level_root hp xs"
  by (subst (2) level_root.simps) simp

lemma tree_root_single [simp]: "tree_root hp [x] = x"
  by (simp add: tree_root.simps)

lemma pair_up_append:
  "even (length xs) \<Longrightarrow> pair_up hp (xs @ ys) = pair_up hp xs @ pair_up hp ys"
  by (induction hp xs rule: pair_up.induct) simp_all

lemma pair_up_nth:
  assumes "i < length xs"
  shows "pair_up hp xs ! (i div 2) =
    (if odd i then hp (xs ! (i - 1)) (xs ! i)
     else if i + 1 < length xs then hp (xs ! i) (xs ! (i + 1)) else xs ! i)"
  using assms
proof (induction hp xs arbitrary: i rule: pair_up.induct)
  case (1 hp x y zs)
  show ?case
  proof (cases "i < 2")
    case True
    then have "i = 0 \<or> i = 1" by auto
    then show ?thesis by auto
  next
    case False
    then obtain j where j: "i = j + 2" by (metis add.commute le_Suc_ex not_less)
    with 1 show ?thesis by (auto simp: nth_Cons' elim: oddE)
  qed
qed (auto simp: less_Suc_eq)

lemma left_half_div:
  assumes "2 < n"
  shows "left_half ((n + 1) div 2) = left_half n div 2" and "even (left_half n)"
proof -
  have c: "ceillog2 n = Suc (ceillog2 ((n + 1) div 2))"
    using assms ceillog2_rec [of n] by simp
  have "1 < (n + 1) div 2" using assms by presburger
  then have "0 < ceillog2 ((n + 1) div 2)"
    using ceillog2_ge_iff [of "(n + 1) div 2" 1] by simp
  then obtain k where "ceillog2 ((n + 1) div 2) = Suc k" using not0_implies_Suc by blast
  with c show "left_half ((n + 1) div 2) = left_half n div 2" "even (left_half n)"
    by (simp_all add: left_half_def)
qed

lemma tree_root_pair_up: "xs \<noteq> [] \<Longrightarrow> tree_root hp (pair_up hp xs) = tree_root hp xs"
proof (induction "length xs" arbitrary: xs rule: less_induct)
  case less
  consider "length xs = 1" | "length xs = 2" | "2 < length xs" 
    using less.prems length_0_conv [of xs] by linarith
  then show ?case
  proof cases
    case 1
    then show ?thesis by (cases xs) auto
  next
    case 2
    then obtain x y where "xs = [x, y]" by (auto simp: numeral_2_eq_2 length_Suc_conv)
    moreover have "left_half (Suc (Suc 0)) = 1"
      using left_half_unique [of 0 2] by (simp add: numeral_2_eq_2)
    ultimately show ?thesis by (simp add: tree_root.simps [of _ "[x, y]"] Let_def)
  next
    case 3
    let ?k = "left_half (length xs)"
    let ?m = "length (pair_up hp xs)"
    have k: "?k < length xs" "0 < ?k" using 3 left_half_bounds(1) [of "length xs"] by simp_all
    have half: "left_half ?m = ?k div 2" and even: "even ?k"
      using left_half_div [OF 3] by simp_all
    have split: "pair_up hp xs = pair_up hp (take ?k xs) @ pair_up hp (drop ?k xs)"
      using pair_up_append [of "take ?k xs" hp "drop ?k xs"] even k by (simp add: min_def)
    have len: "length (pair_up hp (take ?k xs)) = ?k div 2" using even k by (simp add: min_def)
    have "1 < ?m" using 3 by simp
    then have "tree_root hp (pair_up hp xs) =
        hp (tree_root hp (pair_up hp (take ?k xs))) (tree_root hp (pair_up hp (drop ?k xs)))"
      using split len half by (subst tree_root.simps) (simp add: Let_def)
    also have "\<dots> = hp (tree_root hp (take ?k xs)) (tree_root hp (drop ?k xs))"
    proof -
      have "take ?k xs \<noteq> []" "length (take ?k xs) < length xs"
        "drop ?k xs \<noteq> []" "length (drop ?k xs) < length xs"
        using k by (auto simp del: left_half_pos)
      then show ?thesis using less.hyps by metis
    qed
    also have "\<dots> = tree_root hp xs"
      using 3 by (subst (3) tree_root.simps) (simp add: Let_def)
    finally show ?thesis .
  qed
qed

lemma level_root_eq_tree_root: "xs \<noteq> [] \<Longrightarrow> level_root hp xs = tree_root hp xs"
proof (induction hp xs rule: level_root.induct)
  case (1 hp xs)
  show ?case
  proof (cases "length xs \<le> 1")
    case True
    with 1(2) show ?thesis by (simp add: level_root.simps tree_root.simps)
  next
    case False
    with 1 have "level_root hp (pair_up hp xs) = tree_root hp (pair_up hp xs)" by simp
    with False 1(2) show ?thesis by (simp add: level_root_pair_up tree_root_pair_up)
  qed
qed

section \<open>The interface of the pair hash\<close>

text \<open>
  What the trees rely on: hashes have 32 bytes, and hashing many pairs at once is hashing the
  pairs one by one.
\<close>

abbreviation hashes :: "hash list \<Rightarrow> bool" where
  "hashes hs \<equiv> \<forall>h\<in>set hs. length h = 32"

locale pair_hash =
  fixes hp :: "hash \<Rightarrow> hash \<Rightarrow> hash" and hps :: "nat \<Rightarrow> hash list \<Rightarrow> hash list option"
  assumes length_hp: "length a = 32 \<Longrightarrow> length b = 32 \<Longrightarrow> length (hp a b) = 32"
    and hps_pair_up: "hashes hs \<Longrightarrow> length hs = 2 * n \<Longrightarrow> hps n hs = Some (pair_up hp hs)"
begin

lemma hashes_pair_up: "hashes hs \<Longrightarrow> hashes (pair_up hp hs)"
  by (induction hs rule: induct_list012) (auto simp: length_hp)

lemma length_level_root: "hashes hs \<Longrightarrow> hs \<noteq> [] \<Longrightarrow> length (level_root hp hs) = 32"
proof (induction "length hs" arbitrary: hs rule: less_induct)
  case less
  show ?case
  proof (cases "length hs \<le> 1")
    case True
    with less.prems show ?thesis by (cases hs) (simp_all add: level_root.simps)
  next
    case False
    then have "level_root hp hs = level_root hp (pair_up hp hs)" by (simp add: level_root_pair_up)
    moreover have "length (level_root hp (pair_up hp hs)) = 32"
      using False less.prems by (intro less.hyps hashes_pair_up) simp_all
    ultimately show ?thesis by simp
  qed
qed

end

lemma length_join_pairs [simp]: "length (join_pairs xs) = length xs div 2"
  by (induction xs rule: join_pairs.induct) simp_all

lemma hash_pair_block_eq: "hash_pair platform l r = hash_pair_block platform (l @ r)"
  by (simp add: hash_pair_def hash_pair_block_def)

context blake3_platform
begin

lemma hash_pair_total:
  "length l = 32 \<Longrightarrow> length r = 32 \<Longrightarrow>
    single_block_keyed_hash platform INNER_NODE_DOMAIN_SEPARATOR (l @ r) =
    Some (blake3_keyed_hash INNER_NODE_DOMAIN_SEPARATOR (l @ r))"
  by (simp add: single_block_keyed_hash_def hash_block_eq blake3_keyed_hash_def)

lemma hash_pair_eq:
  "length l = 32 \<Longrightarrow> length r = 32 \<Longrightarrow>
    hash_pair platform l r = blake3_keyed_hash INNER_NODE_DOMAIN_SEPARATOR (l @ r)"
  by (simp add: hash_pair_def hash_pair_total)

lemma map_join_pairs:
  "hashes hs \<Longrightarrow> even (length hs) \<Longrightarrow>
    map (blake3_keyed_hash INNER_NODE_DOMAIN_SEPARATOR) (join_pairs hs) =
    pair_up (hash_pair platform) hs"
  by (induction hs rule: join_pairs.induct) (simp_all add: hash_pair_eq)

lemma length_join_pairs_blocks: "hashes hs \<Longrightarrow> \<forall>b\<in>set (join_pairs hs). length b = 64"
  by (induction hs rule: join_pairs.induct) simp_all

lemma hash_pairs_eq:
  assumes "hashes hs" and "length hs = 2 * n"
  shows "hash_pairs platform n hs = Some (pair_up (hash_pair platform) hs)"
  using assms map_join_pairs [OF assms(1)] length_join_pairs_blocks [OF assms(1)]
  by (simp add: hash_pairs_def single_block_keyed_hash_many_exact_def hash_block_many_exact_eq
      blake3_keyed_hash_def [abs_def])

end

sublocale blake3_platform \<subseteq> pair_hash "hash_pair platform" "hash_pairs platform"
  by unfold_locales (simp_all add: hash_pair_eq hash_pairs_eq blake3_keyed_hash_def)

section \<open>Collisions\<close>

text \<open>
  There are more blocks than hashes, so two blocks with the same hash exist; what a
  forged proof has to exhibit is one such pair among the blocks it makes the verifier hash and those
  hashed for the tree.
\<close>

function level_blocks :: "(hash \<Rightarrow> hash \<Rightarrow> hash) \<Rightarrow> hash list \<Rightarrow> u8 list list" where
  "level_blocks hp xs =
    (if length xs \<le> 1 then [] else join_pairs xs @ level_blocks hp (pair_up hp xs))"
  by pat_completeness auto
termination by (relation "measure (\<lambda>(hp, xs). length xs)") auto

declare level_blocks.simps [simp del]

definition collide :: "Platform \<Rightarrow> u8 list list \<Rightarrow> u8 list list \<Rightarrow> bool" where
  "collide platform as bs \<longleftrightarrow>
    (\<exists>a\<in>set as. \<exists>b\<in>set bs. a \<noteq> b \<and> hash_pair_block platform a = hash_pair_block platform b)"

lemma join_pairs_nth:
  "Suc (2 * j) < length xs \<Longrightarrow> xs ! (2 * j) @ xs ! Suc (2 * j) \<in> set (join_pairs xs)"
proof (induction xs arbitrary: j rule: join_pairs.induct)
  case (1 x y zs)
  then show ?case by (cases j) simp_all
qed simp_all

lemma hash_pair_inject:
  assumes "hash_pair platform a b = hash_pair platform c d" and "length a = length c"
    and "a @ b \<in> set as" and "c @ d \<in> set bs" and "\<not> collide platform as bs"
  shows "a = c \<and> b = d"
proof -
  from assms have "a @ b = c @ d"
    unfolding collide_def hash_pair_block_eq by blast
  with assms(2) show ?thesis by simp
qed

end
