(* ===== verification/Merkle_Unbalanced.thy ===== *)
theory Merkle_Unbalanced
  imports Merkle
begin

text \<open>
  \<open>UnbalancedMerkleTree\<close> (\<open>ab-merkle-tree/src/unbalanced.rs\<close>): root computation, proof generation
  and proof verification for any number of leaves.

  The code keeps a stack with one node per level, indexed by the bits of the number of leaves
  (a binary counter of perfect trees), and folds the remaining peaks from the lowest one. The
  invariant \<open>represents\<close> follows the stack level by level: a level holds the last node of its
  level list when that list has odd length, and the rest of the stack represents the list of paired
  nodes. \<open>peak_path\<close> adds the level and the siblings of the leaf a proof is built for.

  An outer \<open>None\<close> is a panic or an out-of-range unchecked access; the inner option is the one the
  code returns. \<open>usize\<close> and \<open>u64\<close> have the same width; indices are natural numbers, counters that
  the code reads bit by bit are words.
\<close>

section \<open>Code\<close>

definition get_unchecked :: "'a list \<Rightarrow> nat \<Rightarrow> 'a option" where
  "get_unchecked xs i = (if i < length xs then Some (xs ! i) else None)"

definition proof_capacity :: "u64 \<Rightarrow> nat option" where
  "proof_capacity max_n = next_power_of_two (unat max_n) \<bind> ilog2"

definition empty_stack :: "u64 \<Rightarrow> hash list option" where
  "empty_stack max_n = do {
    levels \<leftarrow> proof_capacity max_n;
    Some (replicate (levels + 1) (replicate OUT_LEN 0))
  }"

subsection \<open>Root\<close>

primrec root_loop ::
  "Platform \<Rightarrow> u64 \<Rightarrow> hash list \<Rightarrow> hash list \<Rightarrow> u64 \<Rightarrow> (hash list \<times> u64) option option" where
  "root_loop platform max_n [] stack num_leaves = Some (Some (stack, num_leaves))"
| "root_loop platform max_n (h # leaves) stack num_leaves =
    (if num_leaves \<ge> max_n then Some None
     else let lowest_active_levels = trailing_ones num_leaves;
              current = fold (hash_pair platform) (take lowest_active_levels stack) h
          in if lowest_active_levels < length stack
             then root_loop platform max_n leaves (stack[lowest_active_levels := current])
                    (num_leaves + 1)
             else None)"

function merge_peaks :: "Platform \<Rightarrow> hash list \<Rightarrow> u64 \<Rightarrow> hash option" where
  "merge_peaks platform stack stack_bits =
    (let lowest_active_level = trailing_zeros stack_bits in
     if lowest_active_level = 64 then get_unchecked stack 0
     else case get_unchecked stack lowest_active_level of
       None \<Rightarrow> None
     | Some item \<Rightarrow>
         merge_peaks platform (stack[0 := hash_pair platform item (stack ! 0)])
           (clear_bit lowest_active_level stack_bits))"
  by pat_completeness auto
termination
proof (relation "measure (\<lambda>(platform, stack, bits). unat bits)", goal_cases)
  case (2 platform stack bits level item)
  then have "bits \<noteq> 0" by (auto simp: trailing_zeros_unat)
  with 2 show ?case
    using pow_nat_zeros [of "unat bits"]
    by (simp add: trailing_zeros_unat unat_clear_bit unat_gt_0)
qed simp

declare merge_peaks.simps [simp del]

definition compute_root_only :: "Platform \<Rightarrow> u64 \<Rightarrow> hash list \<Rightarrow> hash option option" where
  "compute_root_only platform max_n leaves = do {
    stack \<leftarrow> empty_stack max_n;
    looped \<leftarrow> root_loop platform max_n leaves stack 0;
    case looped of
      None \<Rightarrow> Some None
    | Some (stack, num_leaves) \<Rightarrow>
        if num_leaves = 0 then Some None
        else do {
          let lowest_active_level = trailing_zeros num_leaves;
          item \<leftarrow> get_unchecked stack lowest_active_level;
          root \<leftarrow> merge_peaks platform (stack[0 := item]) (clear_bit lowest_active_level num_leaves);
          Some (Some root)
        }
  }"

subsection \<open>Root and proof\<close>

text \<open>The proof buffer has a fixed capacity and is written front to back.\<close>

definition proof_write :: "nat \<Rightarrow> hash list \<Rightarrow> hash \<Rightarrow> hash list option" where
  "proof_write capacity prf h = (if length prf < capacity then Some (prf @ [h]) else None)"

text \<open>The inner loop when the leaf added is the target, and when it is another one.\<close>

primrec target_loop ::
  "Platform \<Rightarrow> nat \<Rightarrow> hash list \<Rightarrow> hash \<Rightarrow> hash list \<Rightarrow> nat \<Rightarrow> (hash \<times> hash list \<times> nat) option" where
  "target_loop platform capacity [] current prf position = Some (current, prf, position)"
| "target_loop platform capacity (item # items) current prf position = do {
    prf \<leftarrow> proof_write capacity prf item;
    target_loop platform capacity items (hash_pair platform item current) prf (position div 2)
  }"

primrec other_loop ::
  "Platform \<Rightarrow> nat \<Rightarrow> hash list \<Rightarrow> nat \<Rightarrow> hash \<Rightarrow> hash list \<Rightarrow> nat option \<Rightarrow> nat \<Rightarrow>
    (hash \<times> hash list \<times> nat option \<times> nat) option" where
  "other_loop platform capacity [] level current prf target_level position =
    Some (current, prf, target_level, position)"
| "other_loop platform capacity (item # items) level current prf target_level position = do {
    (prf, target_level, position) \<leftarrow>
      (if target_level = Some level then do {
         prf \<leftarrow> proof_write capacity prf (if even position then current else item);
         Some (prf, Some (level + 1), position div 2)
       } else Some (prf, target_level, position));
    other_loop platform capacity items (level + 1) (hash_pair platform item current) prf
      target_level position
  }"

primrec proof_loop ::
  "Platform \<Rightarrow> u64 \<Rightarrow> nat \<Rightarrow> nat \<Rightarrow> hash list \<Rightarrow> nat \<Rightarrow> hash list \<Rightarrow> u64 \<Rightarrow> hash list \<Rightarrow>
    nat option \<Rightarrow> nat \<Rightarrow> (hash list \<times> u64 \<times> hash list \<times> nat option \<times> nat) option option" where
  "proof_loop platform max_n capacity target_index [] current_index stack num_leaves prf
     target_level position = Some (Some (stack, num_leaves, prf, target_level, position))"
| "proof_loop platform max_n capacity target_index (h # leaves) current_index stack num_leaves prf
     target_level position =
    (if num_leaves \<ge> max_n then Some None
     else do {
       let lowest_active_levels = trailing_ones num_leaves;
       (current, prf, target_level, position) \<leftarrow>
         (if current_index = target_index then do {
            (current, prf, position) \<leftarrow>
              target_loop platform capacity (take lowest_active_levels stack) h prf position;
            Some (current, prf, Some lowest_active_levels, position)
          } else
            other_loop platform capacity (take lowest_active_levels stack) 0 h prf target_level
              position);
       rust_assert (lowest_active_levels < length stack);
       proof_loop platform max_n capacity target_index leaves (current_index + 1)
         (stack[lowest_active_levels := current]) (num_leaves + 1) prf target_level position
     })"

function merge_peaks_proof ::
  "Platform \<Rightarrow> nat \<Rightarrow> nat \<Rightarrow> hash list \<Rightarrow> u64 \<Rightarrow> hash list \<Rightarrow> nat \<Rightarrow> bool \<Rightarrow> (hash \<times> hash list) option"
where
  "merge_peaks_proof platform capacity target_level stack stack_bits prf position merged_peaks =
    (let level = trailing_zeros stack_bits in
     if level = 64 then map_option (\<lambda>root. (root, prf)) (get_unchecked stack 0)
     else case get_unchecked stack level of
       None \<Rightarrow> None
     | Some item \<Rightarrow>
         (case (if level > target_level \<or> (level = target_level \<and> odd position \<and> \<not> merged_peaks)
                then map_option (\<lambda>prf. (prf, False)) (proof_write capacity prf item)
                else if level = target_level
                then map_option (\<lambda>prf. (prf, False)) (proof_write capacity prf (stack ! 0))
                else Some (prf, True)) of
            None \<Rightarrow> None
          | Some (prf, merged_peaks) \<Rightarrow>
              merge_peaks_proof platform capacity target_level
                (stack[0 := hash_pair platform item (stack ! 0)]) (clear_bit level stack_bits)
                prf (position div 2) merged_peaks))"
  by pat_completeness auto
termination
proof (relation "measure (\<lambda>(platform, capacity, target, stack, bits, rest). unat bits)", goal_cases)
  case (2 platform capacity target stack bits pr position merged level item)
  then have "bits \<noteq> 0" by (auto simp: trailing_zeros_unat)
  with 2 show ?case
    using pow_nat_zeros [of "unat bits"]
    by (simp add: trailing_zeros_unat unat_clear_bit unat_gt_0)
qed simp

declare merge_peaks_proof.simps [simp del]

definition compute_root_and_proof_inner ::
  "Platform \<Rightarrow> u64 \<Rightarrow> nat \<Rightarrow> hash list \<Rightarrow> nat \<Rightarrow> hash list \<Rightarrow> (hash \<times> hash list) option option" where
  "compute_root_and_proof_inner platform max_n capacity leaves target_index stack = do {
    looped \<leftarrow> proof_loop platform max_n capacity target_index leaves 0 stack 0 [] None target_index;
    case looped of
      None \<Rightarrow> Some None
    | Some (stack, num_leaves, prf, target_level, position) \<Rightarrow>
        if target_index \<ge> unat num_leaves then Some None
        else (case target_level of
          None \<Rightarrow> Some None
        | Some target_level \<Rightarrow> do {
            let level = trailing_zeros num_leaves;
            item \<leftarrow> get_unchecked stack level;
            result \<leftarrow> merge_peaks_proof platform capacity target_level (stack[0 := item])
              (clear_bit level num_leaves) prf position False;
            Some (Some result)
          })
  }"

definition compute_root_and_proof ::
  "Platform \<Rightarrow> u64 \<Rightarrow> hash list \<Rightarrow> nat \<Rightarrow> (hash \<times> hash list) option option" where
  "compute_root_and_proof platform max_n leaves target_index = do {
    stack \<leftarrow> empty_stack max_n;
    capacity \<leftarrow> proof_capacity max_n;
    compute_root_and_proof_inner platform max_n capacity leaves target_index stack
  }"

definition compute_root_and_proof_in ::
  "Platform \<Rightarrow> u64 \<Rightarrow> hash list \<Rightarrow> nat \<Rightarrow> nat \<Rightarrow> (hash \<times> hash list) option option" where
  "compute_root_and_proof_in platform max_n leaves target_index proof_len = do {
    stack \<leftarrow> empty_stack max_n;
    compute_root_and_proof_inner platform max_n proof_len leaves target_index stack
  }"

subsection \<open>Verification\<close>

lemma nat_div_ceil_2_less: "1 < n \<Longrightarrow> nat_div_ceil n 2 < n"
  unfolding nat_div_ceil_2 by presburger

function verify_loop :: "Platform \<Rightarrow> hash list \<Rightarrow> hash \<Rightarrow> nat \<Rightarrow> nat \<Rightarrow> (hash \<times> hash list) option" where
  "verify_loop platform prf current position level_size =
    (if level_size \<le> 1 then Some (current, prf)
     else let is_left = even position; is_last = (position = level_size - 1) in
       if is_left \<and> \<not> is_last then
         (case prf of
            [] \<Rightarrow> None
          | p # prf \<Rightarrow> verify_loop platform prf (hash_pair platform current p) (position div 2)
                         (nat_div_ceil level_size 2))
       else if \<not> is_left then
         (case prf of
            [] \<Rightarrow> None
          | p # prf \<Rightarrow> verify_loop platform prf (hash_pair platform p current) (position div 2)
                         (nat_div_ceil level_size 2))
       else verify_loop platform prf current (position div 2) (nat_div_ceil level_size 2))"
  by pat_completeness auto
termination
  by (relation "measure (\<lambda>(platform, prf, current, position, level_size). level_size)")
    (simp_all add: nat_div_ceil_2_less)

declare verify_loop.simps [simp del]

definition unbalanced_verify :: "Platform \<Rightarrow> hash \<Rightarrow> hash list \<Rightarrow> u64 \<Rightarrow> hash \<Rightarrow> u64 \<Rightarrow> bool" where
  "unbalanced_verify platform expected prf leaf_index leaf num_leaves =
    (if leaf_index \<ge> num_leaves then False
     else case verify_loop platform prf leaf (unat leaf_index) (unat num_leaves) of
       None \<Rightarrow> False
     | Some (current, rest) \<Rightarrow> rest = [] \<and> current = expected)"

section \<open>The stack as a binary counter\<close>

fun full_pairs :: "('h \<Rightarrow> 'h \<Rightarrow> 'h) \<Rightarrow> 'h list \<Rightarrow> 'h list" where
  "full_pairs hp (x # y # zs) = hp x y # full_pairs hp zs"
| "full_pairs hp zs = []"

lemma length_full_pairs [simp]: "length (full_pairs hp xs) = length xs div 2"
  by (induction hp xs rule: full_pairs.induct) simp_all

lemma full_pairs_snoc:
  "full_pairs hp (xs @ [h]) =
    (if odd (length xs) then full_pairs hp xs @ [hp (last xs) h] else full_pairs hp xs)"
  by (induction hp xs rule: full_pairs.induct) simp_all

lemma pair_up_eq: "pair_up hp xs = full_pairs hp xs @ (if odd (length xs) then [last xs] else [])"
  by (induction hp xs rule: full_pairs.induct) auto

text \<open>A stack represents the leaves added so far.\<close>

primrec represents :: "('h \<Rightarrow> 'h \<Rightarrow> 'h) \<Rightarrow> 'h list \<Rightarrow> 'h list \<Rightarrow> bool" where
  "represents hp [] xs \<longleftrightarrow> xs = []"
| "represents hp (s # st) xs \<longleftrightarrow>
    (odd (length xs) \<longrightarrow> s = last xs) \<and> represents hp st (full_pairs hp xs)"

primrec push :: "('h \<Rightarrow> 'h \<Rightarrow> 'h) \<Rightarrow> 'h list \<Rightarrow> nat \<Rightarrow> 'h \<Rightarrow> 'h list" where
  "push hp [] n h = []"
| "push hp (s # st) n h = (if odd n then s # push hp st (n div 2) (hp s h) else h # st)"

lemma represents_Nil: "represents hp st []"
  by (induction st) simp_all

lemma length_push [simp]: "length (push hp st n h) = length st"
  by (induction st arbitrary: n h) simp_all

lemma push_eq:
  "nat_ones n < length st \<Longrightarrow> st[nat_ones n := fold hp (take (nat_ones n) st) h] = push hp st n h"
proof (induction st arbitrary: n h)
  case (Cons s st)
  then show ?case by (cases "odd n") (simp_all add: nat_ones_odd)
qed simp

lemma represents_push:
  "represents hp st xs \<Longrightarrow> nat_ones (length xs) < length st \<Longrightarrow>
    represents hp (push hp st (length xs) h) (xs @ [h])"
proof (induction st arbitrary: xs h)
  case (Cons s st)
  show ?case
  proof (cases "odd (length xs)")
    case True
    with Cons.prems have "s = last xs" "represents hp st (full_pairs hp xs)"
      "nat_ones (length (full_pairs hp xs)) < length st"
      by (simp_all add: nat_ones_odd)
    with True Cons.IH [of "full_pairs hp xs" "hp s h"] show ?thesis
      by (simp add: full_pairs_snoc)
  next
    case False
    with Cons.prems show ?thesis by (simp add: full_pairs_snoc)
  qed
qed simp

text \<open>Fewer leaves than the stack has room for never carry past its end.\<close>

lemma nat_ones_less:
  assumes "n + 1 < 2 ^ k"
  shows "nat_ones n < k"
proof -
  have "2 ^ nat_ones n \<le> n + 1" by (rule pow_nat_ones)
  with assms have "(2::nat) ^ nat_ones n < 2 ^ k" by linarith
  then show ?thesis by (rule power_less_imp_less_exp [rotated]) simp
qed

primrec merge_levels :: "('h \<Rightarrow> 'h \<Rightarrow> 'h) \<Rightarrow> 'h list \<Rightarrow> nat \<Rightarrow> 'h option \<Rightarrow> 'h option" where
  "merge_levels hp [] n acc = acc"
| "merge_levels hp (s # st) n acc =
    merge_levels hp st (n div 2)
      (if odd n then Some (case acc of None \<Rightarrow> s | Some a \<Rightarrow> hp s a) else acc)"

lemma merge_levels_root:
  "represents hp st xs \<Longrightarrow> xs @ (case acc of None \<Rightarrow> [] | Some a \<Rightarrow> [a]) \<noteq> [] \<Longrightarrow>
    merge_levels hp st (length xs) acc =
      Some (level_root hp (xs @ (case acc of None \<Rightarrow> [] | Some a \<Rightarrow> [a])))"
proof (induction st arbitrary: xs acc)
  case Nil
  then show ?case by (cases acc) simp_all
next
  case (Cons s st)
  define acc' where
    "acc' = (if odd (length xs) then Some (case acc of None \<Rightarrow> s | Some a \<Rightarrow> hp s a) else acc)"
  let ?all = "xs @ (case acc of None \<Rightarrow> [] | Some a \<Rightarrow> [a])"
  have up: "full_pairs hp xs @ (case acc' of None \<Rightarrow> [] | Some a \<Rightarrow> [a]) = pair_up hp ?all"
    using Cons.prems(1)
    by (cases acc) (auto simp: acc'_def pair_up_eq full_pairs_snoc)
  have "level_root hp (pair_up hp ?all) = level_root hp ?all"
  proof (cases "1 < length ?all")
    case True
    then show ?thesis by (rule level_root_pair_up)
  next
    case False
    with Cons.prems(2) obtain x where "?all = [x]" by (cases ?all) auto
    then show ?thesis by simp
  qed
  moreover have "merge_levels hp (s # st) (length xs) acc =
      merge_levels hp st (length (full_pairs hp xs)) acc'"
    by (simp add: acc'_def)
  moreover have "\<dots> = Some (level_root hp (pair_up hp ?all))"
    using Cons.prems by (intro Cons.IH [of "full_pairs hp xs" acc', unfolded up]) simp_all
  ultimately show ?case by simp
qed

section \<open>Root computation\<close>

lemma merge_levels_0 [simp]: "merge_levels hp st 0 acc = acc"
  by (induction st) simp_all

lemma merge_levels_even:
  "even b \<Longrightarrow> merge_levels hp (st[0 := x]) b acc = merge_levels hp st b acc"
  by (cases st) simp_all

lemma merge_levels_lowest:
  "0 < b \<Longrightarrow> nat_zeros b < length st \<Longrightarrow>
    merge_levels hp st b acc =
    merge_levels hp st (b - 2 ^ nat_zeros b)
      (Some (case acc of None \<Rightarrow> st ! nat_zeros b | Some a \<Rightarrow> hp (st ! nat_zeros b) a))"
proof (induction st arbitrary: b)
  case (Cons s st)
  show ?case
  proof (cases "odd b")
    case True
    then have "(b - 1) div 2 = b div 2" "even (b - 1)" by (auto elim!: oddE)
    moreover have "nat_zeros b = 0" using True by simp
    ultimately show ?thesis using True by (cases acc) simp_all
  next
    case False
    then obtain c where c: "b = 2 * c" by (auto elim: evenE)
    with Cons.prems have "0 < c" "nat_zeros b = Suc (nat_zeros c)" by (simp_all add: nat_zeros_even)
    moreover have "b - 2 ^ Suc (nat_zeros c) = 2 * (c - 2 ^ nat_zeros c)" using c by simp
    ultimately show ?thesis using Cons c by (cases acc) simp_all
  qed
qed simp

lemma nat_zeros_less:
  assumes "0 < b" and "b < 2 ^ k"
  shows "nat_zeros b < k"
proof -
  have "(2::nat) ^ nat_zeros b < 2 ^ k" using pow_nat_zeros [OF assms(1)] assms(2) by linarith
  then show ?thesis by (rule power_less_imp_less_exp [rotated]) simp
qed

lemma even_clear_lowest: "even (b - 2 ^ nat_zeros b)"
proof (cases "odd b \<or> b = 0")
  case False
  then have "nat_zeros b = Suc (nat_zeros (b div 2))" by (simp add: nat_zeros_even)
  with False show ?thesis by simp
qed auto

lemma merge_peaks_eq:
  "even (unat bits) \<Longrightarrow> unat bits < 2 ^ length st \<Longrightarrow>
    st \<noteq> [] \<Longrightarrow> merge_peaks platform st bits =
      merge_levels (hash_pair platform) st (unat bits) (Some (st ! 0))"
proof (induction platform st bits rule: merge_peaks.induct)
  case (1 platform st bits)
  show ?case
  proof (cases "bits = 0")
    case True
    with 1(4) show ?thesis
      by (subst merge_peaks.simps) (simp add: trailing_zeros_unat get_unchecked_def)
  next
    case False
    let ?l = "nat_zeros (unat bits)"
    have b: "0 < unat bits" using False by (simp add: unat_gt_0)
    have l: "?l < length st" "?l < 64" "trailing_zeros bits = ?l"
      using nat_zeros_less [OF b 1(3)] nat_zeros_bound [OF False] False
      by (simp_all add: trailing_zeros_unat)
    have "merge_peaks platform st bits =
        merge_peaks platform (st[0 := hash_pair platform (st ! ?l) (st ! 0)]) (clear_bit ?l bits)"
      using l by (subst merge_peaks.simps) (simp add: get_unchecked_def Let_def)
    also have "\<dots> = merge_levels (hash_pair platform) st (unat bits - 2 ^ ?l)
        (Some (hash_pair platform (st ! ?l) (st ! 0)))"
      using 1(1) [OF refl, of "st ! ?l"] l 1(3,4) unat_clear_bit [OF False] even_clear_lowest [of "unat bits"]
      by (simp add: get_unchecked_def merge_levels_even)
    also have "\<dots> = merge_levels (hash_pair platform) st (unat bits) (Some (st ! 0))"
      using merge_levels_lowest [OF b l(1)] by simp
    finally show ?thesis .
  qed
qed

lemma proof_capacity_eq:
  assumes "unat max_n \<le> 2 ^ 63"
  shows "proof_capacity max_n = Some (ceillog2 (unat max_n))"
proof -
  have "ceillog2 (unat max_n) \<le> 63"
    using assms by (cases "unat max_n = 0") (simp_all add: ceillog2_le_iff)
  then have "(2::nat) ^ ceillog2 (unat max_n) < 2 ^ 64" by (intro power_strict_increasing) simp_all
  moreover have "ilog2 (2 ^ k) = Some k" for k
    by (simp add: ilog2_def floorlog_def)
  ultimately show ?thesis by (simp add: proof_capacity_def next_power_of_two_def Let_def)
qed

lemma empty_stack_eq:
  "unat max_n \<le> 2 ^ 63 \<Longrightarrow>
    empty_stack max_n = Some (replicate (ceillog2 (unat max_n) + 1) (replicate 32 0))"
  by (simp add: empty_stack_def proof_capacity_eq)

lemma levels_enough:
  assumes "n < m"
  shows "nat_ones n < ceillog2 m + 1"
proof -
  have "n + 1 \<le> 2 ^ ceillog2 m" using assms le_two_power_ceillog2 [of m] by linarith
  then have "n + 1 < 2 ^ (ceillog2 m + 1)" by simp
  then show ?thesis by (rule nat_ones_less)
qed

lemma root_loop_step:
  assumes "represents (hash_pair platform) st xs" and "length st = ceillog2 (unat max_n) + 1"
    and "length xs < unat max_n"
  shows "root_loop platform max_n (h # leaves) st (of_nat (length xs)) =
      root_loop platform max_n leaves (push (hash_pair platform) st (length xs) h)
        (of_nat (length (xs @ [h])))"
    and "represents (hash_pair platform) (push (hash_pair platform) st (length xs) h) (xs @ [h])"
proof -
  have n: "unat (of_nat (length xs) :: u64) = length xs"
    using assms(3) unat_less_u64 [of max_n] by (intro unat_of_nat_less) simp
  have lt: "\<not> max_n \<le> of_nat (length xs)" using assms(3) by (simp add: word_le_nat_alt n)
  have ones: "nat_ones (length xs) < length st" using levels_enough [OF assms(3)] assms(2) by simp
  show "root_loop platform max_n (h # leaves) st (of_nat (length xs)) =
      root_loop platform max_n leaves (push (hash_pair platform) st (length xs) h)
        (of_nat (length (xs @ [h])))"
    using lt ones by (simp add: trailing_ones_unat n push_eq Let_def add.commute)
  show "represents (hash_pair platform) (push (hash_pair platform) st (length xs) h) (xs @ [h])"
    using assms(1) ones by (rule represents_push)
qed

lemma root_loop_fits:
  "represents (hash_pair platform) st xs \<Longrightarrow> length st = ceillog2 (unat max_n) + 1 \<Longrightarrow>
    length xs + length leaves \<le> unat max_n \<Longrightarrow>
    \<exists>st'. root_loop platform max_n leaves st (of_nat (length xs)) =
        Some (Some (st', of_nat (length (xs @ leaves)))) \<and>
      represents (hash_pair platform) st' (xs @ leaves) \<and> length st' = length st"
proof (induction leaves arbitrary: st xs)
  case (Cons h leaves)
  then have "length xs < unat max_n" by simp
  note step = root_loop_step [OF Cons.prems(1,2) this, where h = h]
  show ?case
    using Cons.IH [OF step(2)] Cons.prems(2,3) unfolding step(1) by simp
qed simp

lemma root_loop_exceeds:
  "represents (hash_pair platform) st xs \<Longrightarrow> length st = ceillog2 (unat max_n) + 1 \<Longrightarrow>
    length xs \<le> unat max_n \<Longrightarrow> unat max_n < length xs + length leaves \<Longrightarrow>
    root_loop platform max_n leaves st (of_nat (length xs)) = Some None"
proof (induction leaves arbitrary: st xs)
  case (Cons h leaves)
  show ?case
  proof (cases "length xs < unat max_n")
    case True
    note step = root_loop_step [OF Cons.prems(1,2) this, where h = h]
    show ?thesis
      using Cons.IH [OF step(2)] Cons.prems(2,4) True unfolding step(1) by simp
  next
    case False
    then have "max_n \<le> of_nat (length xs)"
      using Cons.prems(3) unat_less_u64 [of max_n] by (simp add: word_le_nat_alt unat_of_nat_less)
    then show ?thesis by simp
  qed
qed simp

lemma peaks_root:
  fixes n :: u64
  assumes "represents (hash_pair platform) st xs" and "xs \<noteq> []" and "length xs < 2 ^ length st"
    and n: "unat n = length xs"
  shows "trailing_zeros n < length st" and "n \<noteq> 0"
    and "merge_peaks platform (st[0 := st ! trailing_zeros n]) (clear_bit (trailing_zeros n) n) =
      Some (tree_root (hash_pair platform) xs)"
proof -
  let ?l = "nat_zeros (length xs)"
  let ?st = "st[0 := st ! ?l]"
  have pos: "0 < length xs" using assms(2) by simp
  with n show "n \<noteq> 0" by auto
  then have tz: "trailing_zeros n = ?l" by (simp add: trailing_zeros_unat n)
  have l: "?l < length st" using pos assms(3) by (rule nat_zeros_less)
  with tz show "trailing_zeros n < length st" by simp
  have clear: "unat (clear_bit ?l n) = length xs - 2 ^ ?l"
    using unat_clear_bit [OF \<open>n \<noteq> 0\<close>] by (simp add: n)
  have first: "?st ! 0 = st ! ?l" using l by (cases st) simp_all
  have "merge_peaks platform ?st (clear_bit ?l n) =
      merge_levels (hash_pair platform) ?st (unat (clear_bit ?l n)) (Some (?st ! 0))"
    using l assms(3) even_clear_lowest [of "length xs"]
    by (intro merge_peaks_eq) (simp_all only: clear length_list_update, auto)
  also have "\<dots> = merge_levels (hash_pair platform) st (length xs - 2 ^ ?l) (Some (st ! ?l))"
    using even_clear_lowest [of "length xs"] first unfolding clear by (simp only: merge_levels_even)
  also have "\<dots> = merge_levels (hash_pair platform) st (length xs) None"
    using merge_levels_lowest [OF pos l] by simp
  also have "\<dots> = Some (tree_root (hash_pair platform) xs)"
    using merge_levels_root [OF assms(1), of None] assms(2) by (simp add: level_root_eq_tree_root)
  finally show "merge_peaks platform (st[0 := st ! trailing_zeros n])
      (clear_bit (trailing_zeros n) n) = Some (tree_root (hash_pair platform) xs)"
    by (simp only: tz)
qed

lemma compute_root_only_spec:
  assumes "unat max_n \<le> 2 ^ 63"
  shows "compute_root_only platform max_n leaves =
    Some (if leaves = [] \<or> unat max_n < length leaves then None
          else Some (tree_root (hash_pair platform) leaves))"
proof -
  let ?st = "replicate (ceillog2 (unat max_n) + 1) (replicate 32 0)"
  show ?thesis
  proof (cases "length leaves \<le> unat max_n \<and> leaves \<noteq> []")
    case False
    with root_loop_exceeds [OF represents_Nil, of ?st max_n leaves platform]
      empty_stack_eq [OF assms]
    show ?thesis
      by (cases "length leaves \<le> unat max_n") (auto simp: compute_root_only_def)
  next
    case True
    with root_loop_fits [OF represents_Nil, of ?st max_n leaves platform]
    obtain st where st: "root_loop platform max_n leaves ?st 0 =
        Some (Some (st, of_nat (length leaves)))"
      "represents (hash_pair platform) st leaves" "length st = ceillog2 (unat max_n) + 1"
      by auto
    have "length leaves \<le> 2 ^ ceillog2 (unat max_n)"
      using True le_two_power_ceillog2 [of "unat max_n"] by linarith
    also have "(2::nat) ^ ceillog2 (unat max_n) < 2 ^ length st" using st(3) by simp
    finally have lt: "length leaves < 2 ^ length st" .
    have n: "unat (of_nat (length leaves) :: u64) = length leaves"
      using True unat_less_u64 [of max_n] by (intro unat_of_nat_less) simp
    from peaks_root [OF st(2) _ lt n] True st(1) empty_stack_eq [OF assms] show ?thesis
      by (auto simp: compute_root_only_def get_unchecked_def Let_def)
  qed
qed

section \<open>Verification\<close>

lemma pair_up_shrinks:
  "\<not> length xs \<le> 1 \<Longrightarrow> length (pair_up hp xs) < length xs"
  "i < length xs \<Longrightarrow> i div 2 < length (pair_up hp xs)"
  unfolding length_pair_up by presburger+

lemma verify_loop_steps:
  "n \<le> 1 \<Longrightarrow> verify_loop platform pr c i n = Some (c, pr)"
  "1 < n \<Longrightarrow> odd i \<or> i + 1 < n \<Longrightarrow> verify_loop platform [] c i n = None"
  "1 < n \<Longrightarrow> odd i \<Longrightarrow> verify_loop platform (p # pr) c i n =
    verify_loop platform pr (hash_pair platform p c) (i div 2) ((n + 1) div 2)"
  "1 < n \<Longrightarrow> even i \<Longrightarrow> i + 1 < n \<Longrightarrow> verify_loop platform (p # pr) c i n =
    verify_loop platform pr (hash_pair platform c p) (i div 2) ((n + 1) div 2)"
  "1 < n \<Longrightarrow> even i \<Longrightarrow> i + 1 = n \<Longrightarrow> verify_loop platform pr c i n =
    verify_loop platform pr c (i div 2) ((n + 1) div 2)"
  by (subst verify_loop.simps; auto simp: Let_def nat_div_ceil_2)+

lemma level_path_steps:
  "length xs \<le> 1 \<Longrightarrow> level_path hp xs i = []"
  "1 < length xs \<Longrightarrow> odd i \<Longrightarrow>
    level_path hp xs i = xs ! (i - 1) # level_path hp (pair_up hp xs) (i div 2)"
  "1 < length xs \<Longrightarrow> even i \<Longrightarrow> i + 1 < length xs \<Longrightarrow>
    level_path hp xs i = xs ! (i + 1) # level_path hp (pair_up hp xs) (i div 2)"
  "1 < length xs \<Longrightarrow> even i \<Longrightarrow> i + 1 = length xs \<Longrightarrow>
    level_path hp xs i = level_path hp (pair_up hp xs) (i div 2)"
  by (subst level_path.simps; simp)+

lemma position_cases:
  fixes i n :: nat
  assumes "i < n"
  obtains (right) "odd i" | (left) "even i" "i + 1 < n" | (last) "even i" "i + 1 = n"
  using assms by linarith

lemma verify_loop_path:
  "i < length xs \<Longrightarrow>
    verify_loop platform (level_path (hash_pair platform) xs i @ rest) (xs ! i) i (length xs) =
    Some (level_root (hash_pair platform) xs, rest)"
proof (induction "length xs" arbitrary: xs i rule: less_induct)
  case less
  let ?hp = "hash_pair platform"
  show ?case
  proof (cases "length xs \<le> 1")
    case True
    with less.prems have "xs = [xs ! 0]" "i = 0" by (cases xs; simp)+
    then show ?thesis
      by (metis True append_Nil level_path.simps level_root_single verify_loop.simps)
  next
    case False
    then have len: "length (pair_up ?hp xs) < length xs" "i div 2 < length (pair_up ?hp xs)"
      using less.prems pair_up_shrinks by blast+
    have IH: "verify_loop platform (level_path ?hp (pair_up ?hp xs) (i div 2) @ rest)
        (pair_up ?hp xs ! (i div 2)) (i div 2) ((length xs + 1) div 2) =
        Some (level_root ?hp xs, rest)"
      using less.hyps [OF len] False by (simp add: level_root_pair_up)
    note nth = pair_up_nth [OF less.prems, of ?hp]
    from less.prems show ?thesis
    proof (cases rule: position_cases)
      case right
      with False IH nth show ?thesis by (simp add: verify_loop_steps level_path_steps)
    next
      case left
      with False IH nth show ?thesis by (simp add: verify_loop_steps level_path_steps)
    next
      case last
      with False IH nth show ?thesis by (simp add: verify_loop_steps level_path_steps)
    qed
  qed
qed

text \<open>The blocks a run of the verification hashes.\<close>

function verify_blocks :: "Platform \<Rightarrow> hash list \<Rightarrow> hash \<Rightarrow> nat \<Rightarrow> nat \<Rightarrow> u8 list list" where
  "verify_blocks platform pr c i n =
    (if n \<le> 1 then []
     else if odd i \<or> i + 1 < n then
       (case pr of
          [] \<Rightarrow> []
        | p # pr \<Rightarrow>
            (let (l, r) = (if odd i then (p, c) else (c, p)) in
             (l @ r) # verify_blocks platform pr (hash_pair platform l r) (i div 2) ((n + 1) div 2)))
     else verify_blocks platform pr c (i div 2) ((n + 1) div 2))"
  by pat_completeness auto
termination by (relation "measure (\<lambda>(platform, pr, c, i, n). n)") auto

declare verify_blocks.simps [simp del]

lemma verify_blocks_steps:
  "1 < n \<Longrightarrow> odd i \<Longrightarrow> verify_blocks platform (p # pr) c i n =
    (p @ c) # verify_blocks platform pr (hash_pair platform p c) (i div 2) ((n + 1) div 2)"
  "1 < n \<Longrightarrow> even i \<Longrightarrow> i + 1 < n \<Longrightarrow> verify_blocks platform (p # pr) c i n =
    (c @ p) # verify_blocks platform pr (hash_pair platform c p) (i div 2) ((n + 1) div 2)"
  "1 < n \<Longrightarrow> even i \<Longrightarrow> i + 1 = n \<Longrightarrow> verify_blocks platform pr c i n =
    verify_blocks platform pr c (i div 2) ((n + 1) div 2)"
  by (subst verify_blocks.simps; simp)+

context blake3_platform
begin

lemma verify_loop_unique:
  "i < length xs \<Longrightarrow> hashes xs \<Longrightarrow> hashes pr \<Longrightarrow> length cur = 32 \<Longrightarrow>
    verify_loop platform pr cur i (length xs) = Some (level_root (hash_pair platform) xs, rest) \<Longrightarrow>
    \<not> collide platform (verify_blocks platform pr cur i (length xs)) (level_blocks (hash_pair platform) xs) \<Longrightarrow>
    cur = xs ! i \<and> pr = level_path (hash_pair platform) xs i @ rest"
proof (induction "length xs" arbitrary: xs i pr cur rule: less_induct)
  case less
  let ?hp = "hash_pair platform"
  show ?case
  proof (cases "length xs \<le> 1")
    case True
    with less.prems(1) have "xs = [xs ! 0]" "i = 0" by (cases xs; simp)+
    with less.prems(5) True show ?thesis
      by (metis append_Nil level_path.simps level_root_single option.inject prod.inject
          verify_loop.simps)
  next
    case False
    let ?up = "pair_up ?hp xs"
    have len: "length ?up < length xs" "i div 2 < length ?up"
      using less.prems(1) False pair_up_shrinks by blast+
    have up: "hashes ?up" using less.prems(2) by (rule hashes_pair_up)
    have big: "1 < length xs" using False by simp
    have blocks: "level_blocks ?hp xs = join_pairs xs @ level_blocks ?hp ?up"
      using big by (subst level_blocks.simps) simp
    have IH: "c = ?up ! (i div 2) \<and> p = level_path ?hp ?up (i div 2) @ rest"
      if "verify_loop platform p c (i div 2) ((length xs + 1) div 2) =
          Some (level_root ?hp xs, rest)" "hashes p" "length c = 32"
        "set (verify_blocks platform p c (i div 2) ((length xs + 1) div 2)) \<subseteq>
          set (verify_blocks platform pr cur i (length xs))" for p c
      using less.hyps [OF len up that(2,3)] that(1,4) big less.prems(6)
      by (auto simp: level_root_pair_up collide_def blocks)
    note nth = pair_up_nth [OF less.prems(1), of ?hp]
    have elem: "length (xs ! j) = 32" if "j < length xs" for j using less.prems(2) that by simp
    from less.prems(1) show ?thesis
    proof (cases rule: position_cases)
      case right
      then obtain j where j: "i = Suc (2 * j)" by (auto elim: oddE)
      from right less.prems(5) big obtain p ps where pr: "pr = p # ps"
        by (cases pr) (simp_all add: verify_loop_steps)
      with less.prems(3,4) have l: "length p = 32" "hashes ps" "length (?hp p cur) = 32"
        by (simp_all add: length_hp)
      from IH [OF _ l(2,3)] right less.prems(5) big pr nth
      have eq: "?hp p cur = ?hp (xs ! (i - 1)) (xs ! i)" and
        ps: "ps = level_path ?hp ?up (i div 2) @ rest"
        by (auto simp: verify_loop_steps verify_blocks_steps)
      have "p = xs ! (i - 1) \<and> cur = xs ! i"
        using right big pr j join_pairs_nth [of j xs] less.prems(1) elem l(1)
        by (intro hash_pair_inject [OF eq _ _ _ less.prems(6)])
          (auto simp: verify_blocks_steps blocks)
      with right big pr ps show ?thesis by (simp add: level_path_steps)
    next
      case left
      then obtain j where j: "i = 2 * j" by (auto elim: evenE)
      from left less.prems(5) big obtain p ps where pr: "pr = p # ps"
        by (cases pr) (simp_all add: verify_loop_steps)
      with less.prems(3,4) have l: "length p = 32" "hashes ps" "length (?hp cur p) = 32"
        by (simp_all add: length_hp)
      from IH [OF _ l(2,3)] left less.prems(5) big pr nth
      have eq: "?hp cur p = ?hp (xs ! i) (xs ! (i + 1))" and
        ps: "ps = level_path ?hp ?up (i div 2) @ rest"
        by (auto simp: verify_loop_steps verify_blocks_steps)
      have "cur = xs ! i \<and> p = xs ! (i + 1)"
        using left big pr j join_pairs_nth [of j xs] less.prems(4) elem
        by (intro hash_pair_inject [OF eq _ _ _ less.prems(6)])
          (auto simp: verify_blocks_steps blocks)
      with left big pr ps show ?thesis by (simp add: level_path_steps)
    next
      case last
      with IH [OF _ less.prems(3,4)] less.prems(5) big nth show ?thesis
        by (simp add: verify_loop_steps level_path_steps verify_blocks_steps)
    qed
  qed
qed

end

section \<open>Proof generation\<close>

text \<open>
  The level of the peak a leaf is under, and its siblings up to that peak.
\<close>

function peak_level :: "nat \<Rightarrow> nat \<Rightarrow> nat" where
  "peak_level n i =
    (if n \<le> i \<or> (odd n \<and> i + 1 = n) then 0 else Suc (peak_level (n div 2) (i div 2)))"
  by pat_completeness auto
termination by (relation "measure fst") auto

function peak_sibs :: "('h \<Rightarrow> 'h \<Rightarrow> 'h) \<Rightarrow> 'h list \<Rightarrow> nat \<Rightarrow> 'h list" where
  "peak_sibs hp xs i =
    (if length xs \<le> i \<or> (odd (length xs) \<and> i + 1 = length xs) then []
     else (if odd i then xs ! (i - 1) else xs ! (i + 1)) # peak_sibs hp (full_pairs hp xs) (i div 2))"
  by pat_completeness auto
termination by (relation "measure (\<lambda>(hp, xs, i). length xs)") auto

declare peak_level.simps [simp del] peak_sibs.simps [simp del]

lemma length_peak_sibs: "length (peak_sibs hp xs i) = peak_level (length xs) i"
proof (induction hp xs i rule: peak_sibs.induct)
  case (1 hp xs i)
  then show ?case by (subst peak_sibs.simps, subst peak_level.simps) auto
qed

lemma peak_top [simp]:
  "odd (length xs) \<Longrightarrow> i + 1 = length xs \<Longrightarrow> peak_sibs hp xs i = []"
  "odd n \<Longrightarrow> i + 1 = n \<Longrightarrow> peak_level n i = 0"
  by (subst peak_sibs.simps peak_level.simps; simp)+

lemma peak_below:
  assumes "i < n" and "\<not> (odd n \<and> i + 1 = n)"
  shows "peak_level n i = Suc (peak_level (n div 2) (i div 2))"
    and "length xs = n \<Longrightarrow> peak_sibs hp xs i =
      (if odd i then xs ! (i - 1) else xs ! (i + 1)) # peak_sibs hp (full_pairs hp xs) (i div 2)"
    and "even i \<Longrightarrow> i + 1 < n" and "i div 2 < n div 2"
proof -
  have cond: "\<not> (n \<le> i \<or> (odd n \<and> i + 1 = n))" using assms by auto
  then show "even i \<Longrightarrow> i + 1 < n" "i div 2 < n div 2" by presburger+
  show "peak_level n i = Suc (peak_level (n div 2) (i div 2))"
    using cond peak_level.simps [of n i] by simp
  show "peak_sibs hp xs i =
      (if odd i then xs ! (i - 1) else xs ! (i + 1)) # peak_sibs hp (full_pairs hp xs) (i div 2)"
    if "length xs = n"
    using cond that peak_sibs.simps [of hp xs i] by simp
qed

lemma proof_write_fits [simp]: "length pr < capacity \<Longrightarrow> proof_write capacity pr h = Some (pr @ [h])"
  by (simp add: proof_write_def)

lemma last_nth: "xs \<noteq> [] \<Longrightarrow> last xs = xs ! (length xs - 1)"
  by (rule last_conv_nth)

text \<open>The new leaf as the target: the carry collects its siblings.\<close>

lemma peak_level_new: "peak_level (n + 1) n = nat_ones n"
proof (induction n rule: nat_ones.induct)
  case (1 n)
  show ?case
  proof (cases "odd n")
    case True
    then have "(n + 1) div 2 = n div 2 + 1" by simp
    with True 1 peak_below(1) [of n "n + 1"] show ?thesis by (simp add: nat_ones_odd)
  qed simp
qed

lemma peak_sibs_new_odd:
  assumes "odd (length xs)"
  shows "peak_sibs hp (xs @ [h]) (length xs) =
    last xs # peak_sibs hp (full_pairs hp xs @ [hp (last xs) h]) (length xs div 2)"
proof -
  have "xs \<noteq> []" using assms by auto
  with assms show ?thesis
    by (subst peak_below(2)) (simp_all add: full_pairs_snoc last_nth nth_append)
qed

lemma target_loop_new:
  "represents (hash_pair platform) st xs \<Longrightarrow> nat_ones (length xs) < length st \<Longrightarrow>
    length pr + nat_ones (length xs) \<le> capacity \<Longrightarrow>
    target_loop platform capacity (take (nat_ones (length xs)) st) h pr (length xs) =
    Some (fold (hash_pair platform) (take (nat_ones (length xs)) st) h,
      pr @ peak_sibs (hash_pair platform) (xs @ [h]) (length xs),
      length xs div 2 ^ nat_ones (length xs))"
proof (induction st arbitrary: xs h pr)
  case (Cons s st)
  show ?case
  proof (cases "odd (length xs)")
    case True
    with Cons.prems have "s = last xs" "represents (hash_pair platform) st (full_pairs (hash_pair platform) xs)"
      by simp_all
    with Cons.IH [of "full_pairs (hash_pair platform) xs" "pr @ [s]" "hash_pair platform s h"] Cons.prems True
    show ?thesis by (simp add: nat_ones_odd peak_sibs_new_odd div_mult2_eq)
  qed simp
qed simp

lemma other_loop_new:
  "represents (hash_pair platform) st xs \<Longrightarrow> nat_ones (length xs) < length st \<Longrightarrow>
    length pr + nat_ones (length xs) \<le> capacity \<Longrightarrow>
    other_loop platform capacity (take (nat_ones (length xs)) st) k h pr (Some k) (length xs) =
    Some (fold (hash_pair platform) (take (nat_ones (length xs)) st) h,
      pr @ peak_sibs (hash_pair platform) (xs @ [h]) (length xs),
      Some (k + nat_ones (length xs)), length xs div 2 ^ nat_ones (length xs))"
proof (induction st arbitrary: xs h pr k)
  case (Cons s st)
  show ?case
  proof (cases "odd (length xs)")
    case True
    with Cons.prems have "s = last xs" "represents (hash_pair platform) st (full_pairs (hash_pair platform) xs)"
      by simp_all
    with Cons.IH [of "full_pairs (hash_pair platform) xs" "pr @ [s]" "Suc k" "hash_pair platform s h"]
      Cons.prems True
    show ?thesis by (simp add: nat_ones_odd peak_sibs_new_odd div_mult2_eq)
  qed simp
qed simp


text \<open>A leaf under an earlier peak: the carry extends its siblings when it merges that peak.\<close>

lemma peak_even_snoc:
  assumes "even (length xs)" and "i < length xs"
  shows "peak_sibs hp (xs @ [h]) i = peak_sibs hp xs i"
    and "peak_level (length xs + 1) i = peak_level (length xs) i"
proof -
  note b = peak_below [of i "length xs"] and b' = peak_below [of i "length (xs @ [h])"]
  have lt: "even i \<Longrightarrow> i + 1 < length xs" using b(3) assms by auto
  show "peak_sibs hp (xs @ [h]) i = peak_sibs hp xs i"
    using b(2) [of xs hp] b'(2) [of "xs @ [h]" hp] assms lt
    by (auto simp: full_pairs_snoc nth_append)
  show "peak_level (length xs + 1) i = peak_level (length xs) i"
    using b(1) b'(1) assms by simp
qed

lemma other_loop_target:
  "represents (hash_pair platform) st xs \<Longrightarrow> nat_ones (length xs) < length st \<Longrightarrow> i < length xs \<Longrightarrow>
    length pr + peak_level (length xs + 1) i \<le> capacity \<Longrightarrow>
    other_loop platform capacity (take (nat_ones (length xs)) st) k h
      (pr @ peak_sibs (hash_pair platform) xs i) (Some (k + peak_level (length xs) i))
      (i div 2 ^ peak_level (length xs) i) =
    Some (fold (hash_pair platform) (take (nat_ones (length xs)) st) h,
      pr @ peak_sibs (hash_pair platform) (xs @ [h]) i,
      Some (k + peak_level (length xs + 1) i), i div 2 ^ peak_level (length xs + 1) i)"
proof (induction st arbitrary: xs h pr k i)
  case (Cons s st)
  let ?hp = "hash_pair platform"
  let ?up = "full_pairs ?hp xs"
  show ?case
  proof (cases "odd (length xs)")
    case False
    with Cons.prems(3) show ?thesis by (simp add: peak_even_snoc [simplified])
  next
    case odd: True
    with Cons.prems(1) have s: "s = last xs" "represents ?hp st ?up" by simp_all
    have ones: "nat_ones (length ?up) < length st"
      using odd Cons.prems(2) by (simp add: nat_ones_odd)
    have up': "full_pairs ?hp (xs @ [h]) = ?up @ [?hp s h]" using odd s by (simp add: full_pairs_snoc)
    have half: "(length xs + 1) div 2 = length ?up + 1" using odd by simp
    have below': "i < length (xs @ [h])" "\<not> (odd (length (xs @ [h])) \<and> i + 1 = length (xs @ [h]))"
      using Cons.prems(3) odd by simp_all
    note b' = peak_below [OF below']
    have level': "peak_level (length xs + 1) i = Suc (peak_level (length ?up + 1) (i div 2))"
      using b'(1) half by simp
    have sibs': "peak_sibs ?hp (xs @ [h]) i =
        (if odd i then (xs @ [h]) ! (i - 1) else (xs @ [h]) ! (i + 1)) #
          peak_sibs ?hp (?up @ [?hp s h]) (i div 2)"
      using b'(2) [OF refl, of ?hp] up' by simp
    show ?thesis
    proof (cases "i + 1 = length xs")
      case True
      then have n: "length xs = Suc i" by simp
      with odd have i: "even i" "i div 2 = length ?up" "(xs @ [h]) ! (i + 1) = h"
        by (simp_all add: nth_append)
      have "other_loop platform capacity (take (nat_ones (length ?up)) st) (k + 1) (?hp s h)
          (pr @ [h]) (Some (k + 1)) (length ?up) =
        Some (fold ?hp (take (nat_ones (length ?up)) st) (?hp s h),
          (pr @ [h]) @ peak_sibs ?hp (?up @ [?hp s h]) (length ?up),
          Some (k + 1 + nat_ones (length ?up)), length ?up div 2 ^ nat_ones (length ?up))"
        using Cons.prems(4) level' i(2)
        by (intro other_loop_new s(2) ones) (simp add: peak_level_new [simplified])
      then show ?thesis
        using True odd i Cons.prems(4) level' sibs'
        by (simp add: nat_ones_odd peak_level_new [simplified] div_mult2_eq)
    next
      case False
      then have "\<not> (odd (length xs) \<and> i + 1 = length xs)" by simp
      note b = peak_below [OF Cons.prems(3) this]
      define x where "x = (if odd i then xs ! (i - 1) else xs ! (i + 1))"
      have x: "(if odd i then (xs @ [h]) ! (i - 1) else (xs @ [h]) ! (i + 1)) = x"
        using b(3) Cons.prems(3) by (auto simp: nth_append x_def)
      have sibs: "peak_sibs ?hp xs i = x # peak_sibs ?hp ?up (i div 2)"
        using b(2) [OF refl, of ?hp] by (simp only: x_def)
      have "other_loop platform capacity (take (nat_ones (length ?up)) st) (k + 1) (?hp s h)
          ((pr @ [x]) @ peak_sibs ?hp ?up (i div 2))
          (Some (k + 1 + peak_level (length ?up) (i div 2)))
          (i div 2 div 2 ^ peak_level (length ?up) (i div 2)) =
        Some (fold ?hp (take (nat_ones (length ?up)) st) (?hp s h),
          (pr @ [x]) @ peak_sibs ?hp (?up @ [?hp s h]) (i div 2),
          Some (k + 1 + peak_level (length ?up + 1) (i div 2)),
          i div 2 div 2 ^ peak_level (length ?up + 1) (i div 2))"
        using Cons.prems(4) level' b(4) by (intro Cons.IH s(2) ones) simp_all
      then show ?thesis
        using odd b(1) level' by (simp add: nat_ones_odd div_mult2_eq sibs sibs' [unfolded x])
    qed
  qed
qed simp

text \<open>Facts on the level of a peak.\<close>

lemma peak_level_facts:
  assumes "i < n"
  shows "2 ^ peak_level n i \<le> n \<and> bit n (peak_level n i) \<and> even (i div 2 ^ peak_level n i)"
  using assms
proof (induction n i rule: peak_level.induct)
  case (1 n i)
  show ?case
  proof (cases "odd n \<and> i + 1 = n")
    case True
    then have "even i" by auto
    with True show ?thesis by (simp add: bit_0)
  next
    case False
    note b = peak_below [OF 1(2) False]
    have "2 ^ peak_level (n div 2) (i div 2) \<le> n div 2 \<and>
        bit (n div 2) (peak_level (n div 2) (i div 2)) \<and>
        even (i div 2 div 2 ^ peak_level (n div 2) (i div 2))"
      using 1(1) [OF _ b(4)] 1(2) False by auto
    moreover from this have "2 * 2 ^ peak_level (n div 2) (i div 2) \<le> n" by linarith
    ultimately show ?thesis using b(1) by (simp add: bit_Suc div_mult2_eq)
  qed
qed

lemma peak_level_le:
  assumes "i < n" and "n \<le> m"
  shows "peak_level n i \<le> ceillog2 m"
proof -
  have "(2::nat) ^ peak_level n i \<le> 2 ^ ceillog2 m"
    using peak_level_facts [OF assms(1)] assms(2) le_two_power_ceillog2 [of m] by linarith
  then show ?thesis by (rule power_le_imp_le_exp [rotated]) simp
qed

definition target_state :: "('h \<Rightarrow> 'h \<Rightarrow> 'h) \<Rightarrow> 'h list \<Rightarrow> nat \<Rightarrow> 'h list \<times> nat option \<times> nat" where
  "target_state hp xs i =
    (if i < length xs
     then (peak_sibs hp xs i, Some (peak_level (length xs) i), i div 2 ^ peak_level (length xs) i)
     else ([], None, i))"

lemma other_loop_None:
  "other_loop platform capacity items k h pr None position =
    Some (fold (hash_pair platform) items h, pr, None, position)"
  by (induction items arbitrary: k h) simp_all

lemma proof_loop_step:
  assumes "represents (hash_pair platform) st xs" and "length st = ceillog2 (unat max_n) + 1"
    and "length xs < unat max_n" and "target_state (hash_pair platform) xs i = (pr, lvl, pos)"
    and "target_state (hash_pair platform) (xs @ [h]) i = (pr', lvl', pos')"
  shows "proof_loop platform max_n (ceillog2 (unat max_n)) i (h # leaves) (length xs) st
      (of_nat (length xs)) pr lvl pos =
    proof_loop platform max_n (ceillog2 (unat max_n)) i leaves (length (xs @ [h]))
      (push (hash_pair platform) st (length xs) h) (of_nat (length (xs @ [h]))) pr' lvl' pos'"
proof -
  let ?c = "ceillog2 (unat max_n)"
  have n: "unat (of_nat (length xs) :: u64) = length xs"
    using assms(3) unat_less_u64 [of max_n] by (intro unat_of_nat_less) simp
  have lt: "\<not> max_n \<le> of_nat (length xs)" using assms(3) by (simp add: word_le_nat_alt n)
  have ones: "nat_ones (length xs) < length st" using levels_enough [OF assms(3)] assms(2) by simp
  have room: "peak_level (length xs + 1) i \<le> ?c" if "i < length xs + 1"
    using that assms(3) by (intro peak_level_le) simp_all
  consider "i < length xs" | "i = length xs" | "length xs < i" by linarith
  then show ?thesis
  proof cases
    case 1
    with other_loop_target [OF assms(1) ones 1, of "[]" ?c 0 h] assms(4,5) room lt ones show ?thesis
      by (simp add: target_state_def trailing_ones_unat n push_eq add.commute)
  next
    case 2
    then have "pr = []" "lvl = None" "pos = length xs"
      "pr' = peak_sibs (hash_pair platform) (xs @ [h]) (length xs)"
      "lvl' = Some (nat_ones (length xs))" "pos' = length xs div 2 ^ nat_ones (length xs)"
      using assms(4,5) peak_level_new [of "length xs"] by (simp_all add: target_state_def)
    with 2 target_loop_new [OF assms(1) ones, of "[]" ?c h] room lt ones
      peak_level_new [of "length xs"]
    show ?thesis by (simp add: trailing_ones_unat n push_eq Let_def add.commute)
  next
    case 3
    with assms(4,5) lt ones show ?thesis
      by (simp add: target_state_def trailing_ones_unat n push_eq other_loop_None add.commute)
  qed
qed

lemma proof_loop_fits:
  "represents (hash_pair platform) st xs \<Longrightarrow> length st = ceillog2 (unat max_n) + 1 \<Longrightarrow>
    length xs + length leaves \<le> unat max_n \<Longrightarrow>
    target_state (hash_pair platform) xs i = (pr, lvl, pos) \<Longrightarrow>
    target_state (hash_pair platform) (xs @ leaves) i = (pr', lvl', pos') \<Longrightarrow>
    \<exists>st'. proof_loop platform max_n (ceillog2 (unat max_n)) i leaves (length xs) st
        (of_nat (length xs)) pr lvl pos =
        Some (Some (st', of_nat (length (xs @ leaves)), pr', lvl', pos')) \<and>
      represents (hash_pair platform) st' (xs @ leaves) \<and> length st' = length st"
proof (induction leaves arbitrary: st xs pr lvl pos)
  case (Cons h leaves)
  then have lt: "length xs < unat max_n" by simp
  obtain pr1 lvl1 pos1 where
    mid: "target_state (hash_pair platform) (xs @ [h]) i = (pr1, lvl1, pos1)"
    by (metis prod_cases3)
  note step = proof_loop_step [OF Cons.prems(1,2) lt Cons.prems(4) mid]
  note rep = root_loop_step(2) [OF Cons.prems(1,2) lt, of h]
  show ?case
    using Cons.IH [OF rep _ _ mid] Cons.prems(2,3,5) unfolding step by simp
qed simp

lemma proof_loop_exceeds:
  "represents (hash_pair platform) st xs \<Longrightarrow> length st = ceillog2 (unat max_n) + 1 \<Longrightarrow>
    length xs \<le> unat max_n \<Longrightarrow> unat max_n < length xs + length leaves \<Longrightarrow>
    target_state (hash_pair platform) xs i = (pr, lvl, pos) \<Longrightarrow>
    proof_loop platform max_n (ceillog2 (unat max_n)) i leaves (length xs) st
      (of_nat (length xs)) pr lvl pos = Some None"
proof (induction leaves arbitrary: st xs pr lvl pos)
  case (Cons h leaves)
  show ?case
  proof (cases "length xs < unat max_n")
    case True
    obtain pr1 lvl1 pos1 where
      mid: "target_state (hash_pair platform) (xs @ [h]) i = (pr1, lvl1, pos1)"
      by (metis prod_cases3)
    note step = proof_loop_step [OF Cons.prems(1,2) True Cons.prems(5) mid]
    note rep = root_loop_step(2) [OF Cons.prems(1,2) True, of h]
    show ?thesis
      using Cons.IH [OF rep _ _ _ mid] Cons.prems(2,4) True unfolding step by simp
  next
    case False
    then have "max_n \<le> of_nat (length xs)"
      using Cons.prems(3) unat_less_u64 [of max_n] by (simp add: word_le_nat_alt unat_of_nat_less)
    then show ?thesis by simp
  qed
qed simp

subsection \<open>Merging the peaks\<close>

text \<open>
  The level-by-level form of the last loop: \<open>acc\<close> is the root of the lower peaks, and \<open>lvl\<close> the
  distance to the peak of the target, or \<open>None\<close> once the target is below \<open>acc\<close>.
\<close>

primrec merge_levels_proof ::
  "('h \<Rightarrow> 'h \<Rightarrow> 'h) \<Rightarrow> 'h list \<Rightarrow> nat \<Rightarrow> 'h option \<Rightarrow> nat option \<Rightarrow> 'h list \<Rightarrow> 'h option \<times> 'h list"
where
  "merge_levels_proof hp [] n acc lvl pr = (acc, pr)"
| "merge_levels_proof hp (s # st) n acc lvl pr =
    merge_levels_proof hp st (n div 2)
      (if odd n then Some (case acc of None \<Rightarrow> s | Some a \<Rightarrow> hp s a) else acc)
      (if odd n \<and> lvl = Some 0 then None else map_option (\<lambda>l. l - 1) lvl)
      (if odd n
       then pr @ (case lvl of
                    None \<Rightarrow> (if acc = None then [] else [s])
                  | Some l \<Rightarrow> if l = 0 then (case acc of None \<Rightarrow> [] | Some a \<Rightarrow> [a]) else [])
       else pr)"

abbreviation acc_list :: "'h option \<Rightarrow> 'h list" where
  "acc_list acc \<equiv> (case acc of None \<Rightarrow> [] | Some a \<Rightarrow> [a])"

lemma pair_up_acc:
  "(odd (length xs) \<Longrightarrow> s = last xs) \<Longrightarrow>
    pair_up hp (xs @ acc_list acc) = full_pairs hp xs @ acc_list
      (if odd (length xs) then Some (case acc of None \<Rightarrow> s | Some a \<Rightarrow> hp s a) else acc)"
  by (cases acc) (auto simp: pair_up_eq full_pairs_snoc)

lemma level_root_pair_up': "xs \<noteq> [] \<Longrightarrow> level_root hp (pair_up hp xs) = level_root hp xs"
  by (cases "1 < length xs") (simp add: level_root_pair_up, cases xs, auto)

lemma merge_levels_proof_acc:
  "represents hp st xs \<Longrightarrow>
    merge_levels_proof hp st (length xs) (Some a) None pr =
    (Some (level_root hp (xs @ [a])), pr @ level_path hp (xs @ [a]) (length xs))"
proof (induction st arbitrary: xs a pr)
  case Nil
  then show ?case by (simp add: level_path_steps)
next
  case (Cons s st)
  define a' where "a' = (if odd (length xs) then hp s a else a)"
  have up: "pair_up hp (xs @ [a]) = full_pairs hp xs @ [a']"
    using pair_up_acc [of xs s hp "Some a"] Cons.prems by (auto simp: a'_def)
  have IH: "merge_levels_proof hp st (length xs div 2) (Some a') None pr' =
      (Some (level_root hp (xs @ [a])),
       pr' @ level_path hp (pair_up hp (xs @ [a])) (length xs div 2))" for pr'
    using Cons.IH [of "full_pairs hp xs" a' pr'] Cons.prems up
      level_root_pair_up' [of "xs @ [a]" hp]
    by simp
  show ?case
  proof (cases "xs = []")
    case True
    with IH [of pr] show ?thesis by (simp add: a'_def level_path_steps)
  next
    case False
    then have big: "1 < length (xs @ [a])" by (cases xs) simp_all
    show ?thesis
    proof (cases "odd (length xs)")
      case True
      with Cons.prems False have "s = (xs @ [a]) ! (length xs - 1)"
        by (simp add: nth_append last_conv_nth)
      with True IH [of "pr @ [s]"] big show ?thesis by (simp add: a'_def level_path_steps(2))
    next
      case False
      with IH [of pr] big show ?thesis by (simp add: a'_def level_path_steps(4))
    qed
  qed
qed

lemma merge_levels_proof_target:
  "represents hp st xs \<Longrightarrow> i < length xs \<Longrightarrow>
    merge_levels_proof hp st (length xs) acc (Some (peak_level (length xs) i))
      (pr @ peak_sibs hp xs i) =
    (Some (level_root hp (xs @ acc_list acc)), pr @ level_path hp (xs @ acc_list acc) i)"
proof (induction st arbitrary: xs i acc pr)
  case (Cons s st)
  define acc' where
    "acc' = (if odd (length xs) then Some (case acc of None \<Rightarrow> s | Some a \<Rightarrow> hp s a) else acc)"
  let ?all = "xs @ acc_list acc"
  have up: "pair_up hp ?all = full_pairs hp xs @ acc_list acc'"
    unfolding acc'_def using Cons.prems(1) by (intro pair_up_acc) simp
  have ne: "xs \<noteq> []" using Cons.prems(2) by auto
  have root: "level_root hp (full_pairs hp xs @ acc_list acc') = level_root hp ?all"
    using level_root_pair_up' [of ?all hp] up ne by simp
  have rep: "represents hp st (full_pairs hp xs)" using Cons.prems(1) by simp
  show ?case
  proof (cases "odd (length xs) \<and> i + 1 = length xs")
    case True
    define a' where "a' = (case acc of None \<Rightarrow> s | Some a \<Rightarrow> hp s a)"
    have a': "acc' = Some a'" using True by (simp add: acc'_def a'_def)
    have i: "even i" "i div 2 = length (full_pairs hp xs)" using True by (auto elim!: oddE)
    have path: "level_path hp ?all i =
        acc_list acc @ level_path hp (full_pairs hp xs @ [a']) (i div 2)"
    proof (cases acc)
      case None
      show ?thesis
      proof (cases "length xs = 1")
        case True
        with None a' show ?thesis by (cases xs) (auto simp: level_path_steps)
      next
        case False
        with None True i up a' show ?thesis by (simp add: level_path_steps(4))
      qed
    next
      case (Some a)
      have "(xs @ [a]) ! (i + 1) = a" using True by (simp add: nth_append)
      moreover have "i + 1 < length (xs @ [a])" "1 < length (xs @ [a])" using True ne by simp_all
      ultimately show ?thesis
        using level_path_steps(3) [of "xs @ [a]" i hp] Some i(1) up a' by simp
    qed
    show ?thesis
      using True merge_levels_proof_acc [OF rep, of a' "pr @ acc_list acc"] i root path a'
      by (simp add: a'_def split: option.splits)
  next
    case False
    note b = peak_below [OF Cons.prems(2) False]
    define x where "x = (if odd i then xs ! (i - 1) else xs ! (i + 1))"
    have sibs: "peak_sibs hp xs i = x # peak_sibs hp (full_pairs hp xs) (i div 2)"
      using b(2) [OF refl, of hp] by (simp only: x_def)
    have big: "1 < length ?all" using b(3,4) Cons.prems(2) by auto
    have path: "level_path hp ?all i = x # level_path hp (pair_up hp ?all) (i div 2)"
    proof (cases "odd i")
      case True
      moreover have "i - 1 < length xs" using Cons.prems(2) by simp
      ultimately show ?thesis using big by (simp add: level_path_steps(2) x_def nth_append)
    next
      case False
      with big b(3) show ?thesis by (simp add: level_path_steps(3) x_def nth_append)
    qed
    have "merge_levels_proof hp st (length (full_pairs hp xs)) acc'
        (Some (peak_level (length (full_pairs hp xs)) (i div 2)))
        ((pr @ [x]) @ peak_sibs hp (full_pairs hp xs) (i div 2)) =
      (Some (level_root hp ?all), pr @ level_path hp ?all i)"
      using Cons.IH [OF rep, of "i div 2" acc' "pr @ [x]"] b(4) root path up by simp
    then show ?thesis
      using b(1) sibs by (cases "odd (length xs)") (simp_all add: acc'_def)
  qed
qed simp

text \<open>From the level-by-level form to the loop over the set bits.\<close>

lemma bit_clear_lowest:
  "0 < b \<Longrightarrow> bit (b - 2 ^ nat_zeros b) j \<longleftrightarrow> bit b j \<and> j \<noteq> nat_zeros b" for b :: nat
proof (induction b arbitrary: j rule: nat_zeros.induct)
  case (1 b)
  show ?case
  proof (cases "odd b")
    case True
    then obtain c where "b = 2 * c + 1" by (auto elim: oddE)
    then show ?thesis by (cases j) (simp_all add: bit_0 bit_Suc)
  next
    case False
    then obtain c where c: "b = 2 * c" by (auto elim: evenE)
    with 1(2) have "0 < c" by simp
    with 1(1) [of "j - 1"] False c 1(2) show ?thesis
      by (cases j) (simp_all add: nat_zeros_even bit_0 bit_Suc flip: diff_mult_distrib2)
  qed
qed

lemma nat_zeros_least: "bit b j \<Longrightarrow> nat_zeros b \<le> j" for b :: nat
proof (induction b arbitrary: j rule: nat_zeros.induct)
  case (1 b)
  show ?case
  proof (cases "odd b")
    case False
    from 1(2) have "0 < b" by (cases "b = 0") simp_all
    with False 1 show ?thesis by (cases j) (auto simp: nat_zeros_even bit_0 bit_Suc)
  qed simp
qed

lemma merge_levels_proof_0:
  "merge_levels_proof hp st 0 acc lvl pr = (acc, pr)"
  by (induction st arbitrary: lvl) simp_all

lemma merge_levels_proof_prefix:
  "length pr \<le> length (snd (merge_levels_proof hp st b acc lvl pr))"
proof (induction st arbitrary: b acc lvl pr)
  case (Cons s st)
  show ?case
    unfolding merge_levels_proof.simps by (rule order_trans [OF _ Cons]) simp
qed simp

lemma merge_levels_proof_even:
  "even b \<Longrightarrow> merge_levels_proof hp (st[0 := x]) b acc lvl pr = merge_levels_proof hp st b acc lvl pr"
  by (cases st) simp_all

lemma merge_levels_proof_lowest_acc:
  "0 < b \<Longrightarrow> nat_zeros b < length st \<Longrightarrow>
    merge_levels_proof hp st b (Some a) None pr =
    merge_levels_proof hp st (b - 2 ^ nat_zeros b) (Some (hp (st ! nat_zeros b) a)) None
      (pr @ [st ! nat_zeros b])"
proof (induction st arbitrary: b)
  case (Cons s st)
  show ?case
  proof (cases "odd b")
    case True
    then have "(b - 1) div 2 = b div 2" "even (b - 1)" by (auto elim!: oddE)
    with True show ?thesis by simp
  next
    case False
    then obtain c where c: "b = 2 * c" by (auto elim: evenE)
    with Cons.prems have "0 < c" "nat_zeros b = Suc (nat_zeros c)" by (simp_all add: nat_zeros_even)
    moreover have "b - 2 ^ Suc (nat_zeros c) = 2 * (c - 2 ^ nat_zeros c)" using c by simp
    ultimately show ?thesis using Cons c by simp
  qed
qed simp

lemma merge_levels_proof_lowest_target:
  "bit b L \<Longrightarrow> nat_zeros b < length st \<Longrightarrow>
    merge_levels_proof hp st b acc (Some L) pr =
    merge_levels_proof hp st (b - 2 ^ nat_zeros b)
      (Some (case acc of None \<Rightarrow> st ! nat_zeros b | Some a \<Rightarrow> hp (st ! nat_zeros b) a))
      (if nat_zeros b = L then None else Some L)
      (if nat_zeros b = L then pr @ acc_list acc else pr)"
proof (induction st arbitrary: b L)
  case (Cons s st)
  show ?case
  proof (cases "odd b")
    case True
    then have "(b - 1) div 2 = b div 2" "even (b - 1)" "nat_zeros b = 0" by (auto elim!: oddE)
    with True show ?thesis by (cases acc; cases L) simp_all
  next
    case False
    then obtain c where c: "b = 2 * c" by (auto elim: evenE)
    with Cons.prems(1) obtain M where M: "L = Suc M" "bit c M"
      by (cases L) (simp_all add: bit_0 bit_Suc)
    then have "0 < c" by (cases "c = 0") simp_all
    with c have z: "nat_zeros b = Suc (nat_zeros c)" by (simp add: nat_zeros_even)
    have "b - 2 ^ Suc (nat_zeros c) = 2 * (c - 2 ^ nat_zeros c)" using c by simp
    with z c M Cons.IH [of c M] Cons.prems(2) show ?thesis by (cases acc) simp_all
  qed
qed simp

text \<open>
  The loop never takes its branch for an odd position: the position of a peak is even, and it
  changes only together with \<open>merged_peaks\<close>.
\<close>

lemma merge_peaks_proof_eq:
  fixes bits :: u64
  assumes "even (unat bits)" and "unat bits < 2 ^ length st" and "st \<noteq> []"
    and "lvl = Some L \<and> bit (unat bits) L \<and> (merged \<or> even position) \<or>
      lvl = None \<and> (\<forall>j\<le>L. \<not> bit (unat bits) j)"
    and "merge_levels_proof (hash_pair platform) st (unat bits) (Some (st ! 0)) lvl pr = (Some r, p)"
    and "length p \<le> capacity"
  shows "merge_peaks_proof platform capacity L st bits pr position merged = Some (r, p)"
  using assms
proof (induction "unat bits" arbitrary: bits st lvl pr position merged rule: less_induct)
  case less
  let ?hp = "hash_pair platform"
  show ?case
  proof (cases "bits = 0")
    case True
    with less.prems show ?thesis
      by (subst merge_peaks_proof.simps)
        (simp add: trailing_zeros_unat get_unchecked_def merge_levels_proof_0)
  next
    case False
    let ?l = "nat_zeros (unat bits)"
    let ?st = "st[0 := ?hp (st ! ?l) (st ! 0)]"
    have b: "0 < unat bits" using False by (simp add: unat_gt_0)
    have l: "?l < length st" "?l < 64" "trailing_zeros bits = ?l"
      using nat_zeros_less [OF b less.prems(2)] nat_zeros_bound [OF False] False
      by (simp_all add: trailing_zeros_unat)
    have clear: "unat (clear_bit ?l bits) = unat bits - 2 ^ ?l" by (rule unat_clear_bit [OF False])
    have step: "merge_peaks_proof platform capacity L st bits pr position merged =
        merge_peaks_proof platform capacity L ?st (clear_bit ?l bits) pr' (position div 2) merged'"
      if "(if ?l > L \<or> (?l = L \<and> odd position \<and> \<not> merged)
           then map_option (\<lambda>pr. (pr, False)) (proof_write capacity pr (st ! ?l))
           else if ?l = L then map_option (\<lambda>pr. (pr, False)) (proof_write capacity pr (st ! 0))
           else Some (pr, True)) = Some (pr', merged')" for pr' merged'
      using l that by (subst merge_peaks_proof.simps) (simp add: get_unchecked_def Let_def)
    have IH: "merge_peaks_proof platform capacity L ?st (clear_bit ?l bits) pr' pos' merged' = Some (r, p)"
      if "lvl' = Some L \<and> bit (unat bits - 2 ^ ?l) L \<and> (merged' \<or> even pos') \<or>
          lvl' = None \<and> (\<forall>j\<le>L. \<not> bit (unat bits - 2 ^ ?l) j)"
        and "merge_levels_proof ?hp st (unat bits - 2 ^ ?l) (Some (?hp (st ! ?l) (st ! 0))) lvl' pr' =
          (Some r, p)"
      for lvl' pr' pos' merged'
      using that less.prems(2,3,6) b even_clear_lowest [of "unat bits"]
      by (intro less.hyps [of _ _ lvl']) (auto simp: clear merge_levels_proof_even)
    note clear_iff = bit_clear_lowest [OF b]
    from less.prems(4) show ?thesis
    proof
      assume "lvl = Some L \<and> bit (unat bits) L \<and> (merged \<or> even position)"
      then have lvl: "lvl = Some L" and bit: "bit (unat bits) L" and even: "merged \<or> even position"
        by simp_all
      note low = merge_levels_proof_lowest_target [OF bit l(1), of ?hp "Some (st ! 0)" pr]
      show ?thesis
      proof (cases "?l = L")
        case True
        have run: "merge_levels_proof ?hp st (unat bits - 2 ^ ?l) (Some (?hp (st ! ?l) (st ! 0)))
            None (pr @ [st ! 0]) = (Some r, p)"
          using low less.prems(5) lvl True by simp
        then have "length (pr @ [st ! 0]) \<le> length p"
          using merge_levels_proof_prefix [of "pr @ [st ! 0]"] by (metis snd_conv)
        with less.prems(6) have w: "proof_write capacity pr (st ! 0) = Some (pr @ [st ! 0])" by simp
        have "\<forall>j\<le>L. \<not> bit (unat bits - 2 ^ ?l) j"
          using True clear_iff nat_zeros_least le_antisym by metis
        with IH [where lvl' = None and pr' = "pr @ [st ! 0]"] run step [where pr' = "pr @ [st ! 0]" and merged' = False] w True even
        show ?thesis by auto
      next
        case False
        with nat_zeros_least [OF bit] have "?l < L" by simp
        with IH [where lvl' = "Some L" and pr' = pr and merged' = True] low less.prems(5) lvl step [where pr' = pr and merged' = True] clear_iff bit False
        show ?thesis by simp
      qed
    next
      assume "lvl = None \<and> (\<forall>j\<le>L. \<not> bit (unat bits) j)"
      then have lvl: "lvl = None" and high: "\<forall>j\<le>L. \<not> bit (unat bits) j" by simp_all
      then have "L < ?l" using bit_nat_zeros [OF b] not_less by blast
      have run: "merge_levels_proof ?hp st (unat bits - 2 ^ ?l) (Some (?hp (st ! ?l) (st ! 0)))
          None (pr @ [st ! ?l]) = (Some r, p)"
        using merge_levels_proof_lowest_acc [OF b l(1), of ?hp "st ! 0" pr] less.prems(5) lvl by simp
      then have "length (pr @ [st ! ?l]) \<le> length p"
        using merge_levels_proof_prefix [of "pr @ [st ! ?l]"] by (metis snd_conv)
      with less.prems(6) have w: "proof_write capacity pr (st ! ?l) = Some (pr @ [st ! ?l])" by simp
      with IH [where lvl' = None and pr' = "pr @ [st ! ?l]"] run step [where pr' = "pr @ [st ! ?l]" and merged' = False] \<open>L < ?l\<close> high clear_iff
      show ?thesis by simp
    qed
  qed
qed

lemma length_level_path: "i < length xs \<Longrightarrow> length (level_path hp xs i) \<le> ceillog2 (length xs)"
proof (induction "length xs" arbitrary: xs i rule: less_induct)
  case less
  show ?case
  proof (cases "length xs \<le> 1")
    case True
    then show ?thesis by (simp add: level_path_steps)
  next
    case False
    then have "length (level_path hp (pair_up hp xs) (i div 2)) \<le> ceillog2 ((length xs + 1) div 2)"
      using less.hyps [of "pair_up hp xs" "i div 2"] less.prems
        pair_up_shrinks(1) [of xs hp] pair_up_shrinks(2) [of i xs hp]
      by simp
    moreover have "length (level_path hp xs i) \<le> Suc (length (level_path hp (pair_up hp xs) (i div 2)))"
      using False by (subst level_path.simps) simp
    ultimately show ?thesis using False ceillog2_rec [of "length xs"] by simp
  qed
qed

lemma peaks_proof:
  fixes n :: u64
  assumes "represents (hash_pair platform) st xs" and "i < length xs"
    and "length xs < 2 ^ length st" and n: "unat n = length xs" and "ceillog2 (length xs) \<le> capacity"
  shows "merge_peaks_proof platform capacity (peak_level (length xs) i)
      (st[0 := st ! trailing_zeros n]) (clear_bit (trailing_zeros n) n)
      (peak_sibs (hash_pair platform) xs i) (i div 2 ^ peak_level (length xs) i) False =
    Some (tree_root (hash_pair platform) xs, level_path (hash_pair platform) xs i)"
proof -
  let ?hp = "hash_pair platform"
  let ?l = "nat_zeros (length xs)" and ?L = "peak_level (length xs) i"
  let ?st = "st[0 := st ! ?l]"
  have ne: "xs \<noteq> []" and pos: "0 < length xs" using assms(2) by auto
  note root = peaks_root [OF assms(1) ne assms(3) n]
  then have tz: "trailing_zeros n = ?l" by (simp add: trailing_zeros_unat n)
  with root have l: "?l < length st" by simp
  have clear: "unat (clear_bit ?l n) = length xs - 2 ^ ?l"
    using unat_clear_bit [OF root(2)] by (simp add: n)
  have first: "?st ! 0 = st ! ?l" using l by (cases st) simp_all
  note facts = peak_level_facts [OF assms(2)]
  define lvl where "lvl = (if ?l = ?L then None else Some ?L)"
  have run: "merge_levels_proof ?hp st (length xs - 2 ^ ?l) (Some (st ! ?l)) lvl (peak_sibs ?hp xs i) =
      (Some (tree_root ?hp xs), level_path ?hp xs i)"
    using merge_levels_proof_target [OF assms(1,2), of None "[]"] facts ne
      merge_levels_proof_lowest_target [of "length xs" ?L st ?hp None "peak_sibs ?hp xs i"] l
    by (simp add: lvl_def level_root_eq_tree_root split: if_splits)
  have "\<forall>j\<le>?L. \<not> bit (length xs - 2 ^ ?l) j" if "?l = ?L"
    using that bit_clear_lowest [OF pos] nat_zeros_least le_antisym by metis
  then have target: "lvl = Some ?L \<and> bit (length xs - 2 ^ ?l) ?L \<and> (False \<or> even (i div 2 ^ ?L)) \<or>
      lvl = None \<and> (\<forall>j\<le>?L. \<not> bit (length xs - 2 ^ ?l) j)"
    using facts bit_clear_lowest [OF pos] by (auto simp: lvl_def)
  have "length (level_path ?hp xs i) \<le> capacity"
    using length_level_path [OF assms(2), of ?hp] assms(5) by linarith
  moreover have "merge_levels_proof ?hp ?st (unat (clear_bit ?l n)) (Some (?st ! 0)) lvl
      (peak_sibs ?hp xs i) = (Some (tree_root ?hp xs), level_path ?hp xs i)"
    using run even_clear_lowest [of "length xs"] by (simp only: clear first merge_levels_proof_even)
  ultimately show ?thesis
    unfolding tz using target l even_clear_lowest [of "length xs"] assms(3)
    by (intro merge_peaks_proof_eq [of _ _ lvl]) (simp_all only: clear, auto)
qed

lemma compute_root_and_proof_spec:
  assumes "unat max_n \<le> 2 ^ 63"
  shows "compute_root_and_proof platform max_n leaves i =
    Some (if unat max_n < length leaves \<or> length leaves \<le> i then None
          else Some (tree_root (hash_pair platform) leaves, level_path (hash_pair platform) leaves i))"
proof -
  let ?hp = "hash_pair platform"
  let ?c = "ceillog2 (unat max_n)"
  let ?st = "replicate (?c + 1) (replicate 32 0)"
  have start: "target_state ?hp [] i = ([], None, i)" by (simp add: target_state_def)
  note defs = compute_root_and_proof_def compute_root_and_proof_inner_def
    empty_stack_eq [OF assms] proof_capacity_eq [OF assms]
  show ?thesis
  proof (cases "length leaves \<le> unat max_n")
    case False
    with proof_loop_exceeds [OF represents_Nil _ _ _ start, of ?st max_n leaves] show ?thesis
      by (simp add: defs)
  next
    case True
    obtain pr lvl pos where final: "target_state ?hp leaves i = (pr, lvl, pos)" by (metis prod_cases3)
    with proof_loop_fits [OF represents_Nil _ _ start, of ?st max_n leaves pr lvl pos] True
    obtain st where st: "proof_loop platform max_n ?c i leaves 0 ?st 0 [] None i =
        Some (Some (st, of_nat (length leaves), pr, lvl, pos))"
      "represents ?hp st leaves" "length st = ?c + 1"
      by auto
    have n: "unat (of_nat (length leaves) :: u64) = length leaves"
      using True unat_less_u64 [of max_n] by (intro unat_of_nat_less) simp
    show ?thesis
    proof (cases "i < length leaves")
      case False
      with st(1) n show ?thesis by (simp add: defs)
    next
      case i: True
      have "length leaves \<le> 2 ^ ?c" using True le_two_power_ceillog2 [of "unat max_n"] by linarith
      also have "(2::nat) ^ ?c < 2 ^ length st" using st(3) by simp
      finally have lt: "length leaves < 2 ^ length st" .
      have "ceillog2 (length leaves) \<le> ?c" using True by (rule ceillog2_mono)
      moreover have ne: "leaves \<noteq> []" using i by auto
      ultimately show ?thesis
        using peaks_proof [OF st(2) i lt n] peaks_root(1) [OF st(2) ne lt n] i final st(1) n True
        by (auto simp: defs target_state_def get_unchecked_def Let_def)
    qed
  qed
qed

section \<open>Properties\<close>

lemma verify_accepts_path:
  assumes "length leaves < 2 ^ 64" and "i < length leaves"
  shows "unbalanced_verify platform (tree_root (hash_pair platform) leaves)
    (level_path (hash_pair platform) leaves i) (of_nat i) (leaves ! i) (of_nat (length leaves))"
proof -
  have u: "unat (of_nat (length leaves) :: u64) = length leaves" "unat (of_nat i :: u64) = i"
    using assms by (auto intro!: unat_of_nat_less)
  have "leaves \<noteq> []" using assms(2) by auto
  with verify_loop_path [OF assms(2), of platform "[]"] assms(2) u show ?thesis
    by (simp add: unbalanced_verify_def word_le_nat_alt level_root_eq_tree_root)
qed

text \<open>
  C26: The root of the unbalanced tree is the root of the reference tree, which splits the leaves at
  the largest power of two below their number; nothing is returned for no leaves and for more
  than \<open>MAX_N\<close>. No index is out of range and no uninitialised level is read, for every \<open>MAX_N\<close>
  the stack can be allocated for.
\<close>

theorem unbalanced_root_correct:
  assumes "unat max_n \<le> 2 ^ 63"
  shows "compute_root_only platform max_n leaves =
    Some (if leaves = [] \<or> unat max_n < length leaves then None
          else Some (tree_root (hash_pair platform) leaves))"
  using assms by (rule compute_root_only_spec)

theorem unbalanced_root_correct_witness:
  "compute_root_only portable_platform 3 [replicate 32 1, replicate 32 2, replicate 32 3] =
     Some (Some (tree_root (hash_pair portable_platform)
       [replicate 32 1, replicate 32 2, replicate 32 3])) \<and>
   compute_root_only portable_platform 2 [replicate 32 1, replicate 32 2, replicate 32 3] = Some None"
  using unbalanced_root_correct
    [of 3 portable_platform "[replicate 32 1, replicate 32 2, replicate 32 3]"]
    unbalanced_root_correct
    [of 2 portable_platform "[replicate 32 1, replicate 32 2, replicate 32 3]"]
  by simp

text \<open>
  C27: Every leaf can be proved: for every index below the number of leaves, the root computed along
  with the proof is the root, the proof fits its buffer and has at most as many hashes as
  the tree has levels, and the verification accepts it.
\<close>

theorem unbalanced_proof_verifies:
  assumes "unat max_n \<le> 2 ^ 63" and "length leaves \<le> unat max_n" and "i < length leaves"
  shows "\<exists>rt prf. compute_root_and_proof platform max_n leaves i = Some (Some (rt, prf)) \<and>
    compute_root_only platform max_n leaves = Some (Some rt) \<and>
    length prf \<le> ceillog2 (length leaves) \<and>
    unbalanced_verify platform rt prf (of_nat i) (leaves ! i) (of_nat (length leaves))"
proof -
  have "leaves \<noteq> []" "length leaves < 2 ^ 64" using assms(2,3) unat_less_u64 [of max_n] by auto
  with compute_root_and_proof_spec [OF assms(1), of platform leaves i]
    compute_root_only_spec [OF assms(1), of platform leaves]
    verify_accepts_path [of leaves i platform] length_level_path [OF assms(3)] assms(2,3)
  show ?thesis by auto
qed

theorem unbalanced_proof_verifies_witness:
  "\<exists>rt prf. compute_root_and_proof portable_platform 7
      [replicate 32 1, replicate 32 2, replicate 32 3, replicate 32 4, replicate 32 5] 2 =
      Some (Some (rt, prf)) \<and>
    compute_root_only portable_platform 7
      [replicate 32 1, replicate 32 2, replicate 32 3, replicate 32 4, replicate 32 5] =
      Some (Some rt) \<and>
    length prf \<le> ceillog2 (length
      [replicate 32 (1 :: u8), replicate 32 2, replicate 32 3, replicate 32 4, replicate 32 5]) \<and>
    unbalanced_verify portable_platform rt prf (of_nat 2)
      ([replicate 32 1, replicate 32 2, replicate 32 3, replicate 32 4, replicate 32 5] ! 2)
      (of_nat (length
        [replicate 32 (1 :: u8), replicate 32 2, replicate 32 3, replicate 32 4, replicate 32 5]))"
  by (rule unbalanced_proof_verifies) simp_all

text \<open>
  C28: A proof the verification accepts for the root of some leaves is the proof of the leaf at that
  index, sibling by sibling, unless one of the blocks hashed by the verification collides with a
  different block hashed for the tree: no other leaf, no other index, no longer or shorter proof is
  accepted without a hash collision at hand.
\<close>

theorem unbalanced_verify_sound:
  assumes "blake3_platform platform" and "hashes leaves" and "hashes prf" and "length leaf = 32"
    and "length leaves = unat num_leaves"
    and "unbalanced_verify platform (tree_root (hash_pair platform) leaves) prf leaf_index leaf num_leaves"
  shows "leaf_index < num_leaves \<and> leaf = leaves ! unat leaf_index \<and>
      prf = level_path (hash_pair platform) leaves (unat leaf_index) \<or>
    collide platform (verify_blocks platform prf leaf (unat leaf_index) (unat num_leaves))
      (level_blocks (hash_pair platform) leaves)"
proof -
  have i: "leaf_index < num_leaves" and run: "verify_loop platform prf leaf (unat leaf_index)
      (length leaves) = Some (tree_root (hash_pair platform) leaves, [])"
    using assms(5,6) by (auto simp: unbalanced_verify_def split: if_splits option.splits)
  then have "unat leaf_index < length leaves" using assms(5) by (simp add: word_less_nat_alt)
  moreover from this have "leaves \<noteq> []" by auto
  ultimately show ?thesis
    using blake3_platform.verify_loop_unique [OF assms(1) _ assms(2,3,4), of "unat leaf_index" "[]"]
      run i assms(5)
    by (auto simp: level_root_eq_tree_root)
qed

theorem unbalanced_verify_sound_witness:
  "(1 :: u64) < 2 \<and> replicate 32 7 = [replicate 32 5, replicate 32 7 :: u8 list] ! unat (1 :: u64) \<and>
      [replicate 32 5] =
        level_path (hash_pair portable_platform) [replicate 32 5, replicate 32 7] (unat (1 :: u64)) \<or>
    collide portable_platform
      (verify_blocks portable_platform [replicate 32 5] (replicate 32 7)
        (unat (1 :: u64)) (unat (2 :: u64)))
      (level_blocks (hash_pair portable_platform) [replicate 32 5, replicate 32 7])"
proof (rule unbalanced_verify_sound [OF portable.blake3_platform_axioms])
  have "tree_root (hash_pair portable_platform) [replicate 32 5, replicate 32 7] =
      hash_pair portable_platform (replicate 32 5) (replicate 32 7)"
    by (simp add: level_root.simps flip: level_root_eq_tree_root)
  then show "unbalanced_verify portable_platform
      (tree_root (hash_pair portable_platform) [replicate 32 5, replicate 32 7])
      [replicate 32 5] 1 (replicate 32 7) 2"
    by (simp add: unbalanced_verify_def verify_loop_steps word_le_nat_alt)
qed simp_all

end
