(* ===== verification/Merkle_Mmr.thy ===== *)
theory Merkle_Mmr
  imports Merkle_Unbalanced
begin

text \<open>
  \<open>MerkleMountainRange\<close> (\<open>ab-merkle-tree/src/mmr.rs\<close>): the incremental tree, its peaks and its
  byte representation.

  The abstraction is the list of leaves added so far (\<open>mmr_holds\<close>, on top of the stack invariant
  of the unbalanced tree). Every operation is shown to act on that list, and the roots and proofs
  to be those of the unbalanced tree. As there, an outer \<open>None\<close> is a panic or an out-of-range
  unchecked access.
\<close>

section \<open>Code\<close>

record MmrPeaks =
  peaks_num_leaves :: u64
  peaks_list :: "hash list"

definition num_peaks :: "MmrPeaks \<Rightarrow> u8" where
  "num_peaks self = of_nat (count_ones (peaks_num_leaves self))"

record MerkleMountainRange =
  mmr_num_leaves :: u64
  mmr_stack :: "hash list"

definition mmr_new :: "u64 \<Rightarrow> MerkleMountainRange option" where
  "mmr_new max_n = do {
    stack \<leftarrow> empty_stack max_n;
    Some \<lparr> mmr_num_leaves = 0, mmr_stack = stack \<rparr>
  }"

text \<open>The loop of \<open>from_peaks\<close>; the inner \<open>None\<close> is its \<open>?\<close>.\<close>

function from_peaks_loop :: "hash list \<Rightarrow> nat \<Rightarrow> hash list \<Rightarrow> u64 \<Rightarrow> hash list option" where
  "from_peaks_loop peaks peaks_offset stack stack_bits =
    (if stack_bits = 0 then Some stack
     else let stack_offset = trailing_zeros stack_bits in
       if stack_offset < length stack \<and> peaks_offset < length peaks
       then from_peaks_loop peaks (peaks_offset + 1) (stack[stack_offset := peaks ! peaks_offset])
              (clear_bit stack_offset stack_bits)
       else None)"
  by pat_completeness auto
termination
proof (relation "measure (\<lambda>(peaks, offset, stack, bits). unat bits)", goal_cases)
  case (2 peaks offset stack bits level)
  then show ?case
    using pow_nat_zeros [of "unat bits"]
    by (simp add: trailing_zeros_unat unat_clear_bit unat_gt_0)
qed simp

declare from_peaks_loop.simps [simp del]

definition mmr_from_peaks :: "u64 \<Rightarrow> MmrPeaks \<Rightarrow> MerkleMountainRange option option" where
  "mmr_from_peaks max_n peaks = do {
    stack \<leftarrow> empty_stack max_n;
    Some (do {
      stack \<leftarrow> from_peaks_loop (peaks_list peaks) 0 stack (peaks_num_leaves peaks);
      Some \<lparr> mmr_num_leaves = peaks_num_leaves peaks, mmr_stack = stack \<rparr>
    })
  }"

definition merkle_mountain_range_bytes_size :: "u64 \<Rightarrow> nat option" where
  "merkle_mountain_range_bytes_size max_n = do {
    l \<leftarrow> ilog2 (unat max_n);
    Some (8 + OUT_LEN * (l + 1))
  }"

text \<open>
  The bytes of the structure (\<open>repr(C)\<close>: the counter, then the stack). \<open>as_bytes\<close> and
  \<open>from_bytes\<close> transmute a reference, which keeps the address and changes the length that may be
  accessed to that of the target type; reading past the end of the source is \<open>None\<close>.
\<close>

definition mmr_repr :: "MerkleMountainRange \<Rightarrow> u8 list" where
  "mmr_repr self = to_le_bytes (mmr_num_leaves self) @ concat (mmr_stack self)"

definition mmr_as_bytes :: "u64 \<Rightarrow> MerkleMountainRange \<Rightarrow> u8 list option" where
  "mmr_as_bytes max_n self = do {
    size \<leftarrow> merkle_mountain_range_bytes_size max_n;
    rust_assert (size \<le> length (mmr_repr self));
    Some (take size (mmr_repr self))
  }"

definition mmr_from_bytes :: "u64 \<Rightarrow> u8 list \<Rightarrow> MerkleMountainRange option" where
  "mmr_from_bytes max_n bytes = do {
    levels \<leftarrow> proof_capacity max_n;
    rust_assert (8 + OUT_LEN * (levels + 1) \<le> length bytes);
    Some \<lparr> mmr_num_leaves = from_le_bytes (take 8 bytes),
           mmr_stack = fst (as_chunks OUT_LEN (take (OUT_LEN * (levels + 1)) (drop 8 bytes))) \<rparr>
  }"

function mmr_root_loop :: "Platform \<Rightarrow> hash list \<Rightarrow> u64 \<Rightarrow> hash \<Rightarrow> hash option" where
  "mmr_root_loop platform stack stack_bits rt =
    (let lowest_active_level = trailing_zeros stack_bits in
     if lowest_active_level = 64 then Some rt
     else case get_unchecked stack lowest_active_level of
       None \<Rightarrow> None
     | Some item \<Rightarrow>
         mmr_root_loop platform stack (clear_bit lowest_active_level stack_bits)
           (hash_pair platform item rt))"
  by pat_completeness auto
termination
proof (relation "measure (\<lambda>(platform, stack, bits, rt). unat bits)", goal_cases)
  case (2 platform stack bits rt level item)
  then have "bits \<noteq> 0" by (auto simp: trailing_zeros_unat)
  with 2 show ?case
    using pow_nat_zeros [of "unat bits"]
    by (simp add: trailing_zeros_unat unat_clear_bit unat_gt_0)
qed simp

declare mmr_root_loop.simps [simp del]

definition mmr_root :: "Platform \<Rightarrow> MerkleMountainRange \<Rightarrow> hash option option" where
  "mmr_root platform self =
    (if mmr_num_leaves self = 0 then Some None
     else do {
       let lowest_active_level = trailing_zeros (mmr_num_leaves self);
       rt \<leftarrow> get_unchecked (mmr_stack self) lowest_active_level;
       rt \<leftarrow> mmr_root_loop platform (mmr_stack self)
         (clear_bit lowest_active_level (mmr_num_leaves self)) rt;
       Some (Some rt)
     })"

text \<open>The loop of \<open>peaks\<close>, writing one peak after the other into the array.\<close>

function peaks_loop :: "hash list \<Rightarrow> hash list \<Rightarrow> nat \<Rightarrow> u64 \<Rightarrow> hash list option" where
  "peaks_loop stack peaks peaks_offset stack_bits =
    (if stack_bits = 0 then Some peaks
     else let stack_offset = trailing_zeros stack_bits in
       if peaks_offset < length peaks \<and> stack_offset < length stack
       then peaks_loop stack (peaks[peaks_offset := stack ! stack_offset]) (peaks_offset + 1)
              (clear_bit stack_offset stack_bits)
       else None)"
  by pat_completeness auto
termination
proof (relation "measure (\<lambda>(stack, peaks, offset, bits). unat bits)", goal_cases)
  case (2 stack peaks offset bits level)
  then show ?case
    using pow_nat_zeros [of "unat bits"]
    by (simp add: trailing_zeros_unat unat_clear_bit unat_gt_0)
qed simp

declare peaks_loop.simps [simp del]

definition mmr_peaks :: "u64 \<Rightarrow> MerkleMountainRange \<Rightarrow> MmrPeaks option" where
  "mmr_peaks max_n self = do {
    size \<leftarrow> proof_capacity max_n;
    peaks \<leftarrow> peaks_loop (mmr_stack self) (replicate size (replicate OUT_LEN 0)) 0
      (mmr_num_leaves self);
    Some \<lparr> peaks_num_leaves = mmr_num_leaves self, peaks_list = peaks \<rparr>
  }"

definition add_leaf ::
  "Platform \<Rightarrow> u64 \<Rightarrow> MerkleMountainRange \<Rightarrow> hash \<Rightarrow> (bool \<times> MerkleMountainRange) option" where
  "add_leaf platform max_n self leaf =
    (if mmr_num_leaves self \<ge> max_n then Some (False, self)
     else let lowest_active_levels = trailing_ones (mmr_num_leaves self);
              current = fold (hash_pair platform) (take lowest_active_levels (mmr_stack self)) leaf
          in if lowest_active_levels < length (mmr_stack self)
             then Some (True, \<lparr> mmr_num_leaves = mmr_num_leaves self + 1,
                    mmr_stack = (mmr_stack self)[lowest_active_levels := current] \<rparr>)
             else None)"

primrec add_leaves ::
  "Platform \<Rightarrow> u64 \<Rightarrow> MerkleMountainRange \<Rightarrow> hash list \<Rightarrow> (bool \<times> MerkleMountainRange) option" where
  "add_leaves platform max_n self [] = Some (True, self)"
| "add_leaves platform max_n self (leaf # leaves) =
    (if mmr_num_leaves self \<ge> max_n then Some (False, self)
     else let lowest_active_levels = trailing_ones (mmr_num_leaves self);
              current = fold (hash_pair platform) (take lowest_active_levels (mmr_stack self)) leaf
          in if lowest_active_levels < length (mmr_stack self)
             then add_leaves platform max_n
                    \<lparr> mmr_num_leaves = mmr_num_leaves self + 1,
                      mmr_stack = (mmr_stack self)[lowest_active_levels := current] \<rparr> leaves
             else None)"

function mmr_proof_loop ::
  "Platform \<Rightarrow> nat \<Rightarrow> nat \<Rightarrow> hash list \<Rightarrow> u64 \<Rightarrow> hash \<Rightarrow> hash list \<Rightarrow> nat \<Rightarrow> bool \<Rightarrow>
    (hash \<times> hash list) option" where
  "mmr_proof_loop platform capacity target_level stack stack_bits rt prf position merged_peaks =
    (let level = trailing_zeros stack_bits in
     if level = 64 then Some (rt, prf)
     else case get_unchecked stack level of
       None \<Rightarrow> None
     | Some item \<Rightarrow>
         (case (if level > target_level \<or> (level = target_level \<and> odd position \<and> \<not> merged_peaks)
                then map_option (\<lambda>prf. (prf, False)) (proof_write capacity prf item)
                else if level = target_level
                then map_option (\<lambda>prf. (prf, False)) (proof_write capacity prf rt)
                else Some (prf, True)) of
            None \<Rightarrow> None
          | Some (prf, merged_peaks) \<Rightarrow>
              mmr_proof_loop platform capacity target_level stack (clear_bit level stack_bits)
                (hash_pair platform item rt) prf (position div 2) merged_peaks))"
  by pat_completeness auto
termination
proof (relation "measure (\<lambda>(platform, capacity, target, stack, bits, rest). unat bits)", goal_cases)
  case (2 platform capacity target stack bits rt pr position merged level item)
  then have "bits \<noteq> 0" by (auto simp: trailing_zeros_unat)
  with 2 show ?case
    using pow_nat_zeros [of "unat bits"]
    by (simp add: trailing_zeros_unat unat_clear_bit unat_gt_0)
qed simp

declare mmr_proof_loop.simps [simp del]

definition add_leaf_and_compute_proof_inner ::
  "Platform \<Rightarrow> u64 \<Rightarrow> nat \<Rightarrow> MerkleMountainRange \<Rightarrow> hash \<Rightarrow>
    ((hash \<times> hash list) option \<times> MerkleMountainRange) option" where
  "add_leaf_and_compute_proof_inner platform max_n capacity self leaf =
    (if mmr_num_leaves self \<ge> max_n then Some (None, self)
     else do {
       let lowest_active_levels = trailing_ones (mmr_num_leaves self);
       (current, prf, position) \<leftarrow> target_loop platform capacity
         (take lowest_active_levels (mmr_stack self)) leaf [] (unat (mmr_num_leaves self));
       rust_assert (lowest_active_levels < length (mmr_stack self));
       let self = \<lparr> mmr_num_leaves = mmr_num_leaves self + 1,
                    mmr_stack = (mmr_stack self)[lowest_active_levels := current] \<rparr>;
       let level = trailing_zeros (mmr_num_leaves self);
       rt \<leftarrow> get_unchecked (mmr_stack self) level;
       (rt, prf) \<leftarrow> mmr_proof_loop platform capacity lowest_active_levels (mmr_stack self)
         (clear_bit level (mmr_num_leaves self)) rt prf position False;
       Some (Some (rt, prf), self)
     })"

definition add_leaf_and_compute_proof ::
  "Platform \<Rightarrow> u64 \<Rightarrow> MerkleMountainRange \<Rightarrow> hash \<Rightarrow>
    ((hash \<times> hash list) option \<times> MerkleMountainRange) option" where
  "add_leaf_and_compute_proof platform max_n self leaf = do {
    capacity \<leftarrow> proof_capacity max_n;
    add_leaf_and_compute_proof_inner platform max_n capacity self leaf
  }"

definition add_leaf_and_compute_proof_in ::
  "Platform \<Rightarrow> u64 \<Rightarrow> MerkleMountainRange \<Rightarrow> hash \<Rightarrow> nat \<Rightarrow>
    ((hash \<times> hash list) option \<times> MerkleMountainRange) option" where
  "add_leaf_and_compute_proof_in platform max_n self leaf proof_len =
    add_leaf_and_compute_proof_inner platform max_n proof_len self leaf"

definition mmr_verify :: "Platform \<Rightarrow> hash \<Rightarrow> hash list \<Rightarrow> u64 \<Rightarrow> hash \<Rightarrow> u64 \<Rightarrow> bool" where
  "mmr_verify platform rt prf leaf_index leaf num_leaves =
    unbalanced_verify platform rt prf leaf_index leaf num_leaves"

section \<open>The list of leaves as abstraction\<close>

definition mmr_holds :: "Platform \<Rightarrow> u64 \<Rightarrow> MerkleMountainRange \<Rightarrow> hash list \<Rightarrow> bool" where
  "mmr_holds platform max_n self leaves \<longleftrightarrow>
    length (mmr_stack self) = ceillog2 (unat max_n) + 1 \<and>
    represents (hash_pair platform) (mmr_stack self) leaves \<and>
    unat (mmr_num_leaves self) = length leaves \<and> length leaves \<le> unat max_n"

lemma mmr_holdsD:
  assumes "mmr_holds platform max_n self leaves"
  shows "length (mmr_stack self) = ceillog2 (unat max_n) + 1"
    and "represents (hash_pair platform) (mmr_stack self) leaves"
    and "unat (mmr_num_leaves self) = length leaves" and "length leaves \<le> unat max_n"
  using assms by (simp_all add: mmr_holds_def)

lemma pow_ceillog2: "n \<le> m \<Longrightarrow> n \<le> 2 ^ ceillog2 m" for n m :: nat
  by (cases "m = 0") (use le_two_power_ceillog2 [of m] in simp_all)

lemma mmr_levels:
  assumes "mmr_holds platform max_n self leaves"
  shows "length leaves < 2 ^ length (mmr_stack self)"
  using mmr_holdsD [OF assms] pow_ceillog2 [of "length leaves" "unat max_n"]
  by (simp add: le_less_trans)

lemma mmr_new_holds:
  assumes "unat max_n \<le> 2 ^ 63"
  shows "\<exists>self. mmr_new max_n = Some self \<and> mmr_holds platform max_n self [] \<and>
    hashes (mmr_stack self)"
  by (simp add: mmr_new_def empty_stack_eq [OF assms] mmr_holds_def represents_Nil)

lemma unat_mmr_num_leaves_Suc:
  assumes "mmr_holds platform max_n self leaves" and "length leaves < unat max_n"
  shows "unat (mmr_num_leaves self + 1) = length leaves + 1"
  using mmr_holdsD(3) [OF assms(1)] assms(2) unat_less_u64 [of max_n]
  by (simp add: unat_word_ariths)

lemma mmr_push:
  assumes "mmr_holds platform max_n self leaves" and "length leaves < unat max_n"
  shows "mmr_holds platform max_n
      \<lparr> mmr_num_leaves = mmr_num_leaves self + 1,
        mmr_stack = (mmr_stack self)[trailing_ones (mmr_num_leaves self) :=
          fold (hash_pair platform) (take (trailing_ones (mmr_num_leaves self)) (mmr_stack self)) leaf] \<rparr>
      (leaves @ [leaf])"
    and "trailing_ones (mmr_num_leaves self) < length (mmr_stack self)"
proof -
  note holds = mmr_holdsD [OF assms(1)]
  have fits: "nat_ones (length leaves) < length (mmr_stack self)"
    using levels_enough [OF assms(2)] holds by simp
  then show "trailing_ones (mmr_num_leaves self) < length (mmr_stack self)"
    by (simp add: trailing_ones_unat holds)
  show "mmr_holds platform max_n
      \<lparr> mmr_num_leaves = mmr_num_leaves self + 1,
        mmr_stack = (mmr_stack self)[trailing_ones (mmr_num_leaves self) :=
          fold (hash_pair platform) (take (trailing_ones (mmr_num_leaves self)) (mmr_stack self)) leaf] \<rparr>
      (leaves @ [leaf])"
    using represents_push [OF holds(2) fits, of leaf] assms(2)
    by (simp add: mmr_holds_def trailing_ones_unat holds push_eq [OF fits]
        unat_mmr_num_leaves_Suc [OF assms])
qed

lemma add_leaf_full:
  assumes "mmr_holds platform max_n self leaves" and "length leaves = unat max_n"
  shows "add_leaf platform max_n self leaf = Some (False, self)"
  using mmr_holdsD(3) [OF assms(1)] assms(2) by (simp add: add_leaf_def word_le_nat_alt)

lemma add_leaf_holds:
  assumes "mmr_holds platform max_n self leaves" and "length leaves < unat max_n"
  shows "\<exists>self'. add_leaf platform max_n self leaf = Some (True, self') \<and>
    mmr_holds platform max_n self' (leaves @ [leaf])"
  using mmr_push [OF assms] mmr_holdsD(3) [OF assms(1)] assms(2)
  by (auto simp: add_leaf_def word_le_nat_alt Let_def)

lemma add_leaves_Cons:
  "add_leaves platform max_n self (leaf # leaves) =
    (case add_leaf platform max_n self leaf of
       None \<Rightarrow> None
     | Some (False, self) \<Rightarrow> Some (False, self)
     | Some (True, self) \<Rightarrow> add_leaves platform max_n self leaves)"
  by (simp add: add_leaf_def Let_def)

lemma add_leaves_holds:
  "mmr_holds platform max_n self leaves \<Longrightarrow>
    \<exists>self'. add_leaves platform max_n self new =
        Some (length leaves + length new \<le> unat max_n, self') \<and>
      mmr_holds platform max_n self' (leaves @ take (unat max_n - length leaves) new)"
proof (induction new arbitrary: self leaves)
  case Nil
  then show ?case using mmr_holdsD(4) [OF Nil] by simp
next
  case (Cons leaf new)
  show ?case
  proof (cases "length leaves < unat max_n")
    case True
    then obtain self' where one: "add_leaf platform max_n self leaf = Some (True, self')"
      and holds: "mmr_holds platform max_n self' (leaves @ [leaf])"
      using add_leaf_holds [OF Cons.prems] by blast
    from True have "take (unat max_n - length leaves) (leaf # new) =
        leaf # take (unat max_n - length (leaves @ [leaf])) new"
      by (simp add: take_Cons' Suc_diff_le [symmetric])
    with Cons.IH [OF holds] one show ?thesis by (simp del: add_leaves.simps add: add_leaves_Cons)
  next
    case False
    then have "length leaves = unat max_n" using mmr_holdsD(4) [OF Cons.prems] by simp
    with add_leaf_full [OF Cons.prems this] Cons.prems show ?thesis
      by (simp del: add_leaves.simps add: add_leaves_Cons)
  qed
qed

section \<open>Root and proof\<close>

text \<open>
  The loops keep the accumulated root in a variable where the unbalanced tree reuses the lowest
  stack entry; the two agree as that entry is not read again.
\<close>

lemma nat_zeros_even_pos: "even b \<Longrightarrow> 0 < b \<Longrightarrow> 0 < nat_zeros b"
  by (simp add: nat_zeros_even)

lemma trailing_zeros_even:
  fixes bits :: u64
  assumes "even (unat bits)"
  shows "0 < trailing_zeros bits"
  using assms nat_zeros_even_pos [of "unat bits"] by (simp add: trailing_zeros_unat unat_gt_0)

lemma even_clear_bit:
  fixes bits :: u64
  assumes "trailing_zeros bits \<noteq> 64"
  shows "even (unat (clear_bit (trailing_zeros bits) bits))"
proof -
  have "bits \<noteq> 0" using assms by (auto simp: trailing_zeros_unat)
  from even_clear_lowest [of "unat bits"] show ?thesis
    by (simp only: trailing_zeros_unat \<open>bits \<noteq> 0\<close> if_False unat_clear_bit [OF \<open>bits \<noteq> 0\<close>])
qed

lemma mmr_root_loop_eq:
  "even (unat bits) \<Longrightarrow> stack \<noteq> [] \<Longrightarrow>
    mmr_root_loop platform stack bits rt = merge_peaks platform (stack[0 := rt]) bits"
proof (induction platform stack bits rt rule: mmr_root_loop.induct)
  case (1 platform stack bits rt)
  note IH = "1.IH" [OF refl]
  have pos: "0 < trailing_zeros bits" by (rule trailing_zeros_even) (rule 1)
  show ?case
  proof (cases "trailing_zeros bits = 64 \<or> \<not> trailing_zeros bits < length stack")
    case True
    with 1 show ?thesis
      by (subst mmr_root_loop.simps, subst merge_peaks.simps)
        (auto simp: Let_def get_unchecked_def split: option.splits)
  next
    case False
    with IH [of "stack ! trailing_zeros bits"] 1 pos show ?thesis
      by (subst mmr_root_loop.simps, subst merge_peaks.simps)
        (simp add: Let_def get_unchecked_def even_clear_bit nth_list_update)
  qed
qed

lemma mmr_root_spec:
  assumes "mmr_holds platform max_n self leaves"
  shows "mmr_root platform self =
    Some (if leaves = [] then None else Some (tree_root (hash_pair platform) leaves))"
proof (cases "leaves = []")
  case True
  then show ?thesis using mmr_holdsD(3) [OF assms] by (simp add: mmr_root_def unat_eq_0)
next
  case False
  note holds = mmr_holdsD [OF assms]
  note peaks = peaks_root [OF holds(2) False mmr_levels [OF assms] holds(3)]
  let ?n = "mmr_num_leaves self"
  have "trailing_zeros ?n \<noteq> 64"
    using peaks(2) nat_zeros_bound [of ?n] by (simp add: trailing_zeros_unat)
  moreover have "mmr_stack self \<noteq> []" using holds(1) by auto
  ultimately have "mmr_root_loop platform (mmr_stack self) (clear_bit (trailing_zeros ?n) ?n)
      (mmr_stack self ! trailing_zeros ?n) = Some (tree_root (hash_pair platform) leaves)"
    by (simp add: mmr_root_loop_eq even_clear_bit peaks)
  with False peaks(1,2) show ?thesis by (simp add: mmr_root_def Let_def get_unchecked_def)
qed

text \<open>What one round of either proof loop writes.\<close>

definition peak_write ::
  "nat \<Rightarrow> nat \<Rightarrow> nat \<Rightarrow> hash \<Rightarrow> hash \<Rightarrow> hash list \<Rightarrow> nat \<Rightarrow> bool \<Rightarrow> (hash list \<times> bool) option" where
  "peak_write capacity target level item rt pr position merged =
    (if level > target \<or> level = target \<and> odd position \<and> \<not> merged
     then map_option (\<lambda>pr. (pr, False)) (proof_write capacity pr item)
     else if level = target
     then map_option (\<lambda>pr. (pr, False)) (proof_write capacity pr rt)
     else Some (pr, True))"

lemma mmr_proof_loop_eq:
  "even (unat bits) \<Longrightarrow> stack \<noteq> [] \<Longrightarrow>
    mmr_proof_loop platform capacity target stack bits rt pr position merged =
    merge_peaks_proof platform capacity target (stack[0 := rt]) bits pr position merged"
proof (induction platform capacity target stack bits rt pr position merged
    rule: mmr_proof_loop.induct)
  case (1 platform capacity target stack bits rt pr position merged)
  let ?l = "trailing_zeros bits"
  have pos: "0 < ?l" by (rule trailing_zeros_even) (rule 1)
  show ?case
  proof (cases "?l = 64 \<or> \<not> ?l < length stack")
    case True
    with 1 show ?thesis
      by (subst mmr_proof_loop.simps, subst merge_peaks_proof.simps)
        (auto simp: Let_def get_unchecked_def split: option.splits)
  next
    case False
    then have item: "get_unchecked stack ?l = Some (stack ! ?l)"
      "get_unchecked (stack[0 := rt]) ?l = Some (stack ! ?l)" "stack[0 := rt] ! 0 = rt"
      using pos 1(3) by (simp_all add: get_unchecked_def nth_list_update)
    have IH: "mmr_proof_loop platform capacity target stack (clear_bit ?l bits)
        (hash_pair platform (stack ! ?l) rt) pr' (position div 2) merged' =
      merge_peaks_proof platform capacity target (stack[0 := hash_pair platform (stack ! ?l) rt])
        (clear_bit ?l bits) pr' (position div 2) merged'"
      if "peak_write capacity target ?l (stack ! ?l) rt pr position merged = Some (pr', merged')"
      for pr' merged'
      using "1.IH" [OF refl _ item(1) that [unfolded peak_write_def] refl] False 1(3)
        even_clear_bit [of bits] by simp
    have "mmr_proof_loop platform capacity target stack bits rt pr position merged =
      (case peak_write capacity target ?l (stack ! ?l) rt pr position merged of
         None \<Rightarrow> None
       | Some (pr, merged) \<Rightarrow> mmr_proof_loop platform capacity target stack (clear_bit ?l bits)
           (hash_pair platform (stack ! ?l) rt) pr (position div 2) merged)"
      using False by (subst mmr_proof_loop.simps) 
        (simp only: Let_def item peak_write_def if_False option.case de_Morgan_disj)
    moreover have "merge_peaks_proof platform capacity target (stack[0 := rt]) bits pr position merged =
      (case peak_write capacity target ?l (stack ! ?l) rt pr position merged of
         None \<Rightarrow> None
       | Some (pr, merged) \<Rightarrow> merge_peaks_proof platform capacity target
           (stack[0 := hash_pair platform (stack ! ?l) rt]) (clear_bit ?l bits) pr (position div 2)
           merged)"
      using False by (subst merge_peaks_proof.simps)
        (simp only: Let_def item peak_write_def if_False option.case
          list_update_overwrite de_Morgan_disj)
    ultimately show ?thesis
      by (cases "peak_write capacity target ?l (stack ! ?l) rt pr position merged") (auto simp: IH)
  qed
qed

lemma peak_level_Suc: "peak_level (Suc n) n = nat_ones n"
  using peak_level_new [of n] by simp

lemma mmr_proof_spec:
  assumes "unat max_n \<le> 2 ^ 63" and "mmr_holds platform max_n self leaves"
    and "length leaves < unat max_n"
  shows "\<exists>self'. add_leaf_and_compute_proof platform max_n self leaf =
      Some (Some (tree_root (hash_pair platform) (leaves @ [leaf]),
        level_path (hash_pair platform) (leaves @ [leaf]) (length leaves)), self') \<and>
    add_leaf platform max_n self leaf = Some (True, self')"
proof -
  let ?hp = "hash_pair platform" and ?n = "mmr_num_leaves self" and ?k = "nat_ones (length leaves)"
  let ?cap = "ceillog2 (unat max_n)" and ?all = "leaves @ [leaf]"
  note holds = mmr_holdsD [OF assms(2)]
  define st where "st = (mmr_stack self)[?k := fold ?hp (take ?k (mmr_stack self)) leaf]"
  define self' where "self' = \<lparr> mmr_num_leaves = ?n + 1, mmr_stack = st \<rparr>"
  have ones: "trailing_ones ?n = ?k" by (simp add: trailing_ones_unat holds)
  have fits: "?k < length (mmr_stack self)" using mmr_push(2) [OF assms(2,3)] ones by simp
  have not_full: "\<not> max_n \<le> ?n" using assms(3) holds(3) by (simp add: word_le_nat_alt)
  have added: "add_leaf platform max_n self leaf = Some (True, self')"
    using fits not_full by (simp add: add_leaf_def ones Let_def self'_def st_def)
  have "mmr_holds platform max_n self' ?all"
    using mmr_push(1) [OF assms(2,3)] by (simp add: self'_def st_def ones)
  note holds' = mmr_holdsD [OF this] mmr_levels [OF this]
  have stack': "mmr_stack self' = st" "mmr_num_leaves self' = ?n + 1" by (simp_all add: self'_def)
  have caps: "ceillog2 (length ?all) \<le> ?cap" by (rule ceillog2_mono) (rule holds')
  have "?k \<le> ?cap"
    unfolding peak_level_new [symmetric] by (rule peak_level_le) (use assms(3) in simp_all)
  then have target: "target_loop platform ?cap (take ?k (mmr_stack self)) leaf [] (length leaves) =
      Some (fold ?hp (take ?k (mmr_stack self)) leaf, peak_sibs ?hp ?all (length leaves),
        length leaves div 2 ^ ?k)"
    using target_loop_new [OF holds(2) fits, of "[]" ?cap leaf] by simp
  note peaks = peaks_root(1,2) [OF holds'(2) _ holds'(5,3)]
  have zeros: "trailing_zeros (?n + 1) < length st" "?n + 1 \<noteq> 0"
    using peaks by (simp_all add: stack')
  have len: "length st = length (mmr_stack self)" by (simp add: st_def)
  from zeros have "trailing_zeros (?n + 1) \<noteq> 64"
    using nat_zeros_bound [of "?n + 1"] by (simp add: trailing_zeros_unat)
  then have loop: "mmr_proof_loop platform ?cap ?k st (clear_bit (trailing_zeros (?n + 1)) (?n + 1))
      (st ! trailing_zeros (?n + 1)) (peak_sibs ?hp ?all (length leaves))
      (length leaves div 2 ^ ?k) False =
    Some (tree_root ?hp ?all, level_path ?hp ?all (length leaves))"
    using peaks_proof [OF holds'(2) _ holds'(5,3) caps, of "length leaves"] zeros(1)
    by (subst mmr_proof_loop_eq) (auto simp: even_clear_bit stack' peak_level_Suc)
  have "add_leaf_and_compute_proof platform max_n self leaf =
      Some (Some (tree_root ?hp ?all, level_path ?hp ?all (length leaves)), self')"
    using not_full fits zeros(1) zeros(1) [unfolded len] target loop
    by (simp add: add_leaf_and_compute_proof_def add_leaf_and_compute_proof_inner_def
        proof_capacity_eq [OF assms(1)] ones holds(3) Let_def rust_assert_def get_unchecked_def
        self'_def flip: st_def)
  with added show ?thesis by blast
qed

section \<open>Peaks\<close>

text \<open>The set bits of the number of leaves, lowest first: the levels that hold a peak.\<close>

function levels :: "nat \<Rightarrow> nat list" where
  "levels b = (if b = 0 then [] else nat_zeros b # levels (b - 2 ^ nat_zeros b))"
  by pat_completeness auto
termination by (relation "measure id") auto

declare levels.simps [simp del]

lemma levels_0 [simp]: "levels 0 = []"
  by (simp add: levels.simps)

lemma levels_pos: "0 < b \<Longrightarrow> levels b = nat_zeros b # levels (b - 2 ^ nat_zeros b)"
  by (subst levels.simps) simp

lemma set_levels: "set (levels b) = {j. bit b j}"
proof (induction b rule: levels.induct)
  case (1 b)
  show ?case
  proof (cases "b = 0")
    case False
    with 1 show ?thesis using bit_nat_zeros [of b] by (auto simp: levels_pos bit_clear_lowest)
  qed simp
qed

lemma distinct_levels: "distinct (levels b)"
proof (induction b rule: levels.induct)
  case (1 b)
  then show ?case
    by (cases "b = 0") (auto simp: levels_pos set_levels bit_clear_lowest)
qed

lemma bit_less: "b < 2 ^ k \<Longrightarrow> bit b j \<Longrightarrow> j < k" for b :: nat
  by (metis bit_take_bit_iff take_bit_nat_eq_self)

lemma length_levels:
  assumes "b < 2 ^ k"
  shows "length (levels b) \<le> k"
proof -
  have "length (levels b) = card {j. bit b j}"
    using distinct_card [OF distinct_levels] by (simp add: set_levels)
  also have "\<dots> \<le> card {..<k}" by (rule card_mono) (use bit_less [OF assms] in auto)
  finally show ?thesis by simp
qed

lemma nat_zeros_power [simp]: "nat_zeros (2 ^ k) = k"
  by (induction k) (simp_all add: nat_zeros_even)

lemma length_levels_le:
  assumes "b \<le> 2 ^ k" and "0 < k"
  shows "length (levels b) \<le> k"
proof (cases "b = 2 ^ k")
  case True
  then show ?thesis using assms(2) by (simp add: levels_pos)
next
  case False
  with assms(1) show ?thesis by (intro length_levels) simp
qed

lemma represents_cong:
  "represents hp st xs \<Longrightarrow> length st' = length st \<Longrightarrow>
    (\<And>j. bit (length xs) j \<Longrightarrow> st' ! j = st ! j) \<Longrightarrow> represents hp st' xs"
proof (induction st arbitrary: st' xs)
  case (Cons s st)
  then obtain s' st'' where st': "st' = s' # st''" by (cases st') auto
  have "st'' ! j = st ! j" if "bit (length (full_pairs hp xs)) j" for j
    using Cons.prems(3) [of "Suc j"] that st' by (simp add: bit_Suc)
  then have "represents hp st'' (full_pairs hp xs)"
    using Cons.IH [of "full_pairs hp xs" st''] Cons.prems(1,2) st' by simp
  then show ?case using Cons.prems(1) Cons.prems(3) [of 0] st' by (simp add: bit_0)
qed simp

lemma levels_clear:
  fixes bits :: u64
  assumes "bits \<noteq> 0"
  shows "levels (unat bits) =
    trailing_zeros bits # levels (unat (clear_bit (trailing_zeros bits) bits))"
  using assms by (simp add: levels_pos unat_gt_0 trailing_zeros_unat unat_clear_bit)

lemma peaks_loop_eq:
  "(\<forall>l\<in>set (levels (unat bits)). l < length stack) \<Longrightarrow> k \<le> length peaks \<Longrightarrow>
    peaks_loop stack peaks k bits =
    (if k + length (levels (unat bits)) \<le> length peaks
     then Some (take k peaks @ map ((!) stack) (levels (unat bits)) @
       drop (k + length (levels (unat bits))) peaks)
     else None)"
proof (induction stack peaks k bits rule: peaks_loop.induct)
  case (1 stack peaks k bits)
  show ?case
  proof (cases "bits = 0")
    case True
    then show ?thesis using 1(3) by (subst peaks_loop.simps) simp
  next
    case False
    let ?l = "trailing_zeros bits"
    have l: "?l < length stack" using 1(2) levels_clear [OF False] by simp
    show ?thesis
    proof (cases "k < length peaks")
      case True
      have "take (Suc k) (peaks[k := stack ! ?l]) = take k peaks @ [stack ! ?l]"
        using True by (simp add: take_Suc_conv_app_nth)
      then show ?thesis
        using 1(1) [OF False refl] True l 1(2) levels_clear [OF False]
        by (subst peaks_loop.simps) (simp add: Let_def False)
    next
      case full: False
      then show ?thesis
        using levels_clear [OF False] by (subst peaks_loop.simps) (simp add: Let_def False)
    qed
  qed
qed

lemma from_peaks_loop_None:
  "(\<exists>l\<in>set (levels (unat bits)). length stack \<le> l) \<or>
    length peaks < k + length (levels (unat bits)) \<Longrightarrow>
    k \<le> length peaks \<Longrightarrow> from_peaks_loop peaks k stack bits = None"
proof (induction peaks k stack bits rule: from_peaks_loop.induct)
  case (1 peaks k stack bits)
  have nonzero: "bits \<noteq> 0" using 1(2,3) by (cases "bits = 0") simp_all
  let ?next = "from_peaks_loop peaks (k + 1) (stack[trailing_zeros bits := peaks ! k])
    (clear_bit (trailing_zeros bits) bits)"
  have "?next = None" if "trailing_zeros bits < length stack \<and> k < length peaks"
  proof (rule "1.IH" [OF nonzero refl that])
    show "(\<exists>l\<in>set (levels (unat (clear_bit (trailing_zeros bits) bits))).
        length (stack[trailing_zeros bits := peaks ! k]) \<le> l) \<or>
      length peaks < k + 1 + length (levels (unat (clear_bit (trailing_zeros bits) bits)))"
      using 1(2) that levels_clear [OF nonzero] by auto
  qed (use that in simp)
  with nonzero show ?case by (subst from_peaks_loop.simps) (simp add: Let_def)
qed

lemma from_peaks_loop_Some:
  "(\<forall>l\<in>set (levels (unat bits)). l < length stack) \<Longrightarrow>
    k + length (levels (unat bits)) \<le> length peaks \<Longrightarrow>
    \<exists>st. from_peaks_loop peaks k stack bits = Some st \<and> length st = length stack \<and>
      map ((!) st) (levels (unat bits)) = take (length (levels (unat bits))) (drop k peaks) \<and>
      (\<forall>j. \<not> bit (unat bits) j \<longrightarrow> st ! j = stack ! j)"
proof (induction peaks k stack bits rule: from_peaks_loop.induct)
  case (1 peaks k stack bits)
  show ?case
  proof (cases "bits = 0")
    case True
    then show ?thesis by (subst from_peaks_loop.simps) simp
  next
    case False
    let ?l = "trailing_zeros bits" and ?stack = "stack[trailing_zeros bits := peaks ! k]"
    let ?bits = "clear_bit (trailing_zeros bits) bits"
    note step = levels_clear [OF False]
    from 1(2,3) step have lk: "?l < length stack \<and> k < length peaks" by simp
    from 1(2,3) step lk obtain st where st: "from_peaks_loop peaks (k + 1) ?stack ?bits = Some st"
      "length st = length stack"
      "map ((!) st) (levels (unat ?bits)) = take (length (levels (unat ?bits))) (drop (k + 1) peaks)"
      "\<forall>j. \<not> bit (unat ?bits) j \<longrightarrow> st ! j = ?stack ! j"
      using "1.IH" [OF False refl lk] by auto
    have "distinct (?l # levels (unat ?bits))" using distinct_levels [of "unat bits"] step by simp
    then have "\<not> bit (unat ?bits) ?l" by (simp add: set_levels)
    then have "st ! ?l = peaks ! k" using st(4) lk by simp
    moreover have "st ! j = stack ! j" if "\<not> bit (unat bits) j" for j
    proof -
      have "j \<notin> set (?l # levels (unat ?bits))" using that step set_levels [of "unat bits"] by simp
      then show ?thesis using st(4) by (auto simp: set_levels)
    qed
    ultimately show ?thesis
      using st lk False step
      by (subst from_peaks_loop.simps) (simp add: Let_def Cons_nth_drop_Suc [symmetric])
  qed
qed

lemma count_ones_levels: "count_ones w = length (levels (unat w))" for w :: u64
proof -
  have "count_ones w = card (set (filter (bit (unat w)) [0..<64]))"
    by (subst distinct_card) (simp_all add: count_ones_def word_bits_unat filter_map o_def)
  also have "set (filter (bit (unat w)) [0..<64]) = set (levels (unat w))"
    using bit_less [OF unat_less_u64 [of w]] by (auto simp: set_levels)
  finally show ?thesis using distinct_card [OF distinct_levels] by simp
qed

lemma levels_in_stack:
  assumes "mmr_holds platform max_n self leaves"
  shows "\<forall>l\<in>set (levels (length leaves)). l < length (mmr_stack self)"
  using bit_less [OF mmr_levels [OF assms]] by (auto simp: set_levels)

lemma mmr_peaks_spec:
  assumes "unat max_n \<le> 2 ^ 63" and "mmr_holds platform max_n self leaves"
  shows "mmr_peaks max_n self =
    (if length (levels (length leaves)) \<le> ceillog2 (unat max_n)
     then Some \<lparr> peaks_num_leaves = mmr_num_leaves self,
       peaks_list = map ((!) (mmr_stack self)) (levels (length leaves)) @
         replicate (ceillog2 (unat max_n) - length (levels (length leaves))) (replicate 32 0) \<rparr>
     else None)"
  using levels_in_stack [OF assms(2)] mmr_holdsD(3) [OF assms(2)]
  by (simp add: mmr_peaks_def proof_capacity_eq [OF assms(1)] peaks_loop_eq OUT_LEN_def)

lemma peaks_fit:
  assumes "length leaves \<le> unat max_n"
  shows "length (levels (length leaves)) \<le> ceillog2 (unat max_n) \<longleftrightarrow>
    leaves = [] \<or> unat max_n \<noteq> 1"
proof (cases "leaves = []")
  case False
  show ?thesis
  proof (cases "unat max_n = 1")
    case True
    with False show ?thesis by (simp add: levels_pos)
  next
    case many: False
    with False assms have "0 < ceillog2 (unat max_n)"
      using ceillog2_ge_iff [of "unat max_n" 1] by (cases leaves) auto
    then show ?thesis
      using length_levels_le [OF pow_ceillog2 [OF assms]] many by simp
  qed
qed simp

text \<open>Which peaks \<open>from_peaks\<close> accepts: those whose levels and number fit the two arrays.\<close>

lemma from_peaks_accepts:
  assumes "unat max_n \<le> 2 ^ 63"
  shows "(\<exists>self. mmr_from_peaks max_n peaks = Some (Some self)) \<longleftrightarrow>
    unat (peaks_num_leaves peaks) < 2 ^ (ceillog2 (unat max_n) + 1) \<and>
    count_ones (peaks_num_leaves peaks) \<le> length (peaks_list peaks)"
proof -
  let ?n = "unat (peaks_num_leaves peaks)" and ?k = "ceillog2 (unat max_n) + 1"
  have "?n < 2 ^ ?k \<longleftrightarrow> (\<forall>l\<in>set (levels ?n). l < ?k)"
  proof
    assume "\<forall>l\<in>set (levels ?n). l < ?k"
    then have "take_bit ?k ?n = ?n" by (intro bit_eqI) (auto simp: bit_take_bit_iff set_levels)
    then show "?n < 2 ^ ?k" by (metis take_bit_nat_less_exp)
  qed (use bit_less [of ?n ?k] in \<open>simp add: set_levels\<close>)
  then show ?thesis
    using from_peaks_loop_Some [of "peaks_num_leaves peaks" "replicate ?k (replicate 32 0)" 0
        "peaks_list peaks"]
      from_peaks_loop_None [of "peaks_num_leaves peaks" "replicate ?k (replicate 32 0)"
        "peaks_list peaks" 0]
    by (fastforce simp: mmr_from_peaks_def empty_stack_eq [OF assms] count_ones_levels not_less
        not_le simp del: replicate_Suc)
qed

lemma from_peaks_holds:
  assumes "unat max_n \<le> 2 ^ 63" and "mmr_holds platform max_n self leaves"
    and "mmr_peaks max_n self = Some peaks"
  shows "\<exists>self'. mmr_from_peaks max_n peaks = Some (Some self') \<and>
    mmr_holds platform max_n self' leaves"
proof -
  note holds = mmr_holdsD [OF assms(2)]
  let ?ls = "levels (length leaves)" and ?k = "ceillog2 (unat max_n) + 1"
  have fit: "length ?ls \<le> ceillog2 (unat max_n)"
    using mmr_peaks_spec [OF assms(1,2)] assms(3) by (auto split: if_splits)
  then have peaks: "peaks = \<lparr> peaks_num_leaves = mmr_num_leaves self,
       peaks_list = map ((!) (mmr_stack self)) ?ls @
         replicate (ceillog2 (unat max_n) - length ?ls) (replicate 32 0) \<rparr>"
    using mmr_peaks_spec [OF assms(1,2)] assms(3) by simp
  obtain st where st: "from_peaks_loop (peaks_list peaks) 0 (replicate ?k (replicate 32 0))
      (mmr_num_leaves self) = Some st" "length st = ?k"
    "map ((!) st) ?ls = map ((!) (mmr_stack self)) ?ls"
    using from_peaks_loop_Some [of "mmr_num_leaves self" "replicate ?k (replicate 32 0)" 0
        "peaks_list peaks"] levels_in_stack [OF assms(2)] holds fit
    by (auto simp: peaks)
  have "represents (hash_pair platform) st leaves"
    using holds(2) by (rule represents_cong) (use st(2,3) holds(1) in \<open>auto simp: set_levels\<close>)
  then have "mmr_holds platform max_n
      \<lparr> mmr_num_leaves = mmr_num_leaves self, mmr_stack = st \<rparr> leaves"
    using holds st(2) by (simp add: mmr_holds_def)
  moreover have "mmr_from_peaks max_n peaks =
      Some (Some \<lparr> mmr_num_leaves = mmr_num_leaves self, mmr_stack = st \<rparr>)"
    using st(1) by (simp add: mmr_from_peaks_def empty_stack_eq [OF assms(1)] peaks)
  ultimately show ?thesis by blast
qed

section \<open>Bytes\<close>

lemma ilog2_ceillog2:
  assumes "0 < n"
  shows "\<exists>l. ilog2 n = Some l \<and>
    (if 2 ^ ceillog2 n = n then l = ceillog2 n else l < ceillog2 n)"
proof (cases "2 ^ ceillog2 n = n")
  case True
  then have "floorlog 2 n = ceillog2 n + 1"
    using floorlog_power [of 1 2 "ceillog2 n"] by (simp add: compute_floorlog)
  with True assms show ?thesis by (simp add: ilog2_def)
next
  case False
  have "2 ^ (floorlog 2 n - 1) \<le> n" using floorlog_bounds [of n 2] assms by simp
  also have "n < 2 ^ ceillog2 n" using le_two_power_ceillog2 [of n] False by simp
  finally have "floorlog 2 n - 1 < ceillog2 n" by (rule power_less_imp_less_exp [rotated]) simp
  with False assms show ?thesis by (simp add: ilog2_def)
qed

lemma mmr_bytes_spec:
  assumes "unat max_n \<le> 2 ^ 63" and "0 < max_n" and "hashes (mmr_stack self)"
    and "length (mmr_stack self) = ceillog2 (unat max_n) + 1"
  shows "mmr_as_bytes max_n self \<bind> mmr_from_bytes max_n =
    (if 2 ^ ceillog2 (unat max_n) = unat max_n then Some self else None)"
proof -
  let ?c = "ceillog2 (unat max_n)"
  have "0 < unat max_n" using assms(2) by (simp add: unat_gt_0 word_neq_0_conv)
  from ilog2_ceillog2 [OF this] obtain l where l: "ilog2 (unat max_n) = Some l"
    "if 2 ^ ?c = unat max_n then l = ?c else l < ?c" by blast
  have len: "length (concat (mmr_stack self)) = 32 * (?c + 1)"
    using length_concat_same [of "mmr_stack self" 32] assms(3,4) by simp
  have chunks: "as_chunks 32 (concat (mmr_stack self)) = (mmr_stack self, [])"
    using as_chunks_concat [where n = 32 and cs = "mmr_stack self" and r = "[]"] assms(3) by simp
  have le: "from_le_bytes (to_le_bytes (mmr_num_leaves self)) = mmr_num_leaves self"
    by (rule from_le_bytes_to_le_bytes) simp
  show ?thesis
    using l len chunks le proof_capacity_eq [OF assms(1)]
    by (auto simp: mmr_as_bytes_def mmr_from_bytes_def merkle_mountain_range_bytes_size_def
        mmr_repr_def OUT_LEN_def split: if_splits)
qed

section \<open>Properties\<close>

text \<open>
  C29: A Merkle Mountain Range behaves as the list of leaves added to it. A new one is empty; adding
  a leaf appends it while there is room and is refused without a change otherwise; adding several
  appends as many as fit and reports whether all did; and the root is the root the unbalanced
  tree computes from the whole list. No operation panics or leaves its arrays.
\<close>

theorem mmr_refines_leaves:
  assumes "unat max_n \<le> 2 ^ 63" and "mmr_holds platform max_n self leaves"
  shows "(\<exists>self'. mmr_new max_n = Some self' \<and> mmr_holds platform max_n self' []) \<and>
    (\<exists>self'. add_leaf platform max_n self leaf = Some (length leaves < unat max_n, self') \<and>
      mmr_holds platform max_n self' (leaves @ take (unat max_n - length leaves) [leaf])) \<and>
    (\<exists>self'. add_leaves platform max_n self new =
        Some (length leaves + length new \<le> unat max_n, self') \<and>
      mmr_holds platform max_n self' (leaves @ take (unat max_n - length leaves) new)) \<and>
    mmr_root platform self = compute_root_only platform max_n leaves"
proof (intro conjI)
  show "\<exists>self'. mmr_new max_n = Some self' \<and> mmr_holds platform max_n self' []"
    using mmr_new_holds [OF assms(1)] by blast
  show "\<exists>self'. add_leaf platform max_n self leaf = Some (length leaves < unat max_n, self') \<and>
      mmr_holds platform max_n self' (leaves @ take (unat max_n - length leaves) [leaf])"
    using add_leaf_holds [OF assms(2)] add_leaf_full [OF assms(2)] assms(2) mmr_holdsD(4) [OF assms(2)]
    by (cases "length leaves < unat max_n") simp_all
  show "\<exists>self'. add_leaves platform max_n self new =
        Some (length leaves + length new \<le> unat max_n, self') \<and>
      mmr_holds platform max_n self' (leaves @ take (unat max_n - length leaves) new)"
    by (rule add_leaves_holds) (rule assms)
  show "mmr_root platform self = compute_root_only platform max_n leaves"
    using mmr_holdsD(4) [OF assms(2)]
    by (simp add: mmr_root_spec [OF assms(2)] compute_root_only_spec [OF assms(1)])
qed

lemma mmr_holds_example:
  "mmr_holds platform 3 \<lparr> mmr_num_leaves = 1, mmr_stack = [h, h', h''] \<rparr> [h]"
  by (simp add: mmr_holds_def ceillog2_code ceillog2_aux.simps)

theorem mmr_refines_leaves_witness:
  "\<exists>self'. add_leaves portable_platform 3 \<lparr> mmr_num_leaves = 1,
      mmr_stack = [replicate 32 1, replicate 32 0, replicate 32 0] \<rparr>
      [replicate 32 2, replicate 32 3, replicate 32 4] = Some (False, self') \<and>
    mmr_holds portable_platform 3 self' [replicate 32 1, replicate 32 2, replicate 32 3]"
  using mmr_refines_leaves [OF _ mmr_holds_example [of portable_platform "replicate 32 1"
      "replicate 32 0" "replicate 32 0"],
      where new = "[replicate 32 2, replicate 32 3, replicate 32 4]"]
  by simp

text \<open>
  C30: Adding a leaf with a proof, while there is room, has the effect of adding the leaf; the root
  and the proof are those of the unbalanced tree over all leaves, the root is the one the updated
  structure reports, and the proof is accepted for the new leaf at its position.
\<close>

theorem mmr_proof_verifies:
  assumes "unat max_n \<le> 2 ^ 63" and "mmr_holds platform max_n self leaves"
    and "length leaves < unat max_n"
  shows "\<exists>rt prf self'. add_leaf_and_compute_proof platform max_n self leaf =
      Some (Some (rt, prf), self') \<and>
    add_leaf platform max_n self leaf = Some (True, self') \<and>
    mmr_root platform self' = Some (Some rt) \<and>
    compute_root_and_proof platform max_n (leaves @ [leaf]) (length leaves) = Some (Some (rt, prf)) \<and>
    mmr_verify platform rt prf (mmr_num_leaves self) leaf (mmr_num_leaves self')"
proof -
  let ?all = "leaves @ [leaf]" and ?hp = "hash_pair platform"
  obtain self' where added: "add_leaf_and_compute_proof platform max_n self leaf =
      Some (Some (tree_root ?hp ?all, level_path ?hp ?all (length leaves)), self')"
    "add_leaf platform max_n self leaf = Some (True, self')"
    using mmr_proof_spec [OF assms] by blast
  with add_leaf_holds [OF assms(2,3), of leaf] have holds: "mmr_holds platform max_n self' ?all"
    by auto
  have small: "length ?all < 2 ^ 64" using assms(1,3) by simp
  have counts: "mmr_num_leaves self = of_nat (length leaves)" "mmr_num_leaves self' = of_nat (length ?all)"
    by (simp_all add: mmr_holdsD(3) [OF assms(2), symmetric] mmr_holdsD(3) [OF holds, symmetric]
        del: length_append)
  have "mmr_verify platform (tree_root ?hp ?all) (level_path ?hp ?all (length leaves))
      (mmr_num_leaves self) leaf (mmr_num_leaves self')"
    unfolding mmr_verify_def counts using verify_accepts_path [OF small, of "length leaves"] by simp
  with added holds assms show ?thesis
    by (simp add: mmr_root_spec compute_root_and_proof_spec)
qed

theorem mmr_proof_verifies_witness:
  "\<exists>rt prf self'. add_leaf_and_compute_proof portable_platform 3
      \<lparr> mmr_num_leaves = 1, mmr_stack = [replicate 32 1, replicate 32 0, replicate 32 0] \<rparr>
      (replicate 32 2) = Some (Some (rt, prf), self') \<and>
    mmr_verify portable_platform rt prf 1 (replicate 32 2) (mmr_num_leaves self')"
  using mmr_proof_verifies [OF _ mmr_holds_example [of portable_platform "replicate 32 1"
      "replicate 32 0" "replicate 32 0"],
      where leaf = "replicate 32 2"]
  by auto

text \<open>
  C31: The peaks can be taken from any structure except a non-empty one of capacity one, whose peaks
  array has no element: there the unchecked write is out of bounds. Where they can be taken they
  fit the array, and rebuilding from them gives a structure with the same leaves.
\<close>

theorem mmr_peaks_roundtrip:
  assumes "unat max_n \<le> 2 ^ 63" and "mmr_holds platform max_n self leaves"
  shows "case mmr_peaks max_n self of
      None \<Rightarrow> max_n = 1 \<and> leaves \<noteq> []
    | Some peaks \<Rightarrow> \<not> (max_n = 1 \<and> leaves \<noteq> []) \<and>
        unat (num_peaks peaks) \<le> length (peaks_list peaks) \<and>
        (\<exists>self'. mmr_from_peaks max_n peaks = Some (Some self') \<and>
          mmr_holds platform max_n self' leaves \<and>
          mmr_root platform self' = mmr_root platform self)"
proof -
  have one: "unat max_n = 1 \<longleftrightarrow> max_n = 1" using word_unat_eq_iff [of max_n 1] by simp
  note fit = peaks_fit [OF mmr_holdsD(4) [OF assms(2)], unfolded one]
  show ?thesis
  proof (cases "mmr_peaks max_n self")
    case None
    then show ?thesis using mmr_peaks_spec [OF assms] fit by (simp split: if_splits)
  next
    case (Some peaks)
    let ?k = "length (levels (length leaves))"
    from Some have p: "?k \<le> ceillog2 (unat max_n)" "peaks_num_leaves peaks = mmr_num_leaves self"
      "length (peaks_list peaks) = ceillog2 (unat max_n)"
      using mmr_peaks_spec [OF assms] by (auto split: if_splits)
    have "?k \<le> 64"
      using length_levels [OF unat_less_u64 [of "mmr_num_leaves self"]] mmr_holdsD(3) [OF assms(2)]
      by simp
    then have "unat (num_peaks peaks) = ?k"
      by (simp add: num_peaks_def p count_ones_levels mmr_holdsD(3) [OF assms(2)] unat_of_nat)
    with from_peaks_holds [OF assms Some] show ?thesis
      using Some p fit mmr_root_spec [OF assms(2)] by (auto simp: mmr_root_spec)
  qed
qed

theorem mmr_peaks_roundtrip_witness:
  "\<exists>peaks self'. mmr_peaks 3
      \<lparr> mmr_num_leaves = 1, mmr_stack = [replicate 32 1, replicate 32 0, replicate 32 0] \<rparr> = Some peaks \<and>
    mmr_from_peaks 3 peaks = Some (Some self') \<and>
    mmr_holds portable_platform 3 self' [replicate 32 1]"
  using mmr_peaks_roundtrip [OF _ mmr_holds_example [of portable_platform "replicate 32 1"
      "replicate 32 0" "replicate 32 0"]]
  by (auto split: option.splits)

text \<open>
  C32: Viewing a structure as bytes and the bytes as a structure is the identity exactly when the
  capacity is a power of two. For any other capacity the byte type is shorter than the structure
  by at least one level, and reading the structure back leaves the bytes.
\<close>

theorem mmr_bytes_roundtrip:
  assumes "unat max_n \<le> 2 ^ 63" and "0 < max_n" and "hashes (mmr_stack self)"
    and "length (mmr_stack self) = ceillog2 (unat max_n) + 1"
  shows "mmr_as_bytes max_n self \<bind> mmr_from_bytes max_n =
    (if 2 ^ ceillog2 (unat max_n) = unat max_n then Some self else None)"
  by (rule mmr_bytes_spec) (fact assms)+

theorem mmr_bytes_roundtrip_witness:
  "mmr_as_bytes 3 \<lparr> mmr_num_leaves = 1,
      mmr_stack = [replicate 32 1, replicate 32 0, replicate 32 0] \<rparr> \<bind> mmr_from_bytes 3 = None \<and>
   mmr_as_bytes 2 \<lparr> mmr_num_leaves = 1, mmr_stack = [replicate 32 1, replicate 32 0] \<rparr> \<bind>
      mmr_from_bytes 2 = Some \<lparr> mmr_num_leaves = 1, mmr_stack = [replicate 32 1, replicate 32 0] \<rparr>"
  using mmr_bytes_roundtrip [of 3 "\<lparr> mmr_num_leaves = 1,
      mmr_stack = [replicate 32 1, replicate 32 0, replicate 32 0] \<rparr>"]
    mmr_bytes_roundtrip [of 2 "\<lparr> mmr_num_leaves = 1,
      mmr_stack = [replicate 32 1, replicate 32 0] \<rparr>"]
  by (simp add: ceillog2_code ceillog2_aux.simps)

end
