(* ===== verification/Merkle_Balanced.thy ===== *)
theory Merkle_Balanced
  imports Merkle_Unbalanced
begin

text \<open>
  \<open>BalancedMerkleTree\<close> (\<open>ab-merkle-tree/src/balanced.rs\<close>): the tree kept in memory, its proofs
  iterator, the root computed in batches and the verification.

  The tree is stored level by level (\<open>tree_levels\<close>). The root of a large tree is computed with a
  stack whose entries are batches of sixteen hashes: this is the binary counter of the
  unbalanced tree again, over batches instead of hashes and with \<open>batch_pair\<close> as the operation
  that joins two of them. \<open>None\<close> is a panic, a failed compile-time assertion or an out-of-range
  unchecked access.
\<close>

section \<open>Code\<close>

definition BATCH_HASH_NUM_BLOCKS :: nat where
  "BATCH_HASH_NUM_BLOCKS = 16"

definition BATCH_HASH_NUM_LEAVES :: nat where
  "BATCH_HASH_NUM_LEAVES = BATCH_HASH_NUM_BLOCKS * BLOCK_LEN div OUT_LEN"

definition compute_root_only_large_stack_size :: "nat \<Rightarrow> nat option" where
  "compute_root_only_large_stack_size n =
    (if n < BATCH_HASH_NUM_LEAVES then Some 1
     else do {
       l \<leftarrow> ilog2 (n div BATCH_HASH_NUM_LEAVES);
       Some (l + 1)
     })"

definition is_power_of_two :: "nat \<Rightarrow> bool" where
  "is_power_of_two n \<longleftrightarrow> 0 < n \<and> 2 ^ ceillog2 n = n"

definition ensure_supported_n :: "nat \<Rightarrow> nat option" where
  "ensure_supported_n n = do {
    rust_assert (is_power_of_two n);
    rust_assert (n > 1);
    Some 0
  }"

record BalancedMerkleTree =
  bmt_leaves :: "hash list"
  bmt_tree :: "hash list"

subsection \<open>Construction\<close>

text \<open>
  One round of \<open>init_internal\<close>: the parents of a level, in batches where their number allows it.
  The loops zip the chunks of the level with the parents to be written.
\<close>

definition level_parents :: "Platform \<Rightarrow> hash list \<Rightarrow> nat \<Rightarrow> hash list option" where
  "level_parents platform level_hashes num_pairs =
    (if num_pairs mod BATCH_HASH_NUM_BLOCKS = 0
     then map_option concat (those (map (hash_pairs platform BATCH_HASH_NUM_BLOCKS)
       (take (num_pairs div BATCH_HASH_NUM_BLOCKS)
         (fst (as_chunks BATCH_HASH_NUM_LEAVES level_hashes)))))
     else Some (map (\<lambda>pair. hash_pair_block platform (concat pair))
       (take num_pairs (fst (as_chunks (BLOCK_LEN div OUT_LEN) level_hashes)))))"

text \<open>
  The tree is written front to back; \<open>remaining\<close> is the length of the part not yet written. The
  parents are read as the next level only when all of them were written.
\<close>

function init_loop :: "Platform \<Rightarrow> nat \<Rightarrow> hash list \<Rightarrow> hash list \<Rightarrow> hash list option" where
  "init_loop platform remaining level_hashes tree =
    (if length level_hashes \<le> 1 then Some tree
     else let num_pairs = length level_hashes div 2 in
       if num_pairs \<le> remaining then
         (case level_parents platform level_hashes num_pairs of
            None \<Rightarrow> None
          | Some parent_hashes \<Rightarrow>
              if length parent_hashes = num_pairs
              then init_loop platform (remaining - num_pairs) parent_hashes (tree @ parent_hashes)
              else None)
       else None)"
  by pat_completeness auto
termination by (relation "measure (\<lambda>(platform, remaining, level, tree). length level)") auto

declare init_loop.simps [simp del]

definition init_internal :: "Platform \<Rightarrow> hash list \<Rightarrow> nat \<Rightarrow> hash list option" where
  "init_internal platform leaves tree_len = init_loop platform tree_len leaves []"

definition balanced_new :: "Platform \<Rightarrow> hash list \<Rightarrow> BalancedMerkleTree option" where
  "balanced_new platform leaves = do {
    let n = length leaves;
    _ \<leftarrow> ensure_supported_n n;
    tree \<leftarrow> init_internal platform leaves (n - 1);
    rust_assert (length tree = n - 1);
    Some \<lparr> bmt_leaves = leaves, bmt_tree = tree \<rparr>
  }"

definition balanced_new_in :: "Platform \<Rightarrow> hash list \<Rightarrow> BalancedMerkleTree option" where
  "balanced_new_in platform leaves = do {
    let n = length leaves;
    _ \<leftarrow> ensure_supported_n n;
    let instance = \<lparr> bmt_leaves = leaves, bmt_tree = [] \<rparr>;
    tree \<leftarrow> init_internal platform leaves (n - 1);
    rust_assert (length tree = n - 1);
    Some (instance \<lparr> bmt_tree := tree \<rparr>)
  }"

definition balanced_new_boxed :: "Platform \<Rightarrow> hash list \<Rightarrow> BalancedMerkleTree option" where
  "balanced_new_boxed platform leaves = balanced_new_in platform leaves"

subsection \<open>Root\<close>

text \<open>The loop over the active levels, on batches.\<close>

primrec batch_merge :: "Platform \<Rightarrow> hash list list \<Rightarrow> hash list \<Rightarrow> hash list option" where
  "batch_merge platform [] current = Some current"
| "batch_merge platform (parent # parents) current = do {
    current \<leftarrow> hash_pairs platform BATCH_HASH_NUM_BLOCKS (parent @ current);
    batch_merge platform parents current
  }"

primrec batch_loop ::
  "Platform \<Rightarrow> hash list list \<Rightarrow> nat \<Rightarrow> hash list list \<Rightarrow> hash list list option" where
  "batch_loop platform [] num_chunks stack = Some stack"
| "batch_loop platform (chunk_leaves # chunks) num_chunks stack = do {
    current \<leftarrow> hash_pairs platform BATCH_HASH_NUM_BLOCKS chunk_leaves;
    let lowest_active_levels = trailing_ones (of_nat num_chunks :: u64);
    rust_assert (lowest_active_levels \<le> length stack);
    current \<leftarrow> batch_merge platform (take lowest_active_levels stack) current;
    rust_assert (lowest_active_levels < length stack);
    batch_loop platform chunks (num_chunks + 1) (stack[lowest_active_levels := current])
  }"

definition balanced_compute_root_only :: "Platform \<Rightarrow> hash list \<Rightarrow> hash option" where
  "balanced_compute_root_only platform leaves =
    (let n = length leaves in
     if n = 2 then do {
       hs \<leftarrow> hash_pairs platform 1 leaves;
       Some (hs ! 0)
     }
     else if n = 4 then do {
       hs \<leftarrow> hash_pairs platform 2 leaves;
       hs \<leftarrow> hash_pairs platform 1 hs;
       Some (hs ! 0)
     }
     else if n = 8 then do {
       hs \<leftarrow> hash_pairs platform 4 leaves;
       hs \<leftarrow> hash_pairs platform 2 hs;
       hs \<leftarrow> hash_pairs platform 1 hs;
       Some (hs ! 0)
     }
     else if n = 16 then do {
       hs \<leftarrow> hash_pairs platform 8 leaves;
       hs \<leftarrow> hash_pairs platform 4 hs;
       hs \<leftarrow> hash_pairs platform 2 hs;
       hs \<leftarrow> hash_pairs platform 1 hs;
       Some (hs ! 0)
     }
     else do {
       rust_assert (n \<ge> BATCH_HASH_NUM_LEAVES);
       size \<leftarrow> compute_root_only_large_stack_size n;
       stack \<leftarrow> batch_loop platform (fst (as_chunks BATCH_HASH_NUM_LEAVES leaves)) 0
         (replicate size (replicate BATCH_HASH_NUM_BLOCKS (replicate OUT_LEN 0)));
       hs \<leftarrow> hash_pairs platform (BATCH_HASH_NUM_BLOCKS div 2) (stack ! (size - 1));
       hs \<leftarrow> hash_pairs platform (BATCH_HASH_NUM_BLOCKS div 4) hs;
       hs \<leftarrow> hash_pairs platform (BATCH_HASH_NUM_BLOCKS div 8) hs;
       hs \<leftarrow> hash_pairs platform (BATCH_HASH_NUM_BLOCKS div 16) hs;
       Some (hs ! 0)
     })"

definition balanced_root :: "BalancedMerkleTree \<Rightarrow> hash option" where
  "balanced_root self =
    (if bmt_tree self \<noteq> [] then Some (last (bmt_tree self))
     else if bmt_leaves self \<noteq> [] then Some (last (bmt_leaves self)) else None)"

subsection \<open>Proofs\<close>

record ProofsIterator =
  it_leaves :: "hash list"
  it_tree :: "hash list"
  it_leaf_index :: nat
  it_len :: nat

definition all_proofs :: "BalancedMerkleTree \<Rightarrow> ProofsIterator" where
  "all_proofs self = \<lparr> it_leaves = bmt_leaves self, it_tree = bmt_tree self, it_leaf_index = 0,
    it_len = length (bmt_leaves self) \<rparr>"

text \<open>The part of a proof above the leaves; the first argument counts the entries to write.\<close>

primrec shared_proof :: "nat \<Rightarrow> hash list \<Rightarrow> nat \<Rightarrow> nat \<Rightarrow> hash list option" where
  "shared_proof 0 tree_hashes parent_position parent_level_size = Some []"
| "shared_proof (Suc n) tree_hashes parent_position parent_level_size = do {
    other_hash \<leftarrow> get_unchecked tree_hashes (parent_position XOR 1);
    rust_assert (parent_level_size \<le> length tree_hashes);
    rest \<leftarrow> shared_proof n (drop parent_level_size tree_hashes) (parent_position div 2)
      (parent_level_size div 2);
    Some (other_hash # rest)
  }"

definition proofs_next :: "ProofsIterator \<Rightarrow> (hash list option \<times> ProofsIterator) option" where
  "proofs_next self =
    (if it_len self = 0 then Some (None, self)
     else do {
       let index = it_leaf_index self;
       let n = length (it_leaves self);
       sibling_hash \<leftarrow> get_unchecked (it_leaves self) (index XOR 1);
       levels \<leftarrow> ilog2 n;
       rust_assert (0 < levels);
       shared \<leftarrow> shared_proof (levels - 1) (it_tree self) (index div 2) (n div 2);
       Some (Some (sibling_hash # shared),
         self \<lparr> it_len := it_len self - 1, it_leaf_index := index + 1 \<rparr>)
     })"

definition proofs_size_hint :: "ProofsIterator \<Rightarrow> nat \<times> nat option" where
  "proofs_size_hint self = (it_len self, Some (it_len self))"

definition proofs_count :: "ProofsIterator \<Rightarrow> nat" where
  "proofs_count self = it_len self"

definition proofs_last :: "ProofsIterator \<Rightarrow> hash list option option" where
  "proofs_last self =
    (if it_len self = 0 then Some None
     else map_option fst (proofs_next
       (self \<lparr> it_leaf_index := length (it_leaves self) - 1, it_len := 1 \<rparr>)))"

text \<open>\<open>Inr\<close> is \<open>Ok\<close>; \<open>Inl\<close> carries the number of steps that could not be made.\<close>

definition proofs_advance_by :: "ProofsIterator \<Rightarrow> nat \<Rightarrow> (nat + unit) \<times> ProofsIterator" where
  "proofs_advance_by self n =
    (let advance = min n (it_len self) in
     (if n - advance \<noteq> 0 then Inl (n - advance) else Inr (),
      self \<lparr> it_leaf_index := it_leaf_index self + advance, it_len := it_len self - advance \<rparr>))"

definition proofs_nth :: "ProofsIterator \<Rightarrow> nat \<Rightarrow> (hash list option \<times> ProofsIterator) option" where
  "proofs_nth self n =
    (case proofs_advance_by self n of
       (Inr _, self) \<Rightarrow> proofs_next self
     | (Inl _, self) \<Rightarrow> Some (None, self))"

definition proofs_len :: "ProofsIterator \<Rightarrow> nat" where
  "proofs_len self = it_len self"

subsection \<open>Verification\<close>

primrec fold_proof :: "Platform \<Rightarrow> hash list \<Rightarrow> hash \<Rightarrow> nat \<Rightarrow> hash" where
  "fold_proof platform [] computed_root position = computed_root"
| "fold_proof platform (h # prf) computed_root position =
    fold_proof platform prf
      (if even position then hash_pair platform computed_root h
       else hash_pair platform h computed_root) (position div 2)"

definition balanced_verify :: "Platform \<Rightarrow> nat \<Rightarrow> hash \<Rightarrow> hash list \<Rightarrow> nat \<Rightarrow> hash \<Rightarrow> bool" where
  "balanced_verify platform n expected prf leaf_index leaf =
    (if leaf_index \<ge> n then False
     else expected = fold_proof platform prf leaf leaf_index)"

lemmas batch_consts = BATCH_HASH_NUM_BLOCKS_def BATCH_HASH_NUM_LEAVES_def BLOCK_LEN_def OUT_LEN_def

section \<open>Levels of a perfect tree\<close>

function tree_levels :: "('h \<Rightarrow> 'h \<Rightarrow> 'h) \<Rightarrow> 'h list \<Rightarrow> 'h list" where
  "tree_levels hp xs =
    (if length xs \<le> 1 then [] else pair_up hp xs @ tree_levels hp (pair_up hp xs))"
  by pat_completeness auto
termination by (relation "measure (\<lambda>(hp, xs). length xs)") auto

declare tree_levels.simps [simp del]

lemma pow_Suc_greater: "1 < (2 :: nat) ^ Suc j"
  by (induction j) simp_all

lemma length_pow_greater: "length xs = 2 ^ Suc j \<Longrightarrow> \<not> length xs \<le> 1"
  using pow_Suc_greater [of j] by simp

lemma tree_levels_Suc:
  "length xs = 2 ^ Suc j \<Longrightarrow> tree_levels hp xs = pair_up hp xs @ tree_levels hp (pair_up hp xs)"
  by (subst tree_levels.simps) (use length_pow_greater [of xs j] in auto)

lemma tree_levels_1: "length xs = 1 \<Longrightarrow> tree_levels hp xs = []"
  by (simp add: tree_levels.simps)

lemma length_pair_up_pow: "length xs = 2 ^ Suc j \<Longrightarrow> length (pair_up hp xs) = 2 ^ j"
  by simp

lemma length_tree_levels: "length xs = 2 ^ j \<Longrightarrow> length (tree_levels hp xs) = 2 ^ j - 1"
proof (induction j arbitrary: xs)
  case (Suc j)
  have "length (tree_levels hp xs) = 2 ^ j + (2 ^ j - 1)"
    using Suc.IH [OF length_pair_up_pow [OF Suc.prems]] length_pair_up_pow [OF Suc.prems]
    by (simp add: tree_levels_Suc [OF Suc.prems] del: length_pair_up)
  then show ?case by simp
qed (simp add: tree_levels_1)

lemma level_root_1: "length xs = 1 \<Longrightarrow> level_root hp xs = xs ! 0"
  by (cases xs) simp_all

lemma level_root_Suc: "length xs = 2 ^ Suc j \<Longrightarrow> level_root hp xs = level_root hp (pair_up hp xs)"
  by (rule level_root_pair_up [symmetric]) (use length_pow_greater [of xs j] in simp)

lemma last_tree_levels:
  "length xs = 2 ^ Suc j \<Longrightarrow> tree_levels hp xs \<noteq> [] \<and> last (tree_levels hp xs) = level_root hp xs"
proof (induction j arbitrary: xs)
  case 0
  then have "length (pair_up hp xs) = Suc 0" by simp
  then obtain r where "pair_up hp xs = [r]" unfolding length_Suc_conv by auto
  then show ?case
    using 0 by (simp add: tree_levels_Suc [of xs 0] level_root_Suc [of xs 0] tree_levels_1)
next
  case (Suc j)
  note up = Suc.IH [OF length_pair_up_pow [OF Suc.prems]]
  then show ?case
    by (simp only: tree_levels_Suc [OF Suc.prems] level_root_Suc [OF Suc.prems]) simp
qed

section \<open>Construction\<close>

lemma fst_as_chunks_take:
  assumes "0 < n" and "length xs = n * m"
  shows "concat (fst (as_chunks n xs)) = xs" and "\<forall>c\<in>set (fst (as_chunks n xs)). length c = n"
    and "length (fst (as_chunks n xs)) = m"
    and "c \<in> set (fst (as_chunks n xs)) \<Longrightarrow> set c \<subseteq> set xs"
proof -
  note parts = as_chunks_parts [OF assms(1), of xs]
  let ?cs = "fst (as_chunks n xs)" and ?r = "snd (as_chunks n xs)"
  show each: "\<forall>c\<in>set ?cs. length c = n" using parts by blast
  have "n * length ?cs + length ?r = n * m"
    using parts assms(2) length_concat_same [OF each] by (metis length_append)
  moreover have "length ?r < n" using parts by blast
  ultimately have "?r = []" and "length ?cs = m"
    using assms(1)
    by (metis add.commute length_0_conv mod_less mod_mult_self1_is_0 mod_mult_self4,
        metis add.commute add_cancel_right_right div_less div_mult_self4 less_numeral_extra(3)
          nonzero_mult_div_cancel_left)
  then show "length ?cs = m" and xs: "concat ?cs = xs" using parts by simp_all
  show "set c \<subseteq> set xs" if "c \<in> set ?cs" using that by (subst xs [symmetric]) auto
qed

lemma pair_up_concat:
  "\<forall>c\<in>set cs. even (length c) \<Longrightarrow> pair_up hp (concat cs) = concat (map (pair_up hp) cs)"
  by (induction cs) (simp_all add: pair_up_append)

lemma those_map_Some: "(\<And>x. x \<in> set xs \<Longrightarrow> f x = Some (g x)) \<Longrightarrow> those (map f xs) = Some (map g xs)"
  by (induction xs) simp_all

lemma pair_blocks:
  "\<forall>c\<in>set cs. length c = 2 \<Longrightarrow>
    map (\<lambda>pair. hash_pair_block platform (concat pair)) cs =
    pair_up (hash_pair platform) (concat cs)"
proof (induction cs)
  case (Cons c cs)
  then obtain x y where "c = [x, y]" by (auto simp: numeral_2_eq_2 length_Suc_conv)
  with Cons show ?case by (simp add: hash_pair_block_eq)
qed simp

context blake3_platform
begin

lemma level_parents_eq:
  assumes "hashes level" and "even (length level)"
  shows "level_parents platform level (length level div 2) = Some (pair_up (hash_pair platform) level)"
proof (cases "length level div 2 mod 16 = 0")
  case True
  then obtain m where m: "length level = 32 * m" using assms(2) by (elim evenE) auto
  note chunks = fst_as_chunks_take [OF _ m]
  let ?cs = "fst (as_chunks 32 level)"
  have "hash_pairs platform 16 c = Some (pair_up (hash_pair platform) c)" if "c \<in> set ?cs" for c
  proof (rule hps_pair_up)
    have "set c \<subseteq> set level" using that by (intro chunks(4)) simp_all
    with assms(1) show "hashes c" by blast
  qed (use chunks(2) that in simp)
  then have "those (map (hash_pairs platform 16) ?cs) = Some (map (pair_up (hash_pair platform)) ?cs)"
    by (rule those_map_Some)
  moreover have "length level div 2 div 16 = length ?cs" using m chunks(3) by simp
  moreover have "concat (map (pair_up (hash_pair platform)) ?cs) = pair_up (hash_pair platform) level"
    using pair_up_concat [of ?cs "hash_pair platform"] chunks by simp
  ultimately show ?thesis using True by (simp add: level_parents_def batch_consts)
next
  case False
  obtain m where m: "length level = 2 * m" using assms(2) by (elim evenE)
  note chunks = fst_as_chunks_take [OF _ m]
  show ?thesis
    using False m chunks pair_blocks [of "fst (as_chunks 2 level)" platform]
    by (simp add: level_parents_def batch_consts)
qed

lemma init_loop_eq:
  "hashes level \<Longrightarrow> length level = 2 ^ j \<Longrightarrow> 2 ^ j - 1 \<le> remaining \<Longrightarrow>
    init_loop platform remaining level tree = Some (tree @ tree_levels (hash_pair platform) level)"
proof (induction j arbitrary: level remaining tree)
  case 0
  then show ?case by (subst init_loop.simps) (simp add: tree_levels_1)
next
  case (Suc j)
  let ?up = "pair_up (hash_pair platform) level"
  have parents: "level_parents platform level (2 ^ j) = Some ?up"
    using level_parents_eq [OF Suc.prems(1)] Suc.prems(2) by simp
  have "init_loop platform (remaining - 2 ^ j) ?up (tree @ ?up) =
      Some ((tree @ ?up) @ tree_levels (hash_pair platform) ?up)"
    using Suc.prems by (intro Suc.IH hashes_pair_up) simp_all
  moreover have "1 < length level" using length_pow_greater [OF Suc.prems(2)] by simp
  moreover have "(2 :: nat) ^ j \<le> remaining" using Suc.prems(3) one_le_power [of "2::nat" j] by simp
  ultimately show ?case
    using Suc.prems(2) parents
    by (subst init_loop.simps) (simp add: Let_def tree_levels_Suc)
qed

lemma balanced_new_eq:
  assumes "hashes leaves" and "length leaves = 2 ^ Suc j"
  shows "balanced_new platform leaves =
    Some \<lparr> bmt_leaves = leaves, bmt_tree = tree_levels (hash_pair platform) leaves \<rparr>"
proof -
  have "ensure_supported_n (2 ^ Suc j) = Some 0"
    by (simp add: ensure_supported_n_def is_power_of_two_def ceillog2_2_power [of "Suc j", simplified]
        pow_Suc_greater [of j, simplified])
  with assms show ?thesis
    by (simp add: balanced_new_def Let_def init_internal_def init_loop_eq [OF assms]
        length_tree_levels [OF assms(2)] del: power_Suc)
qed

end

section \<open>Root in batches\<close>

definition batch_pair :: "('h \<Rightarrow> 'h \<Rightarrow> 'h) \<Rightarrow> 'h list \<Rightarrow> 'h list \<Rightarrow> 'h list" where
  "batch_pair hp a b = pair_up hp (a @ b)"

abbreviation is_batch :: "hash list \<Rightarrow> bool" where
  "is_batch a \<equiv> length a = 16 \<and> hashes a"

text \<open>Joining batches pairs up the hashes across all of them.\<close>

lemma concat_batch_pairs:
  "\<forall>a\<in>set as. length a = 16 \<Longrightarrow> even (length as) \<Longrightarrow>
    concat (pair_up (batch_pair hp) as) = pair_up hp (concat as)"
proof (induction "batch_pair hp" as rule: pair_up.induct)
  case (1 x y zs)
  then have "pair_up hp ((x @ y) @ concat zs) = pair_up hp (x @ y) @ pair_up hp (concat zs)"
    by (intro pair_up_append) simp
  with 1 show ?case by (simp add: batch_pair_def)
qed simp_all

lemma length_batch_pairs:
  "\<forall>a\<in>set as. length a = 16 \<Longrightarrow> \<forall>a\<in>set (pair_up (batch_pair hp) as). length a = 16"
  by (induction "batch_pair hp" as rule: pair_up.induct) (simp_all add: batch_pair_def)

lemma batch_root_step:
  assumes "\<forall>a\<in>set as. length a = 16" and "length as = 2 ^ Suc m"
  shows "level_root hp (concat as) = level_root hp (concat (pair_up (batch_pair hp) as))"
proof -
  have "length (concat as) = 2 ^ Suc (m + 4)"
    using length_concat_same [OF assms(1)] assms(2) by (simp add: power_add)
  then have "level_root hp (concat as) = level_root hp (pair_up hp (concat as))"
    by (rule level_root_Suc)
  then show ?thesis using concat_batch_pairs [OF assms(1)] assms(2) by simp
qed

lemma batch_root:
  "\<forall>a\<in>set as. length a = 16 \<Longrightarrow> length as = 2 ^ m \<Longrightarrow>
    length (level_root (batch_pair hp) as) = 16 \<and>
    level_root hp (level_root (batch_pair hp) as) = level_root hp (concat as)"
proof (induction m arbitrary: as)
  case 0
  then obtain a where "as = [a]" by (auto simp: length_Suc_conv)
  with 0 show ?case by simp
next
  case (Suc m)
  let ?up = "pair_up (batch_pair hp) as"
  have "length ?up = 2 ^ m" by (rule length_pair_up_pow) (rule Suc.prems)
  with Suc.IH [OF length_batch_pairs [OF Suc.prems(1), of hp]]
  have up: "length (level_root (batch_pair hp) ?up) = 16"
    "level_root hp (level_root (batch_pair hp) ?up) = level_root hp (concat ?up)" by simp_all
  then show ?case
    by (simp only: level_root_Suc [OF Suc.prems(2), of "batch_pair hp"]
        batch_root_step [OF Suc.prems, of hp])
qed

text \<open>A full counter holds its root at the top level.\<close>

lemma represents_full:
  "represents hp st xs \<Longrightarrow> length xs = 2 ^ m \<Longrightarrow> m < length st \<Longrightarrow> st ! m = level_root hp xs"
proof (induction m arbitrary: st xs)
  case 0
  then obtain x s st' where "xs = [x]" "st = s # st'" by (cases st) (auto simp: length_Suc_conv)
  with 0 show ?case by simp
next
  case (Suc m)
  then obtain s st' where st: "st = s # st'" by (cases st) simp_all
  have "full_pairs hp xs = pair_up hp xs" using Suc.prems(2) by (simp add: pair_up_eq)
  with Suc.IH [of st' "pair_up hp xs"] Suc.prems st have "st' ! m = level_root hp (pair_up hp xs)"
    by simp
  with st show ?case by (simp add: level_root_Suc [OF Suc.prems(2)])
qed

lemma ilog2_pow [simp]: "ilog2 (2 ^ m) = Some m"
  using floorlog_power [of 1 2 m] by (simp add: ilog2_def compute_floorlog)

context blake3_platform
begin

lemma is_batch_pair: "is_batch a \<Longrightarrow> is_batch b \<Longrightarrow> is_batch (batch_pair (hash_pair platform) a b)"
  using hashes_pair_up [of "a @ b"] by (auto simp: batch_pair_def)

lemma batch_merge_eq:
  "\<forall>a\<in>set ps. is_batch a \<Longrightarrow> is_batch c \<Longrightarrow>
    batch_merge platform ps c = Some (fold (batch_pair (hash_pair platform)) ps c) \<and>
    is_batch (fold (batch_pair (hash_pair platform)) ps c)"
proof (induction ps arbitrary: c)
  case (Cons a ps)
  have a: "is_batch a" "\<forall>a\<in>set ps. is_batch a" using Cons.prems(1) by simp_all
  then have "hashes (a @ c)" "length (a @ c) = 2 * 16" using Cons.prems(2) by auto
  then have pairs: "hash_pairs platform 16 (a @ c) = Some (batch_pair (hash_pair platform) a c)"
    unfolding batch_pair_def by (rule hps_pair_up)
  from Cons.IH [OF a(2) is_batch_pair [OF a(1) Cons.prems(2)]] show ?case
    unfolding batch_merge.simps BATCH_HASH_NUM_BLOCKS_def pairs by simp
qed simp

lemma batch_loop_eq:
  "represents (batch_pair (hash_pair platform)) st (map (pair_up (hash_pair platform)) xs) \<Longrightarrow>
    \<forall>a\<in>set st. is_batch a \<Longrightarrow> \<forall>c\<in>set cs. length c = 32 \<and> hashes c \<Longrightarrow>
    length xs + length cs \<le> 2 ^ m \<Longrightarrow> m < 64 \<Longrightarrow> length st = m + 1 \<Longrightarrow>
    \<exists>st'. batch_loop platform cs (length xs) st = Some st' \<and> length st' = m + 1 \<and>
      (\<forall>a\<in>set st'. is_batch a) \<and>
      represents (batch_pair (hash_pair platform)) st'
        (map (pair_up (hash_pair platform)) (xs @ cs))"
proof (induction cs arbitrary: xs st)
  case (Cons c cs)
  let ?hp = "hash_pair platform" and ?n = "length xs" and ?k = "nat_ones (length xs)"
  let ?st = "push (batch_pair ?hp) st ?n (pair_up ?hp c)"
  have "?n + 1 < 2 ^ (m + 1)" using Cons.prems(4) by simp
  then have fits: "?k < length st" using nat_ones_less [of ?n "m + 1"] Cons.prems(6) by simp
  have "(2 :: nat) ^ m < 2 ^ 64" using Cons.prems(5) by (intro power_strict_increasing) simp_all
  then have "?n < 2 ^ 64" using Cons.prems(4) by simp
  then have ones: "trailing_ones (of_nat ?n :: u64) = ?k"
    by (simp add: trailing_ones_unat unat_of_nat)
  have c: "hash_pairs platform 16 c = Some (pair_up ?hp c)" "is_batch (pair_up ?hp c)"
    using Cons.prems(3) hashes_pair_up [of c] by (simp_all add: hps_pair_up)
  have active: "\<forall>a\<in>set (take ?k st). is_batch a"
    using Cons.prems(2) set_take_subset [of ?k st] by blast
  note merged = batch_merge_eq [OF active c(2)]
  have "represents (batch_pair ?hp) ?st (map (pair_up ?hp) (xs @ [c]))"
    using represents_push [OF Cons.prems(1)] fits by simp
  moreover have "\<forall>a\<in>set ?st. is_batch a"
    using Cons.prems(2) merged set_update_subset_insert [of st ?k]
    unfolding push_eq [OF fits, symmetric] by blast
  ultimately obtain st' where "batch_loop platform cs (length (xs @ [c])) ?st = Some st'"
    "length st' = m + 1" "\<forall>a\<in>set st'. is_batch a"
    "represents (batch_pair ?hp) st' (map (pair_up ?hp) ((xs @ [c]) @ cs))"
    using Cons.IH [of ?st "xs @ [c]"] Cons.prems(3-6) by auto
  moreover have "batch_loop platform (c # cs) ?n st =
      batch_loop platform cs (length (xs @ [c])) ?st"
    using merged c(1) fits ones push_eq [OF fits, of "batch_pair ?hp" "pair_up ?hp c"]
    by (simp add: batch_consts)
  ultimately show ?case by auto
qed simp

lemma collapse_2:
  assumes "hashes xs" and "length xs = 2"
  shows "hash_pairs platform (Suc 0) xs \<bind> (\<lambda>hs. Some (hs ! 0)) =
    Some (level_root (hash_pair platform) xs)"
proof -
  obtain a b where "xs = [a, b]" using assms(2) by (auto simp: numeral_2_eq_2 length_Suc_conv)
  moreover have "level_root (hash_pair platform) [a, b] = hash_pair platform a b"
    by (simp add: level_root.simps [of _ "[a, b]"])
  ultimately show ?thesis using hps_pair_up [OF assms(1), of 1] by simp
qed

lemma collapse_step:
  assumes "hashes xs" and "length xs = 2 * n" and "1 < n"
  shows "hash_pairs platform n xs = Some (pair_up (hash_pair platform) xs)"
    and "hashes (pair_up (hash_pair platform) xs)" and "length (pair_up (hash_pair platform) xs) = n"
    and "level_root (hash_pair platform) (pair_up (hash_pair platform) xs) =
      level_root (hash_pair platform) xs"
  using assms by (simp_all add: hps_pair_up hashes_pair_up level_root_pair_up)

lemma collapse_4:
  assumes "hashes xs" and "length xs = 4"
  shows "hash_pairs platform 2 xs \<bind> (\<lambda>hs. hash_pairs platform (Suc 0) hs \<bind> (\<lambda>hs. Some (hs ! 0))) =
    Some (level_root (hash_pair platform) xs)"
  using collapse_step [of xs 2] collapse_2 [of "pair_up (hash_pair platform) xs"] assms by simp

lemma collapse_8:
  assumes "hashes xs" and "length xs = 8"
  shows "hash_pairs platform 4 xs \<bind> (\<lambda>hs. hash_pairs platform 2 hs \<bind>
      (\<lambda>hs. hash_pairs platform (Suc 0) hs \<bind> (\<lambda>hs. Some (hs ! 0)))) =
    Some (level_root (hash_pair platform) xs)"
  using collapse_step [of xs 4] collapse_4 [of "pair_up (hash_pair platform) xs"] assms by simp

lemma collapse_16:
  assumes "hashes xs" and "length xs = 16"
  shows "hash_pairs platform 8 xs \<bind> (\<lambda>hs. hash_pairs platform 4 hs \<bind>
      (\<lambda>hs. hash_pairs platform 2 hs \<bind>
        (\<lambda>hs. hash_pairs platform (Suc 0) hs \<bind> (\<lambda>hs. Some (hs ! 0))))) =
    Some (level_root (hash_pair platform) xs)"
  using collapse_step [of xs 8] collapse_8 [of "pair_up (hash_pair platform) xs"] assms by simp

lemma batched_root:
  assumes "hashes leaves" and len: "length leaves = 32 * 2 ^ m" and "m < 64"
  shows "\<exists>stack. batch_loop platform (fst (as_chunks 32 leaves)) 0
      (replicate (m + 1) (replicate 16 (replicate 32 0))) = Some stack \<and>
    is_batch (stack ! m) \<and>
    level_root (hash_pair platform) (stack ! m) = level_root (hash_pair platform) leaves"
proof -
  let ?hp = "hash_pair platform" and ?cs = "fst (as_chunks 32 leaves)"
  let ?as = "map (pair_up ?hp) ?cs"
  note chunks = fst_as_chunks_take [OF _ len, simplified]
  have cs: "\<forall>c\<in>set ?cs. length c = 32 \<and> hashes c"
    using chunks(2) chunks(4) assms(1) by blast
  have init: "\<forall>a\<in>set (replicate (m + 1) (replicate 16 (replicate 32 (0 :: u8)))). is_batch a"
    by simp
  obtain stack where stack: "batch_loop platform ?cs (length ([] :: hash list list))
      (replicate (m + 1) (replicate 16 (replicate 32 0))) = Some stack" "length stack = m + 1"
    "\<forall>a\<in>set stack. is_batch a" "represents (batch_pair ?hp) stack (map (pair_up ?hp) ([] @ ?cs))"
    using batch_loop_eq [OF _ init cs _ assms(3), of "[]"] chunks(3)
    by (auto simp: represents_Nil)
  have top: "stack ! m = level_root (batch_pair ?hp) ?as"
    using represents_full [OF stack(4)] chunks(3) stack(2) by simp
  have as: "\<forall>a\<in>set ?as. length a = 16" "length ?as = 2 ^ m" using cs chunks(3) by simp_all
  note root = batch_root [OF as, of ?hp]
  have "concat ?as = pair_up ?hp leaves" using pair_up_concat [of ?cs ?hp] cs chunks(1) by simp
  moreover have "level_root ?hp (pair_up ?hp leaves) = level_root ?hp leaves"
    using level_root_Suc [of leaves "m + 4" ?hp] len by (simp add: power_add)
  ultimately have "level_root ?hp (stack ! m) = level_root ?hp leaves" using root top by simp
  moreover have "is_batch (stack ! m)" using stack(2) by (intro bspec [OF stack(3)]) simp
  ultimately show ?thesis using stack(1) by auto
qed

lemma balanced_compute_root_only_eq:
  assumes "hashes leaves" and "length leaves = 2 ^ Suc j" and "j < 63"
  shows "balanced_compute_root_only platform leaves = Some (level_root (hash_pair platform) leaves)"
proof (cases "j < 4")
  case True
  then consider "j = 0" | "j = 1" | "j = 2" | "j = 3" by linarith
  then show ?thesis
    by cases (use assms collapse_2 [of leaves] collapse_4 [of leaves] collapse_8 [of leaves]
        collapse_16 [of leaves] in \<open>simp_all add: balanced_compute_root_only_def\<close>)
next
  case False
  then obtain m where j: "j = m + 4" using le_Suc_ex [of 4 j] by auto
  with assms(2) have len: "length leaves = 32 * 2 ^ m" by (simp add: power_add)
  have big: "(32 :: nat) \<le> 32 * 2 ^ m" by simp
  obtain stack where stack: "batch_loop platform (fst (as_chunks 32 leaves)) 0
      (replicate (m + 1) (replicate 16 (replicate 32 0))) = Some stack" "is_batch (stack ! m)"
    "level_root (hash_pair platform) (stack ! m) = level_root (hash_pair platform) leaves"
    using batched_root [OF assms(1) len] assms(3) j by auto
  have size: "compute_root_only_large_stack_size (length leaves) = Some (m + 1)"
    by (simp add: compute_root_only_large_stack_size_def batch_consts len)
  have "balanced_compute_root_only platform leaves =
      hash_pairs platform 8 (stack ! m) \<bind> (\<lambda>hs. hash_pairs platform 4 hs \<bind>
        (\<lambda>hs. hash_pairs platform 2 hs \<bind>
          (\<lambda>hs. hash_pairs platform (Suc 0) hs \<bind> (\<lambda>hs. Some (hs ! 0)))))"
    using len big size stack(1)
    by (simp add: balanced_compute_root_only_def Let_def batch_consts del: replicate_Suc)
  with collapse_16 [of "stack ! m"] stack(2,3) show ?thesis by simp
qed

end

section \<open>Proofs\<close>

lemma xor_1_nat: "i XOR 1 = (if odd i then i - 1 else i + 1)" for i :: nat
  by (simp add: xor_Suc_0_eq)

lemma xor_1_less: "i < 2 ^ Suc j \<Longrightarrow> i XOR 1 < 2 ^ Suc j" for i :: nat
  unfolding xor_1_nat by (auto elim!: evenE)

lemma level_path_pow:
  assumes "length xs = 2 ^ Suc j" and "i < 2 ^ Suc j"
  shows "level_path hp xs i = xs ! (i XOR 1) # level_path hp (pair_up hp xs) (i div 2)"
proof (cases "odd i")
  case True
  with assms length_pow_greater [OF assms(1)] show ?thesis
    unfolding xor_1_nat by (subst level_path_steps(2)) simp_all
next
  case False
  then have "i + 1 < length xs" using xor_1_less [OF assms(2)] assms(1) unfolding xor_1_nat by simp
  with False show ?thesis unfolding xor_1_nat by (subst level_path_steps(3)) simp_all
qed

lemma length_level_path_pow:
  "length xs = 2 ^ Suc j \<Longrightarrow> i < 2 ^ Suc j \<Longrightarrow> length (level_path hp xs i) = Suc j"
proof (induction j arbitrary: xs i)
  case 0
  then show ?case by (simp add: level_path_pow [of xs 0] level_path_steps(1))
next
  case (Suc j)
  then show ?case
    using Suc.IH [OF length_pair_up_pow [OF Suc.prems(1)], of "i div 2"]
    by (simp add: level_path_pow [OF Suc.prems])
qed

lemma shared_proof_eq:
  "length xs = 2 ^ Suc n \<Longrightarrow> i < 2 ^ n \<Longrightarrow>
    shared_proof n (tree_levels hp xs) i (2 ^ n) = Some (level_path hp (pair_up hp xs) i)"
proof (induction n arbitrary: xs i)
  case 0
  then show ?case by (simp add: level_path_steps(1))
next
  case (Suc n)
  note up = length_pair_up_pow [OF Suc.prems(1), of hp]
  have "tree_levels hp xs ! (i XOR 1) = pair_up hp xs ! (i XOR 1)"
    "i XOR 1 < length (tree_levels hp xs)" "2 ^ Suc n \<le> length (tree_levels hp xs)"
    "drop (2 ^ Suc n) (tree_levels hp xs) = tree_levels hp (pair_up hp xs)"
    using xor_1_less [OF Suc.prems(2)] up
    by (simp_all only: tree_levels_Suc [OF Suc.prems(1)] nth_append length_append) simp_all
  moreover have "shared_proof n (tree_levels hp (pair_up hp xs)) (i div 2) (2 ^ n) =
      Some (level_path hp (pair_up hp (pair_up hp xs)) (i div 2))"
    by (rule Suc.IH [OF up]) (use Suc.prems(2) in simp)
  moreover note level_path_pow [OF up Suc.prems(2), of hp]
  ultimately show ?case by (simp add: get_unchecked_def)
qed

text \<open>The iterator over a tree, before the proof of the leaf with the given index.\<close>

definition proofs_at :: "BalancedMerkleTree \<Rightarrow> nat \<Rightarrow> ProofsIterator" where
  "proofs_at t i = \<lparr> it_leaves = bmt_leaves t, it_tree = bmt_tree t, it_leaf_index = i,
    it_len = length (bmt_leaves t) - i \<rparr>"

definition is_tree :: "Platform \<Rightarrow> BalancedMerkleTree \<Rightarrow> hash list \<Rightarrow> bool" where
  "is_tree platform t leaves \<longleftrightarrow>
    bmt_leaves t = leaves \<and> bmt_tree t = tree_levels (hash_pair platform) leaves"

lemma next_path:
  assumes "is_tree platform t leaves" and len: "length leaves = 2 ^ Suc j" and "i < length leaves"
    and "it_leaves it = leaves" and "it_tree it = bmt_tree t" and "it_leaf_index it = i"
    and "it_len it \<noteq> 0"
  shows "proofs_next it = Some (Some (level_path (hash_pair platform) leaves i),
    it \<lparr> it_len := it_len it - 1, it_leaf_index := i + 1 \<rparr>)"
proof -
  have "i div 2 < 2 ^ j" using assms(3) len by simp
  from shared_proof_eq [OF len this, of "hash_pair platform"]
  have "shared_proof j (bmt_tree t) (i div 2) (length leaves div 2) =
      Some (level_path (hash_pair platform) (pair_up (hash_pair platform) leaves) (i div 2))"
    using assms(1) len by (simp add: is_tree_def)
  moreover have "ilog2 (length leaves) = Some (Suc j)" using ilog2_pow [of "Suc j"] len by simp
  moreover have "level_path (hash_pair platform) leaves i = leaves ! (i XOR 1) #
      level_path (hash_pair platform) (pair_up (hash_pair platform) leaves) (i div 2)"
    by (rule level_path_pow [OF len]) (use assms(3) len in simp)
  moreover have "i XOR 1 < length leaves" using xor_1_less [of i j] assms(3) len by simp
  ultimately show ?thesis
    using assms(4-7) by (simp add: proofs_next_def Let_def get_unchecked_def)
qed

lemma proofs_at_next:
  assumes "is_tree platform t leaves" and "length leaves = 2 ^ Suc j" and "i < length leaves"
  shows "proofs_next (proofs_at t i) =
    Some (Some (level_path (hash_pair platform) leaves i), proofs_at t (i + 1))"
  using next_path [OF assms, of "proofs_at t i"] assms(1,3)
  by (simp add: proofs_at_def is_tree_def)

lemma proofs_at_end: "i \<ge> length (bmt_leaves t) \<Longrightarrow> proofs_next (proofs_at t i) = Some (None, proofs_at t i)"
  by (simp add: proofs_next_def proofs_at_def)

lemma proofs_at_nth:
  assumes "is_tree platform t leaves" and "length leaves = 2 ^ Suc j" and "i \<le> length leaves"
  shows "proofs_nth (proofs_at t i) k =
    Some (if i + k < length leaves
      then (Some (level_path (hash_pair platform) leaves (i + k)), proofs_at t (i + k + 1))
      else (None, proofs_at t (length leaves)))"
proof (cases "i + k \<le> length leaves")
  case True
  then have adv: "proofs_advance_by (proofs_at t i) k = (Inr (), proofs_at t (i + k))"
    using assms(1) by (simp add: proofs_advance_by_def proofs_at_def is_tree_def)
  show ?thesis
  proof (cases "i + k < length leaves")
    case True
    then show ?thesis using adv proofs_at_next [OF assms(1,2) True] by (simp add: proofs_nth_def)
  next
    case False
    with \<open>i + k \<le> length leaves\<close> have "i + k = length leaves" by simp
    then show ?thesis using adv assms(1) proofs_at_end [of t "i + k"]
      by (simp add: proofs_nth_def is_tree_def)
  qed
next
  case False
  then show ?thesis
    using assms(1,3) by (auto simp: proofs_nth_def proofs_advance_by_def proofs_at_def is_tree_def Let_def)
qed

lemma proofs_at_last:
  assumes "is_tree platform t leaves" and len: "length leaves = 2 ^ Suc j" and "i < length leaves"
  shows "proofs_last (proofs_at t i) =
    Some (Some (level_path (hash_pair platform) leaves (length leaves - 1)))"
  using next_path [OF assms(1) len, of "length leaves - 1"
      "(proofs_at t i) \<lparr> it_leaf_index := length leaves - 1, it_len := 1 \<rparr>"] assms
  by (simp add: proofs_last_def proofs_at_def is_tree_def)

section \<open>Verification\<close>

lemma verify_loop_pow:
  "i < 2 ^ k \<Longrightarrow> length pr = k \<Longrightarrow>
    verify_loop platform pr c i (2 ^ k) = Some (fold_proof platform pr c i, [])"
proof (induction k arbitrary: i pr c)
  case 0
  then show ?case by (simp add: verify_loop_steps(1))
next
  case (Suc k)
  then obtain p ps where pr: "pr = p # ps" "length ps = k" by (cases pr) auto
  have half: "(2 ^ Suc k + 1) div 2 = (2 :: nat) ^ k" "i div 2 < 2 ^ k" using Suc.prems(1) by simp_all
  note IH = Suc.IH [OF half(2) pr(2)]
  show ?case
  proof (cases "odd i")
    case True
    with IH half(1) pr(1) show ?thesis
      by (simp only: verify_loop_steps(3) [OF pow_Suc_greater [of k] True] fold_proof.simps if_False)
  next
    case False
    then have "i + 1 < 2 ^ Suc k" using xor_1_less [OF Suc.prems(1)] unfolding xor_1_nat by simp
    from verify_loop_steps(4) [OF pow_Suc_greater [of k] _ this] False IH half(1) pr(1) show ?thesis
      by (simp only: fold_proof.simps) simp
  qed
qed

text \<open>For a power of two, verification accepts exactly what the one of the unbalanced tree accepts.\<close>

lemma balanced_verify_eq:
  assumes "k < 64" and "length pr = k" and "i < 2 ^ 64"
  shows "balanced_verify platform (2 ^ k) rt pr i leaf =
    unbalanced_verify platform rt pr (of_nat i) leaf (of_nat (2 ^ k))"
proof -
  have "(2 :: nat) ^ k < 2 ^ 64" using assms(1) by (intro power_strict_increasing) simp_all
  then have n: "unat (of_nat (2 ^ k) :: u64) = 2 ^ k" by (simp add: unat_of_nat del: of_nat_power)
  have i: "unat (of_nat i :: u64) = i" using assms(3) by (simp add: unat_of_nat)
  have le: "(of_nat (2 ^ k) :: u64) \<le> of_nat i \<longleftrightarrow> 2 ^ k \<le> i"
    unfolding word_le_nat_alt n i ..
  show ?thesis
    using verify_loop_pow [OF _ assms(2), of i]
    by (auto simp: balanced_verify_def unbalanced_verify_def le n i not_le simp del: of_nat_power)
qed

lemma pow_leaves:
  assumes "length xs = 2 ^ Suc j" and "j < 63"
  shows "unat (of_nat (length xs) :: u64) = length xs" and "length xs \<le> 2 ^ 63"
proof -
  have "(2 :: nat) ^ Suc j \<le> 2 ^ 63" using assms(2) by (intro power_increasing) simp_all
  with assms(1) show le: "length xs \<le> 2 ^ 63" by (simp only:)
  then show "unat (of_nat (length xs) :: u64) = length xs" by (simp add: unat_of_nat)
qed

section \<open>Properties\<close>

text \<open>
  C33: For every supported number of leaves the tree is built without a panic, by each of the three
  constructors alike, and its root, the root computed in batches and the root the unbalanced tree
  computes are all that of the reference tree.
\<close>

theorem balanced_roots_agree:
  assumes "blake3_platform platform" and "hashes leaves" and "length leaves = 2 ^ Suc j" and "j < 63"
  shows "(\<exists>t. balanced_new platform leaves = Some t \<and> balanced_new_in platform leaves = Some t \<and>
      balanced_new_boxed platform leaves = Some t \<and>
      balanced_root t = Some (tree_root (hash_pair platform) leaves)) \<and>
    balanced_compute_root_only platform leaves = Some (tree_root (hash_pair platform) leaves) \<and>
    compute_root_only platform (of_nat (length leaves)) leaves =
      Some (Some (tree_root (hash_pair platform) leaves))"
proof -
  have nonempty: "leaves \<noteq> []" using assms(3) by auto
  note root = level_root_eq_tree_root [OF nonempty, of "hash_pair platform"]
  note new = blake3_platform.balanced_new_eq [OF assms(1-3)]
  have same: "balanced_new_in platform leaves = balanced_new platform leaves"
    by (simp add: balanced_new_in_def balanced_new_def Let_def cong: if_cong)
  note n = pow_leaves [OF assms(3,4)]
  show ?thesis
    using new last_tree_levels [OF assms(3), of "hash_pair platform"] nonempty
      blake3_platform.balanced_compute_root_only_eq [OF assms]
      compute_root_only_spec [of "of_nat (length leaves)" platform leaves] n
    by (simp add: same balanced_new_boxed_def balanced_root_def root)
qed

theorem balanced_roots_agree_witness:
  "\<exists>t. balanced_new portable_platform (replicate 32 (replicate 32 5)) = Some t \<and>
    balanced_root t =
      balanced_compute_root_only portable_platform (replicate 32 (replicate 32 5))"
proof -
  have "length (replicate 32 (replicate 32 (5 :: u8))) = 2 ^ Suc 4" by simp
  from balanced_roots_agree [OF portable.blake3_platform_axioms _ this] show ?thesis by force
qed

text \<open>
  C34: The iterator of a tree yields the proofs of all leaves in order and then nothing. Skipping
  forward and asking for the last proof give the proofs that stepping would reach. Each proof is
  the one the unbalanced tree computes, and is accepted by the verification.
\<close>

theorem balanced_proofs_verify:
  assumes "blake3_platform platform" and "hashes leaves" and "length leaves = 2 ^ Suc j" and "j < 63"
    and "balanced_new platform leaves = Some t" and "balanced_root t = Some rt"
    and "i < length leaves"
  shows "all_proofs t = proofs_at t 0 \<and>
    proofs_next (proofs_at t (length leaves)) = Some (None, proofs_at t (length leaves)) \<and>
    (\<exists>prf. proofs_next (proofs_at t i) = Some (Some prf, proofs_at t (i + 1)) \<and>
      proofs_nth (all_proofs t) i = Some (Some prf, proofs_at t (i + 1)) \<and>
      (i = length leaves - 1 \<longrightarrow> proofs_last (all_proofs t) = Some (Some prf)) \<and>
      compute_root_and_proof platform (of_nat (length leaves)) leaves i = Some (Some (rt, prf)) \<and>
      balanced_verify platform (length leaves) rt prf i (leaves ! i))"
proof -
  let ?path = "level_path (hash_pair platform) leaves i"
  have t: "is_tree platform t leaves"
    using blake3_platform.balanced_new_eq [OF assms(1-3)] assms(5) by (simp add: is_tree_def)
  have nonempty: "leaves \<noteq> []" using assms(3) by auto
  then have rt: "rt = tree_root (hash_pair platform) leaves"
    using last_tree_levels [OF assms(3), of "hash_pair platform"] t assms(6)
    by (simp add: balanced_root_def is_tree_def level_root_eq_tree_root)
  have start: "all_proofs t = proofs_at t 0" by (simp add: all_proofs_def proofs_at_def)
  note n = pow_leaves [OF assms(3,4)]
  have path: "length ?path = Suc j" using length_level_path_pow [OF assms(3)] assms(3,7) by simp
  have "unbalanced_verify platform rt ?path (of_nat i) (leaves ! i) (of_nat (length leaves))"
    unfolding rt using n assms(7) by (intro verify_accepts_path) simp_all
  then have "balanced_verify platform (length leaves) rt ?path i (leaves ! i)"
    using balanced_verify_eq [OF _ path, of i platform rt "leaves ! i"] assms(3,4,7) n(2)
    by (simp del: power_Suc of_nat_power)
  then show ?thesis
    using start nonempty proofs_at_end [of t "length leaves"] t proofs_at_next [OF t assms(3,7)]
      proofs_at_nth [OF t assms(3), of 0 i] proofs_at_last [OF t assms(3), of 0] assms(7) n
      compute_root_and_proof_spec [of "of_nat (length leaves)" platform leaves i] rt
    by (auto simp: is_tree_def)
qed

theorem balanced_proofs_verify_witness:
  "\<exists>t rt prf. balanced_new portable_platform [replicate 32 5, replicate 32 7] = Some t \<and>
    balanced_root t = Some rt \<and>
    proofs_nth (all_proofs t) 1 = Some (Some prf, proofs_at t (Suc 1)) \<and>
    proofs_last (all_proofs t) = Some (Some prf) \<and>
    balanced_verify portable_platform 2 rt prf 1 (replicate 32 7)"
proof -
  let ?leaves = "[replicate 32 5, replicate 32 7]"
  note new = portable.balanced_new_eq [of ?leaves 0]
  then obtain t where t: "balanced_new portable_platform ?leaves = Some t"
    "bmt_leaves t = ?leaves" by simp
  then obtain rt where rt: "balanced_root t = Some rt" by (cases "bmt_tree t") (simp_all add: balanced_root_def)
  from balanced_proofs_verify [OF portable.blake3_platform_axioms _ _ _ t(1) rt, of 0 1] t rt
  show ?thesis by (auto simp: numeral_2_eq_2)
qed

end
