(* ===== verification/Merkle_Sparse.thy ===== *)
theory Merkle_Sparse
  imports Merkle_Balanced
begin

text \<open>
  \<open>SparseMerkleTree\<close> (\<open>ab-merkle-tree/src/sparse.rs\<close>): the root of a tree of up to \<open>2^128\<close> leaves,
  most of them empty, and its verification.

  The documented node hash is \<open>sparse_pair\<close>, which maps two zero hashes to the zero hash. Runs of
  empty leaves are skipped in aligned chunks, each one push onto the stack at a higher level. The
  counter is a \<open>u128\<close> that wraps around to zero when all \<open>2^128\<close> leaves were given.

  The code hashes an occupied leaf upwards without looking for zeros. That agrees with
  \<open>sparse_pair\<close> unless some block of the tree other than the zero block hashes to zero
  (\<open>zero_preimage\<close>), which statements below name as the alternative.

  In results an outer \<open>None\<close> is an out-of-range unchecked access; the inner option is the one the
  code returns.
\<close>

section \<open>Code\<close>

definition ensure_supported_bits :: "nat \<Rightarrow> nat option" where
  "ensure_supported_bits bits = do {
    rust_assert (bits \<le> 128);
    rust_assert (bits \<noteq> 0);
    Some 0
  }"

datatype Leaf =
    Occupied hash
  | OccupiedOwned hash
  | Empty u128

definition Leaf_from :: "hash \<Rightarrow> Leaf" where
  "Leaf_from leaf = Occupied leaf"

definition ZERO :: hash where
  "ZERO = replicate OUT_LEN 0"

definition ilog2_u128 :: "u128 \<Rightarrow> nat" where
  "ilog2_u128 w = floorlog 2 (unat w) - 1"

text \<open>Merging a skipped chunk up the stack; the result is the level and the hash to place there.\<close>

primrec skip_merge :: "Platform \<Rightarrow> nat \<Rightarrow> u128 \<Rightarrow> hash list \<Rightarrow> nat \<Rightarrow> hash \<Rightarrow> nat \<times> hash" where
  "skip_merge platform bits num_leaves [] level current = (level, current)"
| "skip_merge platform bits num_leaves (item # items) level current =
    (if (bits = 128 \<and> level = 128) \<or> num_leaves AND shl 1 level = 0 then (level, current)
     else skip_merge platform bits num_leaves items (level + 1)
       (if \<not> (item = ZERO \<and> current = ZERO) then hash_pair platform item current else current))"

definition max_levels_to_skip :: "u128 \<Rightarrow> u128 \<Rightarrow> nat" where
  "max_levels_to_skip skip_count num_leaves = min (ilog2_u128 skip_count) (trailing_zeros num_leaves)"

lemma ilog2_u128_bounds:
  assumes "w \<noteq> 0"
  shows "2 ^ ilog2_u128 w \<le> unat w" and "ilog2_u128 w < 128"
proof -
  have "0 < unat w" using assms by (simp add: unat_gt_0)
  then show le: "2 ^ ilog2_u128 w \<le> unat w"
    unfolding ilog2_u128_def using floorlog_bounds [of "unat w" 2] by simp
  have "unat w < 2 ^ 128" using unsigned_less [of w] by simp
  with le have "(2 :: nat) ^ ilog2_u128 w < 2 ^ 128" by (rule le_less_trans)
  then show "ilog2_u128 w < 128" by (rule power_less_imp_less_exp [rotated]) simp
qed

lemma unat_shl_1:
  assumes "k < 128"
  shows "unat (shl (1 :: u128) k) = 2 ^ k"
proof -
  have "(2 :: nat) ^ k < 2 ^ 128" using assms by (intro power_strict_increasing) simp_all
  then show ?thesis
    using assms unat_of_nat_less [where 'a = 128, of "2 ^ k"] by (simp add: shl_def push_bit_eq_mult)
qed

lemma chunk_size_bounds:
  assumes "skip_count \<noteq> 0"
  shows "max_levels_to_skip skip_count num_leaves < 128"
    and "unat (shl (1 :: u128) (max_levels_to_skip skip_count num_leaves)) =
      2 ^ max_levels_to_skip skip_count num_leaves"
    and "2 ^ max_levels_to_skip skip_count num_leaves \<le> unat skip_count"
proof -
  note log = ilog2_u128_bounds [OF assms]
  show lt: "max_levels_to_skip skip_count num_leaves < 128"
    using log(2) by (simp add: max_levels_to_skip_def)
  then show "unat (shl (1 :: u128) (max_levels_to_skip skip_count num_leaves)) =
      2 ^ max_levels_to_skip skip_count num_leaves" by (rule unat_shl_1)
  have "(2 :: nat) ^ max_levels_to_skip skip_count num_leaves \<le> 2 ^ ilog2_u128 skip_count"
    by (rule power_increasing) (simp_all add: max_levels_to_skip_def)
  with log(1) show "2 ^ max_levels_to_skip skip_count num_leaves \<le> unat skip_count"
    by (rule order_trans [rotated])
qed

lemma unat_minus_chunk:
  assumes "skip_count \<noteq> 0"
  shows "unat (skip_count - shl 1 (max_levels_to_skip skip_count num_leaves)) =
    unat skip_count - 2 ^ max_levels_to_skip skip_count num_leaves"
  using chunk_size_bounds [OF assms, of num_leaves] by (simp add: unat_sub word_le_nat_alt)

function skip_loop ::
  "Platform \<Rightarrow> nat \<Rightarrow> hash list \<Rightarrow> u128 \<Rightarrow> u128 \<Rightarrow> (hash list \<times> u128) option" where
  "skip_loop platform bits stack num_leaves skip_count =
    (if skip_count = 0 then Some (stack, num_leaves)
     else let max_levels = max_levels_to_skip skip_count num_leaves;
              chunk_size = shl 1 max_levels;
              (level, current) = skip_merge platform bits num_leaves (drop max_levels stack) max_levels ZERO
          in if level < length stack
             then skip_loop platform bits (stack[level := current]) (num_leaves + chunk_size)
               (skip_count - chunk_size)
             else None)"
  by pat_completeness auto
termination
proof (relation "measure (\<lambda>(platform, bits, stack, num_leaves, skip_count). unat skip_count)", goal_cases)
  case (2 platform bits stack num_leaves skip_count max_levels chunk_size p level current)
  then show ?case
    using unat_minus_chunk [of skip_count num_leaves] by (simp add: unat_gt_0)
qed simp

declare skip_loop.simps [simp del]

definition skip_leaves ::
  "Platform \<Rightarrow> nat \<Rightarrow> hash list \<Rightarrow> bool \<Rightarrow> u128 \<Rightarrow> u128 \<Rightarrow> (hash list \<times> bool \<times> u128) option option" where
  "skip_leaves platform bits stack processed_some num_leaves skip_count =
    (if bits < 128 then
       if unat num_leaves + unat skip_count \<ge> 2 ^ 128 then Some None
       else if num_leaves + skip_count > 2 ^ bits then Some None
       else map_option (\<lambda>(stack, num_leaves). Some (stack, processed_some, num_leaves))
         (skip_loop platform bits stack num_leaves skip_count)
     else let overflow_amount = num_leaves + skip_count;
              overflowed = (unat num_leaves + unat skip_count \<ge> 2 ^ 128)
          in if processed_some \<and> overflowed \<and> overflow_amount > 0 then Some None
             else map_option (\<lambda>(stack, num_leaves). Some (stack, True, num_leaves))
               (skip_loop platform bits stack num_leaves skip_count))"

text \<open>One round of the loop over the leaves, and the loop.\<close>

definition sparse_step ::
  "Platform \<Rightarrow> nat \<Rightarrow> Leaf \<Rightarrow> hash list \<Rightarrow> bool \<Rightarrow> u128 \<Rightarrow> (hash list \<times> bool \<times> u128) option option" where
  "sparse_step platform bits leaf stack processed_some num_leaves =
    (if bits < 128 \<and> num_leaves = 2 ^ bits then Some None
     else if \<not> bits < 128 \<and> processed_some \<and> num_leaves = 0 then Some None
     else
       let processed_some = (if bits < 128 then processed_some else True);
           place = (\<lambda>leaf.
             let lowest_active_levels = trailing_ones num_leaves;
                 current = fold (hash_pair platform) (take lowest_active_levels stack) leaf
             in if lowest_active_levels < length stack
                then Some (Some (stack[lowest_active_levels := current], processed_some, num_leaves + 1))
                else None)
       in case leaf of
            Occupied leaf \<Rightarrow> place leaf
          | OccupiedOwned leaf \<Rightarrow> place leaf
          | Empty skip_count \<Rightarrow>
              skip_leaves platform bits stack processed_some num_leaves skip_count)"

primrec sparse_loop ::
  "Platform \<Rightarrow> nat \<Rightarrow> Leaf list \<Rightarrow> hash list \<Rightarrow> bool \<Rightarrow> u128 \<Rightarrow> (hash list \<times> bool \<times> u128) option option"
where
  "sparse_loop platform bits [] stack processed_some num_leaves =
    Some (Some (stack, processed_some, num_leaves))"
| "sparse_loop platform bits (leaf # leaves) stack processed_some num_leaves =
    (case sparse_step platform bits leaf stack processed_some num_leaves of
       None \<Rightarrow> None
     | Some None \<Rightarrow> Some None
     | Some (Some (stack, processed_some, num_leaves)) \<Rightarrow>
         sparse_loop platform bits leaves stack processed_some num_leaves)"

definition sparse_compute_root_only :: "Platform \<Rightarrow> nat \<Rightarrow> Leaf list \<Rightarrow> hash option option" where
  "sparse_compute_root_only platform bits leaves = do {
    _ \<leftarrow> ensure_supported_bits bits;
    looped \<leftarrow> sparse_loop platform bits leaves (replicate (bits + 1) (replicate OUT_LEN 0)) False 0;
    case looped of
      None \<Rightarrow> Some None
    | Some (stack, processed_some, num_leaves) \<Rightarrow> do {
        skipped \<leftarrow>
          (if bits < 128
           then skip_leaves platform bits stack processed_some num_leaves (2 ^ bits - num_leaves)
           else if processed_some \<and> num_leaves \<noteq> 0
           then skip_leaves platform bits stack processed_some num_leaves (0 - num_leaves)
           else Some (Some (stack, processed_some, num_leaves)));
        Some (map_option (\<lambda>(stack, processed_some, num_leaves). stack ! bits) skipped)
      }
  }"

primrec sparse_fold_proof :: "Platform \<Rightarrow> hash list \<Rightarrow> hash \<Rightarrow> u128 \<Rightarrow> hash" where
  "sparse_fold_proof platform [] computed_root position = computed_root"
| "sparse_fold_proof platform (h # prf) computed_root position =
    sparse_fold_proof platform prf
      (if even position then hash_pair platform computed_root h
       else hash_pair platform h computed_root) (position div 2)"

definition sparse_verify :: "Platform \<Rightarrow> nat \<Rightarrow> hash \<Rightarrow> hash list \<Rightarrow> u128 \<Rightarrow> hash \<Rightarrow> bool" where
  "sparse_verify platform bits expected prf leaf_index leaf =
    (if bits < 128 \<and> leaf_index \<ge> 2 ^ bits then False
     else expected = sparse_fold_proof platform prf leaf leaf_index)"

section \<open>The documented tree\<close>

definition sparse_pair :: "Platform \<Rightarrow> hash \<Rightarrow> hash \<Rightarrow> hash" where
  "sparse_pair platform a b = (if a = ZERO \<and> b = ZERO then ZERO else hash_pair platform a b)"

lemma sparse_pair_zero [simp]: "sparse_pair platform ZERO ZERO = ZERO"
  by (simp add: sparse_pair_def)

primrec expand_leaf :: "Leaf \<Rightarrow> hash list" where
  "expand_leaf (Occupied h) = [h]"
| "expand_leaf (OccupiedOwned h) = [h]"
| "expand_leaf (Empty n) = replicate (unat n) ZERO"

definition expand :: "Leaf list \<Rightarrow> hash list" where
  "expand leaves = concat (map expand_leaf leaves)"

definition padded :: "nat \<Rightarrow> hash list \<Rightarrow> hash list" where
  "padded bits xs = xs @ replicate (2 ^ bits - length xs) ZERO"

text \<open>The blocks hashed in the full pairs of a list of leaves, level by level.\<close>

function node_blocks :: "(hash \<Rightarrow> hash \<Rightarrow> hash) \<Rightarrow> hash list \<Rightarrow> u8 list list" where
  "node_blocks hp xs =
    (if length xs \<le> 1 then [] else join_pairs xs @ node_blocks hp (full_pairs hp xs))"
  by pat_completeness auto
termination by (relation "measure (\<lambda>(hp, xs). length xs)") auto

declare node_blocks.simps [simp del]

definition zero_preimage :: "Platform \<Rightarrow> hash list \<Rightarrow> bool" where
  "zero_preimage platform xs \<longleftrightarrow>
    (\<exists>b\<in>set (node_blocks (sparse_pair platform) xs).
      b \<noteq> ZERO @ ZERO \<and> hash_pair_block platform b = ZERO)"

text \<open>What the caller has to respect: occupied leaves are not zero, skipped runs not empty.\<close>

primrec leaf_ok :: "Leaf \<Rightarrow> bool" where
  "leaf_ok (Occupied h) \<longleftrightarrow> length h = 32 \<and> h \<noteq> ZERO"
| "leaf_ok (OccupiedOwned h) \<longleftrightarrow> length h = 32 \<and> h \<noteq> ZERO"
| "leaf_ok (Empty n) \<longleftrightarrow> n \<noteq> 0"

lemma length_ZERO [simp]: "length ZERO = 32"
  by (simp add: ZERO_def OUT_LEN_def)

lemma full_pairs_append:
  "\<exists>zs. full_pairs hp (xs @ ys) = full_pairs hp xs @ zs"
  by (induction hp xs rule: full_pairs.induct) auto

lemma full_pairs_append_even:
  "even (length xs) \<Longrightarrow> full_pairs hp (xs @ ys) = full_pairs hp xs @ full_pairs hp ys"
  by (induction hp xs rule: full_pairs.induct) auto

lemma full_pairs_replicate: "hp z z = z \<Longrightarrow> full_pairs hp (replicate (2 * n) z) = replicate n z"
  by (induction n) simp_all

lemma join_pairs_append: "set (join_pairs xs) \<subseteq> set (join_pairs (xs @ ys))"
  by (induction xs rule: join_pairs.induct) auto

lemma node_blocks_append: "set (node_blocks hp xs) \<subseteq> set (node_blocks hp (xs @ ys))"
proof (induction "length xs" arbitrary: xs ys rule: less_induct)
  case less
  show ?case
  proof (cases "length xs \<le> 1")
    case True
    then show ?thesis by (simp add: node_blocks.simps)
  next
    case False
    obtain zs where "full_pairs hp (xs @ ys) = full_pairs hp xs @ zs"
      using full_pairs_append by blast
    moreover have "set (node_blocks hp (full_pairs hp xs)) \<subseteq> set (node_blocks hp (full_pairs hp xs @ zs))"
      using False by (intro less) simp
    ultimately show ?thesis
      using False join_pairs_append [of xs ys]
      by (subst (1 2) node_blocks.simps) auto
  qed
qed

lemma zero_preimage_append: "zero_preimage platform xs \<Longrightarrow> zero_preimage platform (xs @ ys)"
  using node_blocks_append [of "sparse_pair platform" xs ys] by (auto simp: zero_preimage_def)

section \<open>Occupied leaves\<close>

lemma join_pairs_snoc: "odd (length xs) \<Longrightarrow> last xs @ h \<in> set (join_pairs (xs @ [h]))"
  by (induction xs rule: join_pairs.induct) auto

lemma not_zero_block: "length a = 32 \<Longrightarrow> b \<noteq> ZERO \<Longrightarrow> a @ b \<noteq> ZERO @ ZERO"
  by simp

context blake3_platform
begin

lemma hashes_full_pairs:
  "hashes xs \<Longrightarrow> hashes (full_pairs (sparse_pair platform) xs)"
  by (induction "sparse_pair platform" xs rule: full_pairs.induct)
    (auto simp: sparse_pair_def length_hp)

lemma fold_sparse_pair:
  "represents (sparse_pair platform) st xs \<Longrightarrow> nat_ones (length xs) < length st \<Longrightarrow> hashes xs \<Longrightarrow>
    length h = 32 \<Longrightarrow> h \<noteq> ZERO \<Longrightarrow> \<not> zero_preimage platform (xs @ [h]) \<Longrightarrow>
    fold (hash_pair platform) (take (nat_ones (length xs)) st) h =
    fold (sparse_pair platform) (take (nat_ones (length xs)) st) h"
proof (induction st arbitrary: xs h)
  case (Cons s st)
  let ?sp = "sparse_pair platform"
  show ?case
  proof (cases "odd (length xs)")
    case True
    with Cons.prems have s: "s = last xs" and rest: "represents ?sp st (full_pairs ?sp xs)"
      "nat_ones (length (full_pairs ?sp xs)) < length st" by (simp_all add: nat_ones_odd)
    have "xs \<noteq> []" using True by auto
    then have "length s = 32" using Cons.prems(3) s by simp
    define h' where "h' = hash_pair platform s h"
    have h': "h' = ?sp s h" using Cons.prems(5) by (simp add: h'_def sparse_pair_def)
    have snoc: "full_pairs ?sp (xs @ [h]) = full_pairs ?sp xs @ [h']"
      using True s h' by (simp add: full_pairs_snoc)
    have blocks: "node_blocks ?sp (xs @ [h]) =
        join_pairs (xs @ [h]) @ node_blocks ?sp (full_pairs ?sp xs @ [h'])"
      using True by (subst node_blocks.simps) (auto simp: snoc)
    then have "h' \<noteq> ZERO" and "\<not> zero_preimage platform (full_pairs ?sp xs @ [h'])"
      using Cons.prems(6) join_pairs_snoc [OF True, of h] s
        not_zero_block [OF \<open>length s = 32\<close> Cons.prems(5)]
      unfolding zero_preimage_def h'_def hash_pair_block_eq by auto
    moreover have "length h' = 32" using \<open>length s = 32\<close> Cons.prems(4) by (simp add: h'_def length_hp)
    ultimately have "fold (hash_pair platform) (take (nat_ones (length (full_pairs ?sp xs))) st) h' =
        fold ?sp (take (nat_ones (length (full_pairs ?sp xs))) st) h'"
      using rest hashes_full_pairs [OF Cons.prems(3)] by (intro Cons.IH)
    then show ?thesis using True h' by (simp add: nat_ones_odd h'_def)
  qed simp
qed simp

end

section \<open>Skipped leaves\<close>

lemma represents_skip:
  "represents hp st xs \<Longrightarrow> 2 ^ m dvd length xs \<Longrightarrow> hp z z = z \<Longrightarrow>
    m + nat_ones (length xs div 2 ^ m) < length st \<Longrightarrow>
    represents hp (take m st @ push hp (drop m st) (length xs div 2 ^ m) z) (xs @ replicate (2 ^ m) z)"
proof (induction m arbitrary: st xs)
  case 0
  then show ?case using represents_push [of hp st xs z] by simp
next
  case (Suc m)
  then obtain s st' where st: "st = s # st'" by (cases st) simp_all
  have even: "even (length xs)" using Suc.prems(2) by (auto elim: dvd_trans [rotated])
  let ?up = "full_pairs hp xs"
  have div: "length ?up div 2 ^ m = length xs div 2 ^ Suc m" by (simp add: div_mult2_eq)
  have "2 ^ m dvd length ?up" using Suc.prems(2) even by (auto elim!: dvdE)
  then have "represents hp (take m st' @ push hp (drop m st') (length ?up div 2 ^ m) z)
      (?up @ replicate (2 ^ m) z)"
    using Suc.prems st div by (intro Suc.IH) simp_all
  moreover have "full_pairs hp (xs @ replicate (2 ^ Suc m) z) = ?up @ replicate (2 ^ m) z"
    using full_pairs_append_even [OF even] full_pairs_replicate [of hp z "2 ^ m"] Suc.prems(3) by simp
  ultimately show ?case using st div even by simp
qed

lemma bit_test:
  fixes num :: u128
  assumes "l < 128"
  shows "num AND shl 1 l = 0 \<longleftrightarrow> even (unat num div 2 ^ l)"
proof -
  have "num AND shl 1 l = 0 \<longleftrightarrow> \<not> bit num l"
    using assms by (simp add: shl_def push_bit_eq_mult and_exp_eq_0_iff_not_bit)
  also have "bit num l \<longleftrightarrow> bit (unat num) l" by (simp add: bit_unsigned_iff)
  finally show ?thesis by (simp add: bit_iff_odd)
qed

lemma unat_less_u128: "unat (w :: u128) < 2 ^ 128"
  using unsigned_less [of w] by simp

lemma skip_merge_eq:
  "l + length items = bits + 1 \<Longrightarrow> bits \<le> 128 \<Longrightarrow> nat_ones (unat num div 2 ^ l) < length items \<Longrightarrow>
    skip_merge platform bits num items l c =
    (l + nat_ones (unat num div 2 ^ l),
     fold (sparse_pair platform) (take (nat_ones (unat num div 2 ^ l)) items) c)"
proof (induction items arbitrary: l c)
  case (Cons item items)
  have stop: "(bits = 128 \<and> l = 128) \<or> num AND shl 1 l = 0 \<longleftrightarrow> even (unat num div 2 ^ l)"
  proof (cases "l < 128")
    case True
    then show ?thesis by (simp add: bit_test)
  next
    case False
    with Cons.prems have "l = 128" "bits = 128" by simp_all
    then show ?thesis using unat_less_u128 [of num] by simp
  qed
  show ?case
  proof (cases "even (unat num div 2 ^ l)")
    case True
    then show ?thesis using stop by (simp only: skip_merge.simps if_True) simp
  next
    case False
    have up: "unat num div 2 ^ (l + 1) = unat num div 2 ^ l div 2"
      by (simp only: power_add power_one_right div_mult2_eq)
    have pair: "(if \<not> (item = ZERO \<and> c = ZERO) then hash_pair platform item c else c) =
        sparse_pair platform item c" by (simp add: sparse_pair_def)
    have ones: "nat_ones (unat num div 2 ^ l) = Suc (nat_ones (unat num div 2 ^ (l + 1)))"
      unfolding up by (rule nat_ones_odd) (rule False)
    have "skip_merge platform bits num (item # items) l c =
        skip_merge platform bits num items (l + 1) (sparse_pair platform item c)"
      using False stop pair by (simp only: skip_merge.simps if_False)
    also have "\<dots> = (l + 1 + nat_ones (unat num div 2 ^ (l + 1)),
        fold (sparse_pair platform) (take (nat_ones (unat num div 2 ^ (l + 1))) items)
          (sparse_pair platform item c))"
      using Cons.prems ones by (intro Cons.IH) simp_all
    finally show ?thesis using ones by simp
  qed
qed simp

lemma pow_min_dvd:
  fixes num :: u128
  assumes "m \<le> trailing_zeros num"
  shows "2 ^ m dvd unat num"
proof (cases "num = 0")
  case False
  have "2 ^ nat_zeros n dvd n" for n
  proof (induction n rule: nat_zeros.induct)
    case (1 n)
    show ?case
    proof (cases "n = 0 \<or> odd n")
      case False
      then obtain k where "n = 2 * k" by (auto elim: evenE)
      with 1 False show ?thesis by (simp add: nat_zeros_even)
    qed auto
  qed
  from this [of "unat num"] show ?thesis
    using assms False by (auto simp: trailing_zeros_unat intro: power_le_dvd)
qed simp

text \<open>A chunk that fits does not carry past the end of the stack.\<close>

lemma chunk_fits:
  assumes "n + 2 ^ m \<le> 2 ^ bits" and "2 ^ m dvd n"
  shows "m + nat_ones (n div 2 ^ m) \<le> bits"
proof -
  have "2 ^ nat_ones (n div 2 ^ m) \<le> n div 2 ^ m + 1" by (rule pow_nat_ones)
  then have "2 ^ m * 2 ^ nat_ones (n div 2 ^ m) \<le> 2 ^ m * (n div 2 ^ m + 1)" by (rule mult_le_mono2)
  also have "\<dots> = n + 2 ^ m" using assms(2) by (simp add: algebra_simps)
  also note assms(1)
  finally have "(2 :: nat) ^ (m + nat_ones (n div 2 ^ m)) \<le> 2 ^ bits" by (simp add: power_add)
  then show ?thesis by (rule power_le_imp_le_exp [rotated]) simp
qed

lemma update_drop: "st[m + k := x] = take m st @ (drop m st)[k := x]" if "m \<le> length st"
  using list_update_append [of "take m st" "drop m st" "m + k" x] that by simp

lemma skip_loop_eq:
  "represents (sparse_pair platform) st xs \<Longrightarrow> length st = bits + 1 \<Longrightarrow> bits \<le> 128 \<Longrightarrow>
    num = of_nat (length xs) \<Longrightarrow> length xs + unat skip \<le> 2 ^ bits \<Longrightarrow>
    \<exists>st'. skip_loop platform bits st num skip = Some (st', of_nat (length xs + unat skip)) \<and>
      length st' = bits + 1 \<and>
      represents (sparse_pair platform) st' (xs @ replicate (unat skip) ZERO)"
proof (induction "unat skip" arbitrary: st xs num skip rule: less_induct)
  case less
  show ?case
  proof (cases "skip = 0")
    case True
    then show ?thesis using less.prems by (subst skip_loop.simps) simp
  next
    case False
    define m where "m = max_levels_to_skip skip num"
    note chunk = chunk_size_bounds [OF False, of num, folded m_def]
    have pow: "(2 :: nat) ^ bits \<le> 2 ^ 128" using less.prems(3) by (intro power_increasing) simp_all
    have pos: "0 < unat skip" using False by (simp add: unat_gt_0)
    then have n: "unat num = length xs"
      using less.prems(4,5) pow unat_of_nat_less [where 'a = 128, of "length xs"] by simp
    have dvd: "2 ^ m dvd length xs"
      using pow_min_dvd [of m num] n by (simp add: m_def max_levels_to_skip_def)
    let ?k = "nat_ones (length xs div 2 ^ m)"
    have fits: "m + ?k \<le> bits" using chunk(3) less.prems(5) dvd by (intro chunk_fits) simp_all
    define st' where "st' = take m st @ push (sparse_pair platform) (drop m st) (length xs div 2 ^ m) ZERO"
    have merge: "skip_merge platform bits num (drop m st) m ZERO =
        (m + ?k, fold (sparse_pair platform) (take ?k (drop m st)) ZERO)"
      using skip_merge_eq [of m "drop m st" bits num platform ZERO] fits less.prems(2,3) n by simp
    have place: "st[m + ?k := fold (sparse_pair platform) (take ?k (drop m st)) ZERO] = st'"
      using fits less.prems(2) by (simp add: st'_def update_drop push_eq)
    have step: "skip_loop platform bits st num skip =
        skip_loop platform bits st' (num + shl 1 m) (skip - shl 1 m)"
      using False fits less.prems(2) merge place
      by (subst skip_loop.simps) (simp add: Let_def flip: m_def)
    have rest: "unat (skip - shl 1 m) = unat skip - 2 ^ m"
      using unat_minus_chunk [OF False, of num] by (simp add: m_def)
    have rep: "represents (sparse_pair platform) st' (xs @ replicate (2 ^ m) ZERO)"
      unfolding st'_def using less.prems(1) dvd fits less.prems(2) by (intro represents_skip) simp_all
    have "(2 :: nat) ^ m < 2 ^ 128" using chunk(1) by (intro power_strict_increasing) simp_all
    then have "shl 1 m = (of_nat (2 ^ m) :: u128)"
      using chunk(2) unat_of_nat_less [where 'a = 128, of "2 ^ m"] by (intro word_unat_eq_iff [THEN iffD2]) simp
    then have num: "num + shl 1 m = of_nat (length (xs @ replicate (2 ^ m) ZERO))"
      using less.prems(4) by simp
    have "\<exists>st''. skip_loop platform bits st' (num + shl 1 m) (skip - shl 1 m) =
        Some (st'', of_nat (length (xs @ replicate (2 ^ m) ZERO) + unat (skip - shl 1 m))) \<and>
      length st'' = bits + 1 \<and> represents (sparse_pair platform) st''
        ((xs @ replicate (2 ^ m) ZERO) @ replicate (unat (skip - shl 1 m)) ZERO)"
      by (rule less.hyps [OF _ rep _ less.prems(3) num])
        (use rest pos chunk(3) less.prems(2,5) fits in \<open>simp_all add: st'_def\<close>)
    moreover have "length (xs @ replicate (2 ^ m) ZERO) + unat (skip - shl 1 m) = length xs + unat skip"
      using rest chunk(3) by simp
    moreover have "(xs @ replicate (2 ^ m) ZERO) @ replicate (unat (skip - shl 1 m)) ZERO =
        xs @ replicate (unat skip) ZERO"
      using rest chunk(3) by (simp flip: replicate_add)
    ultimately show ?thesis using step by (simp only:)
  qed
qed

section \<open>Root\<close>

text \<open>The state of the loop over the leaves after the leaves of a list.\<close>

definition sparse_state :: "Platform \<Rightarrow> nat \<Rightarrow> hash list \<times> bool \<times> u128 \<Rightarrow> hash list \<Rightarrow> bool" where
  "sparse_state platform bits = (\<lambda>(stack, processed_some, num_leaves) xs.
    length stack = bits + 1 \<and> represents (sparse_pair platform) stack xs \<and>
    num_leaves = of_nat (length xs) \<and> length xs \<le> 2 ^ bits \<and>
    (bits = 128 \<longrightarrow> processed_some = (xs \<noteq> [])))"

lemma sparse_stateD:
  assumes "sparse_state platform bits (st, some, num) xs"
  shows "length st = bits + 1" and "represents (sparse_pair platform) st xs"
    and "num = of_nat (length xs)" and "length xs \<le> 2 ^ bits"
    and "bits = 128 \<Longrightarrow> some = (xs \<noteq> [])"
  using assms by (simp_all add: sparse_state_def)

lemma sparse_state_count:
  assumes "sparse_state platform bits (st, some, num) xs" and "bits \<le> 128"
  shows "length xs < 2 ^ bits \<Longrightarrow> unat num = length xs"
    and "bits < 128 \<Longrightarrow> unat num = length xs"
    and "bits < 128 \<and> num = 2 ^ bits \<or> \<not> bits < 128 \<and> some \<and> num = 0 \<longleftrightarrow> length xs = 2 ^ bits"
proof -
  note state = sparse_stateD [OF assms(1)]
  have pow: "(2 :: nat) ^ bits \<le> 2 ^ 128" using assms(2) by (intro power_increasing) simp_all
  show count: "unat num = length xs" if "length xs < 2 ^ bits"
    using that pow state(3) unat_of_nat_less [where 'a = 128, of "length xs"] by simp
  have small: "(2 :: nat) ^ bits < 2 ^ 128" if "bits < 128"
    using that by (intro power_strict_increasing) simp_all
  show count': "unat num = length xs" if "bits < 128"
    using small [OF that] state(3,4) unat_of_nat_less [where 'a = 128, of "length xs"] by simp
  have top: "unat (2 ^ bits :: u128) = 2 ^ bits" if "bits < 128"
    using small [OF that] unat_of_nat_less [where 'a = 128, of "2 ^ bits"] by simp
  show "bits < 128 \<and> num = 2 ^ bits \<or> \<not> bits < 128 \<and> some \<and> num = 0 \<longleftrightarrow> length xs = 2 ^ bits"
  proof (cases "bits < 128")
    case True
    then show ?thesis using count' [OF True] top [OF True] by (simp add: word_unat_eq_iff)
  next
    case False
    with assms(2) have bits: "bits = 128" by simp
    show ?thesis
    proof (cases "length xs < 2 ^ bits")
      case True
      then have "num = 0 \<longleftrightarrow> xs = []" using count by (simp add: word_unat_eq_iff)
      with True bits state(5) show ?thesis by auto
    next
      case full: False
      with state(4) have "length xs = 2 ^ bits" by simp
      then have "num = 0" "xs \<noteq> []" using state(3) bits by (auto simp: word_of_nat_eq_0_iff)
      then show ?thesis using bits state(5) \<open>length xs = 2 ^ bits\<close> by simp
    qed
  qed
qed

lemma exceeds_small:
  fixes a b :: u128
  assumes "bits < 128"
  shows "unat a + unat b \<ge> 2 ^ 128 \<or> a + b > 2 ^ bits \<longleftrightarrow> 2 ^ bits < unat a + unat b"
proof -
  have small: "(2 :: nat) ^ bits < 2 ^ 128"
    using assms by (intro power_strict_increasing) simp_all
  then have top: "unat (2 ^ bits :: u128) = 2 ^ bits"
    using unat_of_nat_less [where 'a = 128, of "2 ^ bits"] by simp
  show ?thesis
  proof (cases "unat a + unat b \<ge> 2 ^ 128")
    case False
    then have "unat (a + b) = unat a + unat b" by (simp add: unat_word_ariths)
    with False top show ?thesis by (simp add: word_less_nat_alt)
  qed (use small in simp)
qed

lemma exceeds_128:
  fixes a b :: u128
  shows "unat a + unat b \<ge> 2 ^ 128 \<and> a + b > 0 \<longleftrightarrow> 2 ^ 128 < unat a + unat b"
proof (cases "unat a + unat b \<ge> 2 ^ 128")
  case True
  have "unat a + unat b < 2 * 2 ^ 128" using unat_less_u128 [of a] unat_less_u128 [of b] by simp
  with True have "unat (a + b) = unat a + unat b - 2 ^ 128"
    by (simp add: unat_word_ariths le_mod_geq)
  with True show ?thesis by (auto simp: word_less_nat_alt)
qed simp

lemma skip_leaves_eq:
  assumes "sparse_state platform bits (st, some, num) xs" and "bits \<le> 128"
    and "length xs < 2 ^ bits \<or> bits < 128" and "bits = 128 \<Longrightarrow> some'"
  shows "skip_leaves platform bits st (if bits < 128 then some else some') num skip =
      Some None \<and> 2 ^ bits < length xs + unat skip \<or>
    (\<exists>s. skip_leaves platform bits st (if bits < 128 then some else some') num skip = Some (Some s) \<and>
      length xs + unat skip \<le> 2 ^ bits \<and>
      (skip \<noteq> 0 \<or> bits < 128 \<longrightarrow>
        sparse_state platform bits s (xs @ replicate (unat skip) ZERO)))"
proof -
  note state = sparse_stateD [OF assms(1)]
  have n: "unat num = length xs" using sparse_state_count(1,2) [OF assms(1,2)] assms(3) by blast
  let ?all = "xs @ replicate (unat skip) ZERO"
  have fits: "\<exists>st'. skip_loop platform bits st num skip = Some (st', of_nat (length ?all)) \<and>
      length st' = bits + 1 \<and> represents (sparse_pair platform) st' ?all"
    if "length xs + unat skip \<le> 2 ^ bits"
    using skip_loop_eq [OF state(2,1) assms(2) state(3) that] by simp
  show ?thesis
  proof (cases "bits < 128")
    case True
    note over = exceeds_small [OF True, of num skip, unfolded n]
    show ?thesis
    proof (cases "2 ^ bits < length xs + unat skip")
      case exceeds: True
      with over show ?thesis using True by (auto simp: skip_leaves_def n)
    next
      case fine: False
      with fits obtain st' where "skip_loop platform bits st num skip = Some (st', of_nat (length ?all))"
        "length st' = bits + 1" "represents (sparse_pair platform) st' ?all" by auto
      with over fine True show ?thesis
        by (auto simp: skip_leaves_def sparse_state_def n)
    qed
  next
    case False
    with assms(2) have bits: "bits = 128" by simp
    note over = exceeds_128 [of num skip, unfolded n]
    show ?thesis
    proof (cases "2 ^ bits < length xs + unat skip")
      case exceeds: True
      with over assms(4) show ?thesis using bits by (auto simp: skip_leaves_def n)
    next
      case fine: False
      with fits obtain st' where "skip_loop platform bits st num skip = Some (st', of_nat (length ?all))"
        "length st' = bits + 1" "represents (sparse_pair platform) st' ?all" by auto
      with over fine bits show ?thesis
        by (auto simp: skip_leaves_def sparse_state_def n unat_eq_0)
    qed
  qed
qed

context blake3_platform
begin

lemma sparse_place:
  assumes state: "sparse_state platform bits (st, some, num) xs" and "bits \<le> 128"
    and "length xs < 2 ^ bits" and "hashes xs" and "length h = 32" and "h \<noteq> ZERO"
    and "\<not> zero_preimage platform (xs @ [h])" and "bits = 128 \<longrightarrow> some'"
  shows "trailing_ones num < length st"
    and "sparse_state platform bits
      (st[trailing_ones num := fold (hash_pair platform) (take (trailing_ones num) st) h],
       some', num + 1) (xs @ [h])"
proof -
  note st = sparse_stateD [OF state]
  have n: "unat num = length xs" using sparse_state_count(1) [OF assms(1-3)] .
  then have ones: "trailing_ones num = nat_ones (length xs)" by (simp add: trailing_ones_unat)
  have "nat_ones (length xs) < bits + 1" using assms(3) by (intro nat_ones_less) simp
  then have fits: "nat_ones (length xs) < length st" using st(1) by simp
  then show "trailing_ones num < length st" using ones by simp
  have "st[trailing_ones num := fold (hash_pair platform) (take (trailing_ones num) st) h] =
      push (sparse_pair platform) st (length xs) h"
    by (simp only: ones fold_sparse_pair [OF st(2) fits assms(4-7)] push_eq [OF fits])
  then show "sparse_state platform bits
      (st[trailing_ones num := fold (hash_pair platform) (take (trailing_ones num) st) h],
       some', num + 1) (xs @ [h])"
    using represents_push [OF st(2) fits, of h] st(1,3) assms(3,8) by (simp add: sparse_state_def)
qed

lemma sparse_step_eq:
  assumes state: "sparse_state platform bits s xs" and "bits \<le> 128" and "leaf_ok leaf"
    and "hashes xs" and "\<not> zero_preimage platform (xs @ expand_leaf leaf)"
  shows "(case s of (st, some, num) \<Rightarrow> sparse_step platform bits leaf st some num) = Some None \<and>
      2 ^ bits < length (xs @ expand_leaf leaf) \<or>
    (\<exists>s'. (case s of (st, some, num) \<Rightarrow> sparse_step platform bits leaf st some num) = Some (Some s') \<and>
      sparse_state platform bits s' (xs @ expand_leaf leaf))"
proof -
  obtain st some num where s: "s = (st, some, num)" by (cases s)
  note state = assms(1) [unfolded s]
  note full = sparse_state_count(3) [OF state assms(2)]
  have pos: "0 < length (expand_leaf leaf)" using assms(3) by (cases leaf) (simp_all add: unat_gt_0)
  show ?thesis
  proof (cases "length xs = 2 ^ bits")
    case True
    with full have "sparse_step platform bits leaf st some num = Some None"
      by (auto simp: sparse_step_def)
    with True pos s show ?thesis by simp
  next
    case False
    with sparse_stateD(4) [OF state] have room: "length xs < 2 ^ bits" by simp
    let ?some = "if bits < 128 then some else True"
    have place: "sparse_step platform bits leaf st some num = Some (Some
        (st[trailing_ones num := fold (hash_pair platform) (take (trailing_ones num) st) h], ?some, num + 1))"
      "sparse_state platform bits
        (st[trailing_ones num := fold (hash_pair platform) (take (trailing_ones num) st) h], ?some, num + 1)
        (xs @ [h])"
      if "leaf = Occupied h \<or> leaf = OccupiedOwned h" for h
      using sparse_place [OF state assms(2) room assms(4), of h ?some] that assms(3,5) full False
      by (auto simp: sparse_step_def Let_def)
    show ?thesis
    proof (cases leaf)
      case (Empty skip)
      then have "sparse_step platform bits leaf st some num =
          skip_leaves platform bits st ?some num skip"
        using full False by (auto simp: sparse_step_def Let_def)
      with skip_leaves_eq [OF state assms(2), of True skip] room Empty assms(3) s show ?thesis by auto
    qed (use place s in auto)
  qed
qed

lemma hashes_expand_leaf: "leaf_ok leaf \<Longrightarrow> hashes (expand_leaf leaf)"
  by (cases leaf) simp_all

lemma sparse_loop_eq:
  "sparse_state platform bits s xs \<Longrightarrow> bits \<le> 128 \<Longrightarrow> \<forall>leaf\<in>set leaves. leaf_ok leaf \<Longrightarrow>
    hashes xs \<Longrightarrow> \<not> zero_preimage platform (xs @ expand leaves) \<Longrightarrow>
    (case s of (st, some, num) \<Rightarrow> sparse_loop platform bits leaves st some num) = Some None \<and>
      2 ^ bits < length (xs @ expand leaves) \<or>
    (\<exists>s'. (case s of (st, some, num) \<Rightarrow> sparse_loop platform bits leaves st some num) = Some (Some s') \<and>
      sparse_state platform bits s' (xs @ expand leaves))"
proof (induction leaves arbitrary: s xs)
  case Nil
  then show ?case by (cases s) (simp add: expand_def)
next
  case (Cons leaf leaves)
  obtain st some num where s: "s = (st, some, num)" by (cases s)
  let ?xs = "xs @ expand_leaf leaf"
  have all: "xs @ expand (leaf # leaves) = ?xs @ expand leaves" by (simp add: expand_def)
  have ok: "leaf_ok leaf" using Cons.prems(3) by simp
  have pre: "\<not> zero_preimage platform ?xs"
    using zero_preimage_append [of platform ?xs "expand leaves"] Cons.prems(5) all by auto
  from sparse_step_eq [OF Cons.prems(1,2) ok Cons.prems(4) pre] show ?case
  proof (elim disjE conjE exE)
    assume "(case s of (st, some, num) \<Rightarrow> sparse_step platform bits leaf st some num) = Some None"
      "2 ^ bits < length ?xs"
    then show ?thesis using s all by simp
  next
    fix s'
    assume step: "(case s of (st, some, num) \<Rightarrow> sparse_step platform bits leaf st some num) = Some (Some s')"
      and state: "sparse_state platform bits s' ?xs"
    have "hashes ?xs" using Cons.prems(4) hashes_expand_leaf [OF ok] by auto
    with Cons.IH [OF state Cons.prems(2)] Cons.prems(3,5) all s step show ?thesis
      by (cases s') simp
  qed
qed

end

lemma level_root_zero: "hp z z = z \<Longrightarrow> level_root hp (replicate (2 ^ k) z) = z"
proof (induction k)
  case (Suc k)
  have "pair_up hp (replicate (2 * 2 ^ k) z) = replicate (2 ^ k) z"
    using full_pairs_replicate [of hp z "2 ^ k"] Suc.prems by (simp add: pair_up_eq)
  with Suc show ?case using level_root_Suc [of "replicate (2 ^ Suc k) z" k hp] by simp
qed simp

lemma length_padded: "length xs \<le> 2 ^ bits \<Longrightarrow> length (padded bits xs) = 2 ^ bits"
  by (simp add: padded_def)

lemma sparse_state_root:
  assumes "sparse_state platform bits (st, some, num) xs" and "length xs = 2 ^ bits"
  shows "st ! bits = level_root (sparse_pair platform) xs"
  using represents_full [OF sparse_stateD(2) [OF assms(1)] assms(2)] sparse_stateD(1) [OF assms(1)]
  by simp

lemma expand_Nil: "\<forall>leaf\<in>set leaves. leaf_ok leaf \<Longrightarrow> expand leaves = [] \<longleftrightarrow> leaves = []"
proof (induction leaves)
  case (Cons leaf leaves)
  then show ?case by (cases leaf) (simp_all add: expand_def unat_eq_0)
qed (simp add: expand_def)

lemma unat_uminus_u128:
  fixes w :: u128
  assumes "w \<noteq> 0"
  shows "unat (- w) = 2 ^ 128 - unat w"
proof -
  have "(unat w + unat (- w)) mod 2 ^ 128 = unat (w + - w)" by (simp only: unat_word_ariths) simp
  then have "2 ^ 128 dvd unat w + unat (- w)" by (simp add: mod_eq_0_iff_dvd)
  then obtain k where k: "unat w + unat (- w) = 2 ^ 128 * k" by (rule dvdE)
  have pos: "0 < unat w" using assms by (simp add: unat_gt_0)
  have "unat w + unat (- w) < 2 * 2 ^ 128"
    using unat_less_u128 [of w] unat_less_u128 [of "- w"] by simp
  with k pos have "k = 1" by (cases k) simp_all
  with k show ?thesis by simp
qed

text \<open>The leaves that were not given are skipped at the end.\<close>

lemma sparse_finish:
  assumes state: "sparse_state platform bits (st, some, num) xs" and "bits \<le> 128"
    and "xs \<noteq> [] \<or> bits < 128"
  shows "\<exists>st' some' num'.
    (if bits < 128 then skip_leaves platform bits st some num (2 ^ bits - num)
     else if some \<and> num \<noteq> 0 then skip_leaves platform bits st some num (0 - num)
     else Some (Some (st, some, num))) = Some (Some (st', some', num')) \<and>
    sparse_state platform bits (st', some', num') (padded bits xs)"
proof -
  note st = sparse_stateD [OF state]
  note count = sparse_state_count [OF state assms(2)]
  have finish: "\<exists>st' some' num'. skip_leaves platform bits st some num skip = Some (Some (st', some', num')) \<and>
      sparse_state platform bits (st', some', num') (padded bits xs)"
    if "unat skip = 2 ^ bits - length xs" "length xs < 2 ^ bits \<or> bits < 128" for skip
    using skip_leaves_eq [OF state assms(2) that(2), of some skip] that st(4,5) assms(3)
    by (auto simp: padded_def unat_eq_0)
  show ?thesis
  proof (cases "bits < 128")
    case True
    have "(2 :: nat) ^ bits < 2 ^ 128" using True by (intro power_strict_increasing) simp_all
    then have top: "unat (2 ^ bits :: u128) = 2 ^ bits"
      using unat_of_nat_less [where 'a = 128, of "2 ^ bits"] by simp
    then have "unat (2 ^ bits - num) = 2 ^ bits - length xs"
      using count(2) [OF True] st(4) by (simp add: unat_sub word_le_nat_alt)
    with finish [of "2 ^ bits - num"] True show ?thesis by simp
  next
    case False
    with assms(2,3) have bits: "bits = 128" and some: "some" using st(5) by simp_all
    show ?thesis
    proof (cases "num = 0")
      case True
      with count(3) some False have "length xs = 2 ^ bits" by simp
      with True False state show ?thesis by (simp add: padded_def)
    next
      case nonzero: False
      have room: "length xs < 2 ^ bits" using count(3) nonzero False st(4) by auto
      have "unat (0 - num) = 2 ^ bits - length xs"
        using unat_uminus_u128 [OF nonzero] count(1) [OF room] bits by simp
      with finish [of "0 - num"] room some nonzero False show ?thesis by simp
    qed
  qed
qed

lemma sparse_root_spec:
  assumes "blake3_platform platform" and "0 < bits" and "bits \<le> 128"
    and "\<forall>leaf\<in>set leaves. leaf_ok leaf"
    and "\<not> zero_preimage platform (padded bits (expand leaves))"
  shows "sparse_compute_root_only platform bits leaves =
    Some (if 2 ^ bits < length (expand leaves) then None
          else Some (level_root (sparse_pair platform) (padded bits (expand leaves))))"
proof -
  let ?init = "(replicate (bits + 1) (replicate OUT_LEN 0), False, 0 :: u128)"
  have init: "sparse_state platform bits ?init []" by (simp add: sparse_state_def represents_Nil)
  have pre: "\<not> zero_preimage platform ([] @ expand leaves)"
    using zero_preimage_append assms(5) unfolding padded_def by auto
  have "ensure_supported_bits bits = Some 0" using assms(2,3) by (simp add: ensure_supported_bits_def)
  note unfold = sparse_compute_root_only_def this
  from blake3_platform.sparse_loop_eq [OF assms(1) init assms(3,4) _ pre]
  consider (full) "sparse_loop platform bits leaves (replicate (bits + 1) (replicate OUT_LEN 0)) False 0 =
      Some None" "2 ^ bits < length (expand leaves)"
    | (fits) st some num where
      "sparse_loop platform bits leaves (replicate (bits + 1) (replicate OUT_LEN 0)) False 0 =
        Some (Some (st, some, num))" "sparse_state platform bits (st, some, num) (expand leaves)"
    by (auto simp del: replicate_Suc)
  then show ?thesis
  proof cases
    case full
    then show ?thesis by (simp add: unfold del: replicate_Suc)
  next
    case (fits st some num)
    note le = sparse_stateD(4) [OF fits(2)]
    show ?thesis
    proof (cases "expand leaves \<noteq> [] \<or> bits < 128")
      case True
      from sparse_finish [OF fits(2) assms(3) True] obtain st' some' num' where
        fin: "(if bits < 128 then skip_leaves platform bits st some num (2 ^ bits - num)
           else if some \<and> num \<noteq> 0 then skip_leaves platform bits st some num (0 - num)
           else Some (Some (st, some, num))) = Some (Some (st', some', num'))"
        "sparse_state platform bits (st', some', num') (padded bits (expand leaves))" by blast
      from sparse_state_root [OF fin(2) length_padded [OF le]] fin(1) fits(1) le show ?thesis
        by (simp add: unfold del: replicate_Suc)
    next
      case False
      then have "leaves = []" "\<not> bits < 128" using expand_Nil [OF assms(4)] by simp_all
      then show ?thesis
        using level_root_zero [of "sparse_pair platform" ZERO bits, OF sparse_pair_zero, unfolded ZERO_def]
        by (simp add: unfold expand_def padded_def ZERO_def del: replicate_Suc)
    qed
  qed
qed

section \<open>Verification\<close>

lemma unat_half: "even w \<longleftrightarrow> even (unat w)" "unat (w div 2) = unat w div 2" for w :: u128
proof -
  have "bit (unat w) 0 = bit w 0" by (simp add: bit_unsigned_iff)
  then show "even w \<longleftrightarrow> even (unat w)" by (simp add: bit_0)
  show "unat (w div 2) = unat w div 2" by (simp add: unat_div_distrib)
qed

lemma sparse_fold_proof_eq:
  "sparse_fold_proof platform pr c position = fold_proof platform pr c (unat position)"
  by (induction pr arbitrary: c position) (simp_all add: unat_half)

lemma node_blocks_pow:
  assumes "length xs = 2 ^ Suc j"
  shows "node_blocks hp xs = join_pairs xs @ node_blocks hp (pair_up hp xs)"
proof -
  have "full_pairs hp xs = pair_up hp xs" using assms by (simp add: pair_up_eq)
  then show ?thesis using length_pow_greater [OF assms] by (subst node_blocks.simps) auto
qed

context blake3_platform
begin

lemma hashes_sparse_pair_up: "hashes xs \<Longrightarrow> hashes (pair_up (sparse_pair platform) xs)"
  by (induction "sparse_pair platform" xs rule: pair_up.induct) (auto simp: sparse_pair_def length_hp)

text \<open>One step of the verification from a node that is not zero.\<close>

lemma sparse_climb:
  assumes "length xs = 2 ^ Suc j" and "i < 2 ^ Suc j" and "hashes xs" and "xs ! i \<noteq> ZERO"
    and "\<not> zero_preimage platform xs"
  shows "(if even i then hash_pair platform (xs ! i) (xs ! (i XOR 1))
      else hash_pair platform (xs ! (i XOR 1)) (xs ! i)) = pair_up (sparse_pair platform) xs ! (i div 2)"
    and "pair_up (sparse_pair platform) xs ! (i div 2) \<noteq> ZERO"
    and "\<not> zero_preimage platform (pair_up (sparse_pair platform) xs)"
proof -
  note other = xor_1_less [OF assms(2)]
  let ?l = "if even i then i else i XOR 1" and ?r = "if even i then i XOR 1 else i"
  let ?b = "xs ! ?l @ xs ! ?r"
  have lr: "?l = 2 * (i div 2)" "?r = Suc (2 * (i div 2))" unfolding xor_1_nat by auto
  have "?r < length xs" using assms(1,2) other by auto
  then have block: "?b \<in> set (join_pairs xs)" using join_pairs_nth [of "i div 2" xs] lr by simp
  have up: "pair_up (sparse_pair platform) xs ! (i div 2) = sparse_pair platform (xs ! ?l) (xs ! ?r)"
    using pair_up_nth [of i xs "sparse_pair platform"] assms(1,2) other unfolding xor_1_nat by auto
  also have "\<dots> = hash_pair platform (xs ! ?l) (xs ! ?r)"
    using assms(4) by (auto simp: sparse_pair_def split: if_splits)
  finally have plain: "pair_up (sparse_pair platform) xs ! (i div 2) = hash_pair platform (xs ! ?l) (xs ! ?r)" .
  then show "(if even i then hash_pair platform (xs ! i) (xs ! (i XOR 1))
      else hash_pair platform (xs ! (i XOR 1)) (xs ! i)) = pair_up (sparse_pair platform) xs ! (i div 2)"
    by simp
  have "?l < length xs" using assms(1,2) other by auto
  then have "length (xs ! ?l) = 32" using assms(3) nth_mem [of ?l xs] by blast
  then have "?b \<noteq> ZERO @ ZERO" using assms(4) by (auto split: if_splits)
  with block assms(5) show "pair_up (sparse_pair platform) xs ! (i div 2) \<noteq> ZERO"
    unfolding plain hash_pair_block_eq zero_preimage_def node_blocks_pow [OF assms(1)] by auto
  show "\<not> zero_preimage platform (pair_up (sparse_pair platform) xs)"
    using assms(5) unfolding zero_preimage_def node_blocks_pow [OF assms(1)] by auto
qed

lemma sparse_path_root:
  "length xs = 2 ^ bits \<Longrightarrow> i < 2 ^ bits \<Longrightarrow> hashes xs \<Longrightarrow> xs ! i \<noteq> ZERO \<Longrightarrow>
    \<not> zero_preimage platform xs \<Longrightarrow>
    fold_proof platform (level_path (sparse_pair platform) xs i) (xs ! i) i =
    level_root (sparse_pair platform) xs"
proof (induction bits arbitrary: xs i)
  case 0
  then show ?case by (simp add: level_path_steps(1) level_root_1)
next
  case (Suc bits)
  note climb = sparse_climb [OF Suc.prems]
  have "i div 2 < 2 ^ bits" using Suc.prems(2) by simp
  from Suc.IH [OF length_pair_up_pow [OF Suc.prems(1)] this hashes_sparse_pair_up [OF Suc.prems(3)]
      climb(2,3)] show ?case
    by (simp only: level_path_pow [OF Suc.prems(1,2)] fold_proof.simps climb(1)
        level_root_Suc [OF Suc.prems(1), of "sparse_pair platform"])
qed

end

lemma join_pairs_replicate: "join_pairs (replicate (2 * n) z) = replicate n (z @ z)"
  by (induction n) simp_all

lemma zero_tree: "\<not> zero_preimage platform (replicate (2 ^ k) ZERO)"
proof (induction k)
  case 0
  then show ?case by (simp add: zero_preimage_def node_blocks.simps)
next
  case (Suc k)
  have "length (replicate (2 ^ Suc k) ZERO) = 2 ^ Suc k" by simp
  from node_blocks_pow [OF this, of "sparse_pair platform"]
  have "node_blocks (sparse_pair platform) (replicate (2 ^ Suc k) ZERO) =
      replicate (2 ^ k) (ZERO @ ZERO) @ node_blocks (sparse_pair platform) (replicate (2 ^ k) ZERO)"
    using full_pairs_replicate [of "sparse_pair platform" ZERO "2 ^ k"]
    by (simp add: pair_up_eq join_pairs_replicate)
  with Suc show ?case by (auto simp: zero_preimage_def)
qed

lemma fold_proof_replicate:
  "fold_proof platform (replicate k ZERO) c 0 = ((\<lambda>c. hash_pair platform c ZERO) ^^ k) c"
  by (induction k arbitrary: c) (simp_all add: funpow_Suc_right del: funpow.simps(2))

section \<open>Properties\<close>

text \<open>
  C35: For every supported depth up to 128 and every sequence of occupied leaves and runs of empty
  ones, the root is that of the documented tree over all leaves, the ones not given being empty, and
  nothing is returned exactly when there are more leaves than the tree has. No access leaves
  the stack, also when the counter wraps around at \<open>2^128\<close> leaves. The only exception is a tree in
  which a block other than the zero block hashes to zero.
\<close>

theorem sparse_root_correct:
  assumes "blake3_platform platform" and "0 < bits" and "bits \<le> 128"
    and "\<forall>leaf\<in>set leaves. leaf_ok leaf"
  shows "sparse_compute_root_only platform bits leaves =
      Some (if 2 ^ bits < length (expand leaves) then None
            else Some (tree_root (sparse_pair platform) (padded bits (expand leaves)))) \<or>
    zero_preimage platform (padded bits (expand leaves))"
proof (cases "zero_preimage platform (padded bits (expand leaves))")
  case False
  have "padded bits (expand leaves) \<noteq> []" by (cases "expand leaves") (simp_all add: padded_def)
  then show ?thesis
    using sparse_root_spec [OF assms False] by (simp add: level_root_eq_tree_root)
qed simp

theorem sparse_root_correct_witness:
  "sparse_compute_root_only portable_platform 128 [Occupied (replicate 32 1), Empty (2 ^ 127)] =
      Some (if 2 ^ 128 < length (expand [Occupied (replicate 32 1), Empty (2 ^ 127)]) then None
            else Some (tree_root (sparse_pair portable_platform)
              (padded 128 (expand [Occupied (replicate 32 1), Empty (2 ^ 127)])))) \<or>
    zero_preimage portable_platform (padded 128 (expand [Occupied (replicate 32 1), Empty (2 ^ 127)]))"
  by (rule sparse_root_correct [OF portable.blake3_platform_axioms]) (simp_all add: ZERO_def OUT_LEN_def)

text \<open>
  C36: In a tree without a block that hashes to zero, the verification accepts for every occupied leaf
  the siblings on its path in the documented tree.
\<close>

theorem sparse_verify_occupied:
  assumes "blake3_platform platform" and "bits \<le> 128" and "length xs = 2 ^ bits" and "hashes xs"
    and "unat i < 2 ^ bits" and "xs ! unat i \<noteq> ZERO"
  shows "sparse_verify platform bits (tree_root (sparse_pair platform) xs)
      (level_path (sparse_pair platform) xs (unat i)) i (xs ! unat i) \<or> zero_preimage platform xs"
proof (cases "zero_preimage platform xs")
  case False
  have "\<not> i \<ge> 2 ^ bits" if "bits < 128"
  proof -
    have "(2 :: nat) ^ bits < 2 ^ 128" using that by (intro power_strict_increasing) simp_all
    then have "unat (2 ^ bits :: u128) = 2 ^ bits"
      using unat_of_nat_less [where 'a = 128, of "2 ^ bits"] by simp
    with assms(5) show ?thesis by (simp add: word_le_nat_alt)
  qed
  moreover have "xs \<noteq> []" using assms(3) by auto
  ultimately show ?thesis
    using blake3_platform.sparse_path_root [OF assms(1,3,5,4,6) False]
    by (auto simp: sparse_verify_def sparse_fold_proof_eq level_root_eq_tree_root)
qed simp

theorem sparse_verify_occupied_witness:
  "sparse_verify portable_platform 1 (tree_root (sparse_pair portable_platform) [ZERO, replicate 32 1])
      (level_path (sparse_pair portable_platform) [ZERO, replicate 32 1] (unat (1 :: u128))) 1
      ([ZERO, replicate 32 1] ! unat (1 :: u128)) \<or>
    zero_preimage portable_platform [ZERO, replicate 32 1]"
  by (rule sparse_verify_occupied [OF portable.blake3_platform_axioms])
    (simp_all add: ZERO_def OUT_LEN_def)

text \<open>
  C37: The verification does not use the documented hash of two zero hashes. The root of the empty tree
  is zero at every depth, and all siblings of its leaves are zero, yet the verification accepts
  this proof for the empty leaf at index zero only if hashing zeros repeatedly with the plain hash
  ends in zero.
\<close>

theorem sparse_verify_empty:
  assumes "blake3_platform platform" and "0 < bits" and "bits \<le> 128"
  shows "sparse_compute_root_only platform bits [] = Some (Some ZERO) \<and>
    (sparse_verify platform bits ZERO (replicate bits ZERO) 0 ZERO \<longleftrightarrow>
      ((\<lambda>c. hash_pair platform c ZERO) ^^ bits) ZERO = ZERO)"
proof
  show "sparse_compute_root_only platform bits [] = Some (Some ZERO)"
    using sparse_root_spec [OF assms, of "[]"] zero_tree [of platform bits]
      level_root_zero [of "sparse_pair platform" ZERO bits, OF sparse_pair_zero]
    by (simp add: padded_def expand_def)
  have "\<not> (0 :: u128) \<ge> 2 ^ bits" if "bits < 128" using that by (simp add: not_le)
  then show "sparse_verify platform bits ZERO (replicate bits ZERO) 0 ZERO \<longleftrightarrow>
      ((\<lambda>c. hash_pair platform c ZERO) ^^ bits) ZERO = ZERO"
    by (auto simp: sparse_verify_def sparse_fold_proof_eq fold_proof_replicate)
qed

theorem sparse_verify_empty_witness:
  "sparse_compute_root_only portable_platform 1 [] = Some (Some ZERO) \<and>
    (sparse_verify portable_platform 1 ZERO [ZERO] 0 ZERO \<longleftrightarrow>
      hash_pair portable_platform ZERO ZERO = ZERO)"
  using sparse_verify_empty [OF portable.blake3_platform_axioms, of 1] by simp

end
