(* ===== verification/Num_Shards.thy ===== *)
theory Num_Shards
  imports Address Blake3
begin

text \<open>
  The number of shards in the network and the assignment of farmers to shards (\<open>NumShards\<close> of
  \<^verbatim>\<open>crates/shared/ab-core-primitives/src/shard.rs\<close>), with the remainder of a 256-bit number it is
  based on (\<^verbatim>\<open>nano_u256.rs\<close>).

  Fields of type \<open>NonZeroU16\<close> are words that \<open>num_shards_ok\<close> requires to be non-zero. The two
  decoders only call external crates and then \<open>NumShards::new\<close>, and are not modelled.
  \<open>None\<close> is a panic where the code has no option, and the outer option where it has one.
\<close>

section \<open>Code\<close>

record NumShardsUnchecked =
  unchecked_intermediate_shards :: u16
  unchecked_leaf_shards_per_intermediate_shard :: u16

record NumShards =
  ns_intermediate_shards :: u16
  ns_leaf_shards_per_intermediate_shard :: u16

definition NumShardsUnchecked_from :: "NumShards \<Rightarrow> NumShardsUnchecked" where
  "NumShardsUnchecked_from value =
    \<lparr> unchecked_intermediate_shards = ns_intermediate_shards value,
      unchecked_leaf_shards_per_intermediate_shard = ns_leaf_shards_per_intermediate_shard value \<rparr>"

definition INTERMEDIATE_SHARD_BITS :: nat where
  "INTERMEDIATE_SHARD_BITS = 10"

definition leaf_shards :: "NumShards \<Rightarrow> u32 option" where
  "leaf_shards self =
    (let n = ucast (ns_intermediate_shards self) * ucast (ns_leaf_shards_per_intermediate_shard self)
     in if n = 0 then None else Some n)"

definition num_shards_new :: "u16 \<Rightarrow> u16 \<Rightarrow> NumShards option option" where
  "num_shards_new intermediate_shards leaf_shards_per_intermediate_shard =
    (if intermediate_shards > ucast (INTERMEDIATE_SHARDS_END - INTERMEDIATE_SHARDS_START + 1)
     then Some None
     else do {
       let num_shards = \<lparr> ns_intermediate_shards = intermediate_shards,
         ns_leaf_shards_per_intermediate_shard = leaf_shards_per_intermediate_shard \<rparr>;
       n \<leftarrow> leaf_shards num_shards;
       Some (if n > MAX_SHARDS then None else Some num_shards)
     })"

definition num_shards_try_from :: "NumShardsUnchecked \<Rightarrow> (unit + NumShards) option" where
  "num_shards_try_from value =
    (if unchecked_intermediate_shards value = 0 then Some (Inl ())
     else if unchecked_leaf_shards_per_intermediate_shard value = 0 then Some (Inl ())
     else map_option (\<lambda>r. case r of None \<Rightarrow> Inl () | Some num_shards \<Rightarrow> Inr num_shards)
       (num_shards_new (unchecked_intermediate_shards value)
         (unchecked_leaf_shards_per_intermediate_shard value)))"

definition iter_intermediate_shards :: "NumShards \<Rightarrow> ShardIndex list" where
  "iter_intermediate_shards self =
    take (unat (ns_intermediate_shards self))
      (map of_nat [unat INTERMEDIATE_SHARDS_START..<unat INTERMEDIATE_SHARDS_END + 1])"

definition iter_leaf_shards :: "NumShards \<Rightarrow> ShardIndex list" where
  "iter_leaf_shards self =
    concat (map (\<lambda>intermediate_shard.
      map (\<lambda>leaf_shard_index. shl (of_nat leaf_shard_index) INTERMEDIATE_SHARD_BITS OR intermediate_shard)
        [0..<unat (ns_leaf_shards_per_intermediate_shard self)])
      (iter_intermediate_shards self))"

subsection \<open>Remainder of a 256-bit number\<close>

record NanoU256 =
  nano_lo :: u128
  nano_hi :: u128

definition nano_from_le_bytes :: "u8 list \<Rightarrow> NanoU256" where
  "nano_from_le_bytes bytes =
    \<lparr> nano_lo = from_le_bytes (take 16 bytes), nano_hi = from_le_bytes (take 16 (drop 16 bytes)) \<rparr>"

definition nano_rem :: "NanoU256 \<Rightarrow> u64 \<Rightarrow> u64 option" where
  "nano_rem self rhs =
    (if rhs = 0 then None
     else let rhs = ucast rhs in
       if nano_hi self = 0 then Some (ucast (nano_lo self mod rhs))
       else
         let hi_rem = nano_hi self mod rhs;
             combined = shl hi_rem 64 OR shr (nano_lo self) 64;
             combined_rem = combined mod rhs;
             low = nano_lo self AND 0xffffffffffffffff;
             final_rem = (shl combined_rem 64 OR low) mod rhs
         in Some (ucast final_rem))"

subsection \<open>Shard of a farmer\<close>

definition NUM_LEAVES :: nat where
  "NUM_LEAVES = 2 ^ 20"

text \<open>
  The bytes hashed: the commitments root (32 bytes), the entropy (16) and the history size (8), each
  copied into its place of an array of 56 bytes.
\<close>

definition bytes_to_hash :: "u8 list \<Rightarrow> u8 list \<Rightarrow> u64 \<Rightarrow> u8 list option" where
  "bytes_to_hash shard_commitments_root shard_membership_entropy history_size = do {
    rust_assert (length shard_commitments_root = 32);
    rust_assert (length shard_membership_entropy = 16);
    Some (shard_commitments_root @ shard_membership_entropy @ to_le_bytes history_size)
  }"

definition derive_shard_index ::
  "Platform \<Rightarrow> NumShards \<Rightarrow> u8 list \<Rightarrow> u8 list \<Rightarrow> u8 list \<Rightarrow> u64 \<Rightarrow> ShardIndex option" where
  "derive_shard_index platform self public_key_hash shard_commitments_root
     shard_membership_entropy history_size = do {
    bytes \<leftarrow> bytes_to_hash shard_commitments_root shard_membership_entropy history_size;
    hash \<leftarrow> single_block_keyed_hash platform public_key_hash bytes;
    n \<leftarrow> leaf_shards self;
    shard_index_offset \<leftarrow> nano_rem (nano_from_le_bytes hash) (ucast n);
    let leafs = iter_leaf_shards self;
    Some (if unat shard_index_offset < length leafs then leafs ! unat shard_index_offset
          else BEACON_CHAIN)
  }"

definition derive_shard_commitment_index ::
  "Platform \<Rightarrow> u8 list \<Rightarrow> u8 list \<Rightarrow> u8 list \<Rightarrow> u64 \<Rightarrow> u32 option" where
  "derive_shard_commitment_index platform public_key_hash shard_commitments_root
     shard_membership_entropy history_size = do {
    bytes \<leftarrow> bytes_to_hash shard_commitments_root shard_membership_entropy history_size;
    hash \<leftarrow> single_block_keyed_hash platform public_key_hash bytes;
    Some (from_le_bytes [hash ! 0, hash ! 1, hash ! 2, hash ! 3] mod of_nat NUM_LEAVES)
  }"

definition derive_shard_index_and_shard_commitment_index ::
  "Platform \<Rightarrow> NumShards \<Rightarrow> u8 list \<Rightarrow> u8 list \<Rightarrow> u8 list \<Rightarrow> u64 \<Rightarrow> (ShardIndex \<times> u32) option" where
  "derive_shard_index_and_shard_commitment_index platform self public_key_hash
     shard_commitments_root shard_membership_entropy history_size = do {
    bytes \<leftarrow> bytes_to_hash shard_commitments_root shard_membership_entropy history_size;
    hash \<leftarrow> single_block_keyed_hash platform public_key_hash bytes;
    n \<leftarrow> leaf_shards self;
    shard_index_offset \<leftarrow> nano_rem (nano_from_le_bytes hash) (ucast n);
    let leafs = iter_leaf_shards self;
    let shard_index = (if unat shard_index_offset < length leafs
      then leafs ! unat shard_index_offset else BEACON_CHAIN);
    let shard_commitment_index =
      from_le_bytes [hash ! 0, hash ! 1, hash ! 2, hash ! 3] mod of_nat NUM_LEAVES;
    Some (shard_index, shard_commitment_index)
  }"

section \<open>Lemmas\<close>

subsection \<open>Counting shards\<close>

definition num_shards_ok :: "NumShards \<Rightarrow> bool" where
  "num_shards_ok self \<longleftrightarrow>
    0 < unat (ns_intermediate_shards self) \<and> unat (ns_intermediate_shards self) \<le> 1023 \<and>
    0 < unat (ns_leaf_shards_per_intermediate_shard self) \<and>
    unat (ns_intermediate_shards self) * unat (ns_leaf_shards_per_intermediate_shard self) \<le> 2 ^ 20"

lemma unat_u16: "unat (w :: u16) < 2 ^ 16"
  using unsigned_less [of w] by simp

lemma unat_leaf_product:
  "unat (ucast a * ucast b :: u32) = unat a * unat b" for a b :: u16
proof -
  have "unat a * unat b \<le> (2 ^ 16 - 1) * (2 ^ 16 - 1)"
    by (rule mult_le_mono) (use unat_u16 [of a] unat_u16 [of b] in simp_all)
  then have "unat a * unat b < 2 ^ 32" by simp
  then show ?thesis
    by (simp add: unat_word_ariths unat_ucast_up)
qed

lemma leaf_shards_eq:
  "leaf_shards self = (if ns_intermediate_shards self = 0 \<or> ns_leaf_shards_per_intermediate_shard self = 0
    then None else Some (ucast (ns_intermediate_shards self) * ucast (ns_leaf_shards_per_intermediate_shard self)))"
proof -
  have "(ucast (ns_intermediate_shards self) * ucast (ns_leaf_shards_per_intermediate_shard self) :: u32) = 0 \<longleftrightarrow>
      ns_intermediate_shards self = 0 \<or> ns_leaf_shards_per_intermediate_shard self = 0"
    using unat_leaf_product [of "ns_intermediate_shards self" "ns_leaf_shards_per_intermediate_shard self"]
    by (metis mult_is_0 unat_eq_0)
  then show ?thesis by (simp add: leaf_shards_def Let_def)
qed

lemma num_shards_new_iff:
  assumes "i \<noteq> 0" and "l \<noteq> 0"
  shows "num_shards_new i l =
    Some (if unat i \<le> 1023 \<and> unat i * unat l \<le> 2 ^ 20
      then Some \<lparr> ns_intermediate_shards = i, ns_leaf_shards_per_intermediate_shard = l \<rparr> else None)"
  using assms unat_leaf_product [of i l]
  by (auto simp: num_shards_new_def leaf_shards_eq Let_def word_less_nat_alt
      INTERMEDIATE_SHARDS_END_def INTERMEDIATE_SHARDS_START_def MAX_SHARDS_def)

lemma num_shards_ok_leaf_shards:
  assumes "num_shards_ok self"
  shows "\<exists>n. leaf_shards self = Some n \<and> unat n =
    unat (ns_intermediate_shards self) * unat (ns_leaf_shards_per_intermediate_shard self) \<and> n \<noteq> 0"
proof -
  have "ns_intermediate_shards self \<noteq> 0" "ns_leaf_shards_per_intermediate_shard self \<noteq> 0"
    using assms by (auto simp: num_shards_ok_def)
  then show ?thesis
    using unat_leaf_product [of "ns_intermediate_shards self" "ns_leaf_shards_per_intermediate_shard self"]
      assms by (auto simp: leaf_shards_eq num_shards_ok_def unat_eq_0 [symmetric])
qed

lemma num_shards_new_ok:
  assumes "num_shards_new i l = Some (Some self)" and "i \<noteq> 0" and "l \<noteq> 0"
  shows "num_shards_ok self"
  using assms(1) num_shards_new_iff [OF assms(2,3)] assms(2,3)
  by (auto simp: num_shards_ok_def unat_gt_0 split: if_splits)

subsection \<open>The leaf shards\<close>

lemma concat_map_nth:
  "\<forall>x\<in>set xs. length (f x) = n \<Longrightarrow> k < n * length xs \<Longrightarrow>
    concat (map f xs) ! k = f (xs ! (k div n)) ! (k mod n)"
proof (induction xs arbitrary: k)
  case (Cons x xs)
  then have n: "0 < n" by (cases n) auto
  show ?case
  proof (cases "k < n")
    case True
    with Cons.prems show ?thesis by (simp add: nth_append)
  next
    case False
    then have "k div n = Suc ((k - n) div n)" "k mod n = (k - n) mod n"
      using n by (simp_all add: le_div_geq le_mod_geq)
    with False Cons show ?thesis by (simp add: nth_append)
  qed
qed simp

lemma iter_intermediate_nth:
  assumes "num_shards_ok self" and "k < unat (ns_intermediate_shards self)"
  shows "iter_intermediate_shards self ! k = of_nat (k + 1)"
    and "length (iter_intermediate_shards self) = unat (ns_intermediate_shards self)"
  using assms
  by (simp_all add: iter_intermediate_shards_def num_shards_ok_def INTERMEDIATE_SHARDS_START_def
      INTERMEDIATE_SHARDS_END_def)

definition leaf_index :: "nat \<Rightarrow> nat \<Rightarrow> ShardIndex" where
  "leaf_index i j = shl (of_nat j) 10 OR of_nat i"

lemma iter_leaf_length:
  assumes "num_shards_ok self"
  shows "length (iter_leaf_shards self) =
    unat (ns_intermediate_shards self) * unat (ns_leaf_shards_per_intermediate_shard self)"
  using iter_intermediate_nth(2) [OF assms, of 0] assms
  by (simp add: iter_leaf_shards_def length_concat o_def sum_list_triv num_shards_ok_def)

lemma iter_leaf_nth:
  assumes "num_shards_ok self"
    and "k < unat (ns_intermediate_shards self) * unat (ns_leaf_shards_per_intermediate_shard self)"
  shows "iter_leaf_shards self ! k =
    leaf_index (k div unat (ns_leaf_shards_per_intermediate_shard self) + 1)
      (k mod unat (ns_leaf_shards_per_intermediate_shard self))"
proof -
  let ?l = "unat (ns_leaf_shards_per_intermediate_shard self)"
  have l: "0 < ?l" using assms(1) by (simp add: num_shards_ok_def)
  have i: "k div ?l < unat (ns_intermediate_shards self)"
    using assms(2) l by (simp add: div_less_iff_less_mult)
  note inter = iter_intermediate_nth [OF assms(1) i]
  show ?thesis
    unfolding iter_leaf_shards_def
    by (subst concat_map_nth [where n = ?l])
      (use inter l assms(2) in \<open>simp_all add: leaf_index_def INTERMEDIATE_SHARD_BITS_def mult.commute\<close>)
qed

lemma unat_shl_or:
  fixes a b :: "'a::len word"
  assumes "k < LENGTH('a)" and "unat b < 2 ^ k" and "unat a * 2 ^ k + unat b < 2 ^ LENGTH('a)"
  shows "unat (shl a k OR b) = unat a * 2 ^ k + unat b"
proof -
  have bits: "n < k" if "bit b n" for n
  proof -
    have "bit (unat b) n" using that by (simp add: bit_unsigned_iff)
    moreover have "take_bit k (unat b) = unat b" using assms(2) by (rule take_bit_nat_eq_self)
    ultimately show ?thesis by (metis bit_take_bit_iff)
  qed
  have "shl a k AND b = 0"
    by (rule bit_word_eqI) (use bits assms(1) in \<open>auto simp: shl_def bit_simps not_le\<close>)
  then have "shl a k OR b = shl a k + b" by (rule disjunctive_add_eq_or [symmetric])
  moreover have "unat (shl a k) = unat a * 2 ^ k"
  proof -
    have "unat a * 2 ^ k < 2 ^ LENGTH('a)" using assms(3) by linarith
    moreover have "unat (2 ^ k :: 'a word) = 2 ^ k"
      using unat_of_nat_less [where 'a = 'a, of "2 ^ k"] assms(1) by simp
    ultimately show ?thesis
      using assms(1) by (simp add: shl_def push_bit_eq_mult unat_word_ariths)
  qed
  ultimately show ?thesis using assms(3) by (simp add: unat_word_ariths)
qed

lemma unat_leaf_index:
  assumes "i \<le> 1023" and "j < 2 ^ 16"
  shows "unat (leaf_index i j) = j * 2 ^ 10 + i"
proof -
  have "unat (of_nat j :: u32) = j" "unat (of_nat i :: u32) = i"
    using assms by (simp_all add: unat_of_nat)
  then show ?thesis unfolding leaf_index_def using assms by (subst unat_shl_or) simp_all
qed

lemma leaf_index_parent:
  assumes "1 \<le> i" and "i \<le> 1023" and "j < 2 ^ 16"
  shows "leaf_index i j AND INTERMEDIATE_SHARD_MASK = of_nat i"
proof -
  have "unat (leaf_index i j AND INTERMEDIATE_SHARD_MASK) = (j * 2 ^ 10 + i) mod 2 ^ 10"
    unfolding shard_consts take_bit_eq_mask [symmetric] unsigned_take_bit_eq
      unat_leaf_index [OF assms(2,3)] by (rule take_bit_eq_mod)
  also have "\<dots> = unat (of_nat i :: u32)" using assms(2) by (simp add: unat_of_nat)
  finally show ?thesis by (simp add: word_unat_eq_iff)
qed

lemma leaf_index_kind:
  assumes "1 \<le> i" and "i \<le> 1023" and "j < 2 ^ 16"
  shows "shard_kind (leaf_index i j) =
    (if j = 0 then Some IntermediateShard else if j < 1024 then Some LeafShard else None)"
proof -
  have i: "(of_nat i :: u32) \<noteq> 0" using assms(1,2) by (simp add: word_unat_eq_iff unat_of_nat)
  note u = unat_leaf_index [OF assms(2,3)]
  have "shard_kind (leaf_index i j) =
    (if j * 2 ^ 10 + i = 0 then Some BeaconChain
     else if 1 \<le> j * 2 ^ 10 + i \<and> j * 2 ^ 10 + i \<le> 1023 then Some IntermediateShard
     else if 2 ^ 20 - 1 < j * 2 ^ 10 + i then None else Some LeafShard)"
    unfolding shard_kind_def leaf_index_parent [OF assms] word_le_nat_alt word_less_nat_alt
      word_unat_eq_iff [of "leaf_index i j"] u
    using i by (simp add: INTERMEDIATE_SHARDS_START_def INTERMEDIATE_SHARDS_END_def BEACON_CHAIN_def
        MAX_SHARD_INDEX_def MAX_SHARDS_def)
  with assms(1,2) show ?thesis by auto
qed

subsection \<open>Remainder\<close>

definition nano_value :: "NanoU256 \<Rightarrow> nat" where
  "nano_value self = unat (nano_hi self) * 2 ^ 128 + unat (nano_lo self)"

lemma unat_mod_word: "unat (a mod b) = unat a mod unat b" for a b :: u128
  by (simp add: unat_mod_distrib)

lemma mod_limbs: "((h mod m * b + l) mod m * b + k) mod m = (h * b * b + (l * b + k)) mod m"
  for h l k b m :: nat
proof -
  have "((h mod m * b + l) mod m * b + k) mod m = ((h * b + l) * b + k) mod m"
    by (metis mod_add_left_eq mod_mult_left_eq)
  then show ?thesis by (simp add: algebra_simps)
qed

lemma nano_rem_correct:
  assumes "rhs \<noteq> 0"
  shows "\<exists>r. nano_rem self rhs = Some r \<and> unat r = nano_value self mod unat rhs"
proof -
  let ?m = "unat rhs" and ?M = "ucast rhs :: u128"
  have m: "unat ?M = ?m" by (simp add: unat_ucast_up)
  have pos: "0 < ?m" using assms by (simp add: unat_gt_0)
  have le: "?m < 2 ^ 64" using unsigned_less [of rhs] by simp
  have small: "x mod ?m < 2 ^ 64" for x using pos le mod_less_divisor less_trans by blast
  have cast: "unat (ucast w :: u64) = unat w" if "unat w < 2 ^ 64" for w :: u128
    using that by (simp add: unsigned_ucast_eq take_bit_nat_eq_self)
  define lo hi where "lo = nano_lo self" and "hi = nano_hi self"
  have high: "unat (shr lo 64) = unat lo div 2 ^ 64"
    by (simp add: shr_def drop_bit_eq_div unat_div_distrib)
  have "unat lo < 2 ^ 64 * 2 ^ 64" using unsigned_less [of lo, where 'a = nat] by simp
  then have high_less: "unat (shr lo 64) < 2 ^ 64" unfolding high by (rule less_mult_imp_div_less)
  have "lo AND 0xffffffffffffffff = take_bit 64 lo" by (simp add: take_bit_eq_mask mask_eq_exp_minus_1)
  then have low: "unat (lo AND 0xffffffffffffffff) = unat lo mod 2 ^ 64"
    by (simp only: unsigned_take_bit_eq) (simp add: take_bit_eq_mod)
  have low_less: "unat (lo AND 0xffffffffffffffff) < 2 ^ 64" using low by simp
  have join: "unat (shl a 64 OR b) = unat a * 2 ^ 64 + unat b"
    if "unat a < 2 ^ 64" "unat b < 2 ^ 64" for a b :: u128
  proof (rule unat_shl_or)
    have "unat a * 2 ^ 64 + unat b < (unat a + 1) * 2 ^ 64" using that(2) by simp
    also have "\<dots> \<le> 2 ^ 64 * 2 ^ 64" using that(1) by (intro mult_le_mono1) simp
    finally show "unat a * 2 ^ 64 + unat b < 2 ^ LENGTH(128)" by simp
  qed (use that in simp_all)
  show ?thesis
  proof (cases "hi = 0")
    case True
    have "unat (ucast (lo mod ?M) :: u64) = unat lo mod ?m"
      using small [of "unat lo"] by (subst cast) (simp_all add: unat_mod_word m)
    with True assms show ?thesis by (simp add: nano_rem_def nano_value_def Let_def flip: lo_def hi_def)
  next
    case False
    define c where "c = shl (hi mod ?M) 64 OR shr lo 64"
    define f where "f = shl (c mod ?M) 64 OR (lo AND 0xffffffffffffffff)"
    have c: "unat c = unat hi mod ?m * 2 ^ 64 + unat lo div 2 ^ 64"
      unfolding c_def using small high high_less by (subst join) (simp_all add: unat_mod_word m)
    have "unat f = unat c mod ?m * 2 ^ 64 + unat lo mod 2 ^ 64"
      unfolding f_def using small low low_less by (subst join) (simp_all add: unat_mod_word m)
    then have "unat f mod ?m = (unat hi * 2 ^ 64 * 2 ^ 64 + (unat lo div 2 ^ 64 * 2 ^ 64 + unat lo mod 2 ^ 64)) mod ?m"
      unfolding c by (simp only: mod_limbs)
    also have "\<dots> = nano_value self mod ?m"
      by (simp add: nano_value_def mult.commute flip: lo_def hi_def)
    finally have "unat (ucast (f mod ?M) :: u64) = nano_value self mod ?m"
      using small by (subst cast) (simp_all add: unat_mod_word m)
    with False assms show ?thesis
      by (simp add: nano_rem_def Let_def c_def f_def flip: lo_def hi_def)
  qed
qed

section \<open>Properties\<close>

text \<open>
  C38: A farmer is assigned the leaf shard whose position among all leaf shards is the 256-bit keyed
  hash of the inputs modulo their number, so the fallback to the beacon chain is never taken. The
  commitment index is below the number of leaves of the commitments tree, and the combined function
  returns what the two separate ones do.
\<close>

theorem derive_shard_indices:
  assumes "blake3_platform platform" and "num_shards_ok self" and "length public_key_hash = 32"
    and "length shard_commitments_root = 32" and "length shard_membership_entropy = 16"
    and "hash = blake3_keyed_hash public_key_hash
      (shard_commitments_root @ shard_membership_entropy @ to_le_bytes history_size)"
    and "s = iter_leaf_shards self !
      (nano_value (nano_from_le_bytes hash) mod length (iter_leaf_shards self))"
  shows "\<exists>c. s \<in> set (iter_leaf_shards self) \<and> unat c < NUM_LEAVES \<and>
    derive_shard_index platform self public_key_hash shard_commitments_root
      shard_membership_entropy history_size = Some s \<and>
    derive_shard_commitment_index platform public_key_hash shard_commitments_root
      shard_membership_entropy history_size = Some c \<and>
    derive_shard_index_and_shard_commitment_index platform self public_key_hash
      shard_commitments_root shard_membership_entropy history_size = Some (s, c)"
proof -
  let ?input = "shard_commitments_root @ shard_membership_entropy @ to_le_bytes history_size"
  have bytes: "bytes_to_hash shard_commitments_root shard_membership_entropy history_size = Some ?input"
    using assms(4,5) by (simp add: bytes_to_hash_def)
  have hashed: "single_block_keyed_hash platform public_key_hash ?input = Some hash"
    using assms(4,5,6) blake3_platform.hash_block_eq [OF assms(1)]
    by (simp add: single_block_keyed_hash_def blake3_keyed_hash_def)
  obtain n where n: "leaf_shards self = Some n" "unat n = length (iter_leaf_shards self)" "n \<noteq> 0"
    using num_shards_ok_leaf_shards [OF assms(2)] iter_leaf_length [OF assms(2)] by auto
  have cast: "unat (ucast n :: u64) = length (iter_leaf_shards self)"
    using n(2) by (simp add: unat_ucast_up)
  then have "(ucast n :: u64) \<noteq> 0" using n(2,3) by (metis unat_eq_0)
  from nano_rem_correct [OF this, of "nano_from_le_bytes hash"] obtain r where
    r: "nano_rem (nano_from_le_bytes hash) (ucast n) = Some r"
    "unat r = nano_value (nano_from_le_bytes hash) mod length (iter_leaf_shards self)"
    unfolding cast by blast
  have "0 < length (iter_leaf_shards self)" using n(2,3) by (metis unat_gt_0)
  then have less: "unat r < length (iter_leaf_shards self)" unfolding r(2) by (rule mod_less_divisor)
  define c :: u32 where "c = from_le_bytes [hash ! 0, hash ! 1, hash ! 2, hash ! 3] mod of_nat NUM_LEAVES"
  have "unat (of_nat NUM_LEAVES :: u32) = NUM_LEAVES" by (simp add: NUM_LEAVES_def)
  then have c: "unat c < NUM_LEAVES"
    by (simp add: c_def unat_mod_distrib) (simp add: NUM_LEAVES_def)
  have "s \<in> set (iter_leaf_shards self)" using less assms(7) r(2) by simp
  with c show ?thesis
    using bytes hashed n(1) r(1) less assms(7) [folded r(2)]
    by (intro exI [of _ c]) (simp add: derive_shard_index_def derive_shard_commitment_index_def
        derive_shard_index_and_shard_commitment_index_def Let_def c_def)
qed

theorem derive_shard_indices_witness:
  "\<exists>s c. s \<in> set (iter_leaf_shards \<lparr> ns_intermediate_shards = 2, ns_leaf_shards_per_intermediate_shard = 3 \<rparr>) \<and>
    unat c < NUM_LEAVES \<and>
    derive_shard_index_and_shard_commitment_index portable_platform
      \<lparr> ns_intermediate_shards = 2, ns_leaf_shards_per_intermediate_shard = 3 \<rparr> (replicate 32 1)
      (replicate 32 2) (replicate 16 3) 7 = Some (s, c)"
  using derive_shard_indices [OF portable.blake3_platform_axioms, of
      "\<lparr> ns_intermediate_shards = 2, ns_leaf_shards_per_intermediate_shard = 3 \<rparr>"
      "replicate 32 1" "replicate 32 2" "replicate 16 3" _ 7, OF _ _ _ _ refl refl]
  by (auto simp: num_shards_ok_def)

text \<open>
  C39: What the shards enumerated as leaf shards are, for every number of shards that is accepted.
  The shard at offset \<open>j\<close> of an intermediate shard is a leaf shard exactly for \<open>1 \<le> j < 1024\<close>. At
  offset zero it is the intermediate shard itself, and from offset 1024 on, which is reached as
  soon as more than 1024 leaf shards per intermediate shard are accepted, it is not a valid shard index.
\<close>

theorem leaf_shards_enumerated:
  assumes "num_shards_new i l = Some (Some self)" and "i \<noteq> 0" and "l \<noteq> 0"
    and "k < length (iter_leaf_shards self)"
  shows "shard_kind (iter_leaf_shards self ! k) =
    (if k mod unat l = 0 then Some IntermediateShard
     else if k mod unat l < 1024 then Some LeafShard else None)"
proof -
  note ok = num_shards_new_ok [OF assms(1-3)]
  have self: "self = \<lparr> ns_intermediate_shards = i, ns_leaf_shards_per_intermediate_shard = l \<rparr>"
    using assms(1) num_shards_new_iff [OF assms(2,3)] by (auto split: if_splits)
  have k: "k < unat i * unat l" using iter_leaf_length [OF ok] assms(4) self by simp
  have l: "0 < unat l" using assms(3) by (simp add: unat_gt_0)
  have "k div unat l < unat i" using k l by (simp add: div_less_iff_less_mult)
  then have "k div unat l + 1 \<le> 1023" using ok self by (simp add: num_shards_ok_def)
  moreover have "k mod unat l < 2 ^ 16" using unat_u16 [of l] mod_less_divisor [OF l, of k] by linarith
  ultimately show ?thesis
    using iter_leaf_nth [OF ok, of k] k self leaf_index_kind [of "k div unat l + 1" "k mod unat l"]
    by simp
qed

theorem leaf_shards_enumerated_witness:
  "(\<exists>self. num_shards_new 1 2000 = Some (Some self) \<and>
    shard_kind (iter_leaf_shards self ! 0) = Some IntermediateShard \<and>
    shard_kind (iter_leaf_shards self ! 1) = Some LeafShard \<and>
    shard_kind (iter_leaf_shards self ! 1024) = None)"
proof -
  obtain self where self: "num_shards_new 1 2000 = Some (Some self)"
    using num_shards_new_iff [of 1 2000] by simp
  have "length (iter_leaf_shards self) = 2000"
    using iter_leaf_length [OF num_shards_new_ok [OF self]] self num_shards_new_iff [of 1 2000] by auto
  with self leaf_shards_enumerated [OF self, of 0] leaf_shards_enumerated [OF self, of 1]
    leaf_shards_enumerated [OF self, of 1024] show ?thesis by simp
qed

end
