(* ===== verification/Address_Format.thy ===== *)
theory Address_Format
  imports Address Rust_Slices
begin

text \<open>
  Formatting and parsing of addresses (\<^verbatim>\<open>crates/shared/ab-core-primitives/src/address.rs\<close>).

  The bech32 encoding is an external crate. Its two functions are parameters: \<open>encode\<close> is the iterator
  over the characters of a human-readable part and bytes with checksum, and \<open>checked\<close> is
  \<open>CheckedHrpstring::new\<close> followed by \<open>hrp\<close> and \<open>byte_iter\<close>. What the code relies on is
  \<open>bech32_laws\<close>. Strings are lists of their bytes; the code only splits them next to ASCII
  characters.

  An outer \<open>None\<close> is a panic. Buffers of fixed size that are filled front to back are the list of
  what was written, with the bound checked at each write.
\<close>

section \<open>Code\<close>

definition MAX_HRP_LENGTH :: nat where "MAX_HRP_LENGTH = 5"
definition MAX_ENCODING_WITHOUT_HRP_NO_SEPARATOR :: nat where
  "MAX_ENCODING_WITHOUT_HRP_NO_SEPARATOR = 33"
definition MAX_ENCODING_WITHOUT_HRP_WITH_SEPARATOR :: nat where
  "MAX_ENCODING_WITHOUT_HRP_WITH_SEPARATOR = 39"

definition FORMATTED_BUFFER_LEN :: nat where
  "FORMATTED_BUFFER_LEN = MAX_HRP_LENGTH + MAX_ENCODING_WITHOUT_HRP_WITH_SEPARATOR"

definition short_hrp_new :: "u8 list \<Rightarrow> u8 list option" where
  "short_hrp_new hrp = (if length hrp > MAX_HRP_LENGTH then None else Some hrp)"

definition FORMAT_SEPARATOR_INTERVAL :: "nat list" where
  "FORMAT_SEPARATOR_INTERVAL = [1 + 4, 4, 3, 4, 4, 3, 4]"
definition FORMAT_SEPARATOR :: u8 where "FORMAT_SEPARATOR = 45"
definition FORMAT_ALL_ZEROES :: u8 where "FORMAT_ALL_ZEROES = 113"
definition FORMAT_CHECKSUM_LENGTH :: nat where "FORMAT_CHECKSUM_LENGTH = 6"

text \<open>The digit one, which separates the human-readable part from the data.\<close>

definition HRP_SEPARATOR :: u8 where "HRP_SEPARATOR = 49"

subsection \<open>Parsing\<close>

definition split_once :: "u8 \<Rightarrow> u8 list \<Rightarrow> (u8 list \<times> u8 list) option" where
  "split_once c s =
    (if c \<in> set s then Some (takeWhile (\<lambda>x. x \<noteq> c) s, tl (dropWhile (\<lambda>x. x \<noteq> c) s)) else None)"

fun split_bytes :: "u8 \<Rightarrow> u8 list \<Rightarrow> u8 list list" where
  "split_bytes c [] = [[]]"
| "split_bytes c (x # xs) =
    (if x = c then [] # split_bytes c xs
     else case split_bytes c xs of p # ps \<Rightarrow> (x # p) # ps | [] \<Rightarrow> [[x]])"

definition rsplit :: "u8 \<Rightarrow> u8 list \<Rightarrow> u8 list list" where
  "rsplit c s = rev (split_bytes c s)"

text \<open>
  The loop over the chunks, from the last one. \<open>buffer\<close> is the part not yet split off, \<open>tail\<close> what
  follows it; the inner \<open>None\<close> is the early return.
\<close>

fun parse_chunks ::
  "nat \<Rightarrow> u8 list \<Rightarrow> u8 list \<Rightarrow> (u8 list \<times> nat) list \<Rightarrow> u8 list option option" where
  "parse_chunks hrp_len buffer tail [] = Some (Some (buffer @ tail))"
| "parse_chunks hrp_len buffer tail [(chunk, max_chunk_length)] =
    (if hrp_len + 1 + length chunk \<le> length buffer
     then Some (Some (take (hrp_len + 1) buffer @ chunk @
       drop (hrp_len + 1 + length chunk) buffer @ tail))
     else None)"
| "parse_chunks hrp_len buffer tail ((chunk, max_chunk_length) # next # rest) =
    (if length chunk > max_chunk_length then Some None
     else if max_chunk_length > length buffer then None
     else
       let target_chunk = drop (length buffer - max_chunk_length) buffer
       in parse_chunks hrp_len (take (length buffer - max_chunk_length) buffer)
         (take (max_chunk_length - length chunk) target_chunk @ chunk @ tail) (next # rest))"

definition address_parse ::
  "(u8 list \<Rightarrow> (u8 list \<times> u8 list) option) \<Rightarrow> u8 list \<Rightarrow> (u8 list \<times> Address) option option" where
  "address_parse checked s =
    (case split_once HRP_SEPARATOR s of
       None \<Rightarrow> Some None
     | Some (hrp, other) \<Rightarrow>
         if length hrp > MAX_HRP_LENGTH then Some None
         else
           let buffer = take (length hrp + 1) s @
                 replicate (FORMATTED_BUFFER_LEN - (length hrp + 1)) FORMAT_ALL_ZEROES;
               scratch_length = length hrp + MAX_ENCODING_WITHOUT_HRP_NO_SEPARATOR;
               chunks = rsplit FORMAT_SEPARATOR other;
               checksum = hd chunks
           in if length checksum \<noteq> FORMAT_CHECKSUM_LENGTH then Some None
              else
                (case parse_chunks (length hrp) (take (scratch_length - FORMAT_CHECKSUM_LENGTH) buffer)
                    checksum (zip (tl chunks) (rev FORMAT_SEPARATOR_INTERVAL)) of
                   None \<Rightarrow> None
                 | Some None \<Rightarrow> Some None
                 | Some (Some scratch) \<Rightarrow>
                     Some (do {
                       (checked_hrp, bytes) \<leftarrow> checked scratch;
                       short_hrp \<leftarrow> short_hrp_new checked_hrp;
                       address_bytes \<leftarrow> (if length bytes = 16 then Some bytes else None);
                       Some (short_hrp, Address_from (from_le_bytes (rev address_bytes)))
                     })))"

subsection \<open>Formatting\<close>

definition format_write :: "u8 list \<Rightarrow> u8 list \<Rightarrow> u8 list option" where
  "format_write buffer bytes =
    (if length buffer + length bytes \<le> FORMATTED_BUFFER_LEN then Some (buffer @ bytes) else None)"

definition trim_end_matches :: "u8 \<Rightarrow> u8 list \<Rightarrow> u8 list" where
  "trim_end_matches c s = rev (dropWhile (\<lambda>x. x = c) (rev s))"

definition trim_start_matches :: "u8 \<Rightarrow> u8 list \<Rightarrow> u8 list" where
  "trim_start_matches c s = dropWhile (\<lambda>x. x = c) s"

primrec format_chunks :: "nat list \<Rightarrow> bool \<Rightarrow> u8 list \<Rightarrow> u8 list \<Rightarrow> u8 list option" where
  "format_chunks [] finished_trimming address_within_shard buffer = Some buffer"
| "format_chunks (chunk_size # chunk_sizes) finished_trimming address_within_shard buffer = do {
    (chunk, address_within_shard) \<leftarrow> split_at chunk_size address_within_shard;
    let chunk = (if \<not> finished_trimming then trim_start_matches FORMAT_ALL_ZEROES chunk else chunk);
    if \<not> finished_trimming \<and> chunk = []
    then format_chunks chunk_sizes finished_trimming address_within_shard buffer
    else do {
      buffer \<leftarrow> format_write buffer chunk;
      buffer \<leftarrow> format_write buffer [FORMAT_SEPARATOR];
      format_chunks chunk_sizes True address_within_shard buffer
    }
  }"

definition address_format ::
  "(u8 list \<Rightarrow> u8 list \<Rightarrow> u8 list) \<Rightarrow> Address \<Rightarrow> u8 list \<Rightarrow> u8 list option" where
  "address_format encode self hrp = do {
    scratch \<leftarrow> format_write [] (encode hrp (rev (to_le_bytes (u128_from_Address self))));
    (prefix_with_shard, other) \<leftarrow> split_at (length hrp + FORMAT_SEPARATOR_INTERVAL ! 0) scratch;
    (address_within_shard, checksum) \<leftarrow> split_at (sum_list (tl FORMAT_SEPARATOR_INTERVAL)) other;
    let prefix_with_shard = trim_end_matches FORMAT_ALL_ZEROES prefix_with_shard;
    buffer \<leftarrow> format_write [] prefix_with_shard;
    buffer \<leftarrow> format_write buffer [FORMAT_SEPARATOR];
    buffer \<leftarrow> format_chunks (tl FORMAT_SEPARATOR_INTERVAL) False address_within_shard buffer;
    format_write buffer checksum
  }"

section \<open>Splitting and joining\<close>

definition bech32_laws ::
  "(u8 list \<Rightarrow> u8 list \<Rightarrow> u8 list) \<Rightarrow> (u8 list \<Rightarrow> (u8 list \<times> u8 list) option) \<Rightarrow>
    u8 list \<Rightarrow> u8 list \<Rightarrow> u8 list \<Rightarrow> u8 list \<Rightarrow> bool" where
  "bech32_laws encode checked hrp bytes data checksum \<longleftrightarrow>
    encode hrp bytes = hrp @ [HRP_SEPARATOR] @ data @ checksum \<and>
    length data = 26 \<and> length checksum = 6 \<and> FORMAT_SEPARATOR \<notin> set (data @ checksum) \<and>
    checked (encode hrp bytes) = Some (hrp, bytes)"

abbreviation (input) q :: u8 where "q \<equiv> FORMAT_ALL_ZEROES"

lemma split_bytes_plain: "c \<notin> set p \<Longrightarrow> split_bytes c p = [p]"
  by (induction p) auto

lemma split_bytes_Cons: "c \<notin> set p \<Longrightarrow> split_bytes c (p @ c # rest) = p # split_bytes c rest"
  by (induction p) auto

lemma split_bytes_join:
  "\<forall>p\<in>set ps. c \<notin> set p \<Longrightarrow> c \<notin> set r \<Longrightarrow>
    split_bytes c (concat (map (\<lambda>p. p @ [c]) ps) @ r) = ps @ [r]"
  by (induction ps) (simp_all add: split_bytes_plain split_bytes_Cons)

lemma split_once_found: "c \<notin> set a \<Longrightarrow> split_once c (a @ c # b) = Some (a, b)"
  by (simp add: split_once_def takeWhile_append dropWhile_append)

lemma trim_start_fill: "s = replicate (length s - length (trim_start_matches c s)) c @ trim_start_matches c s"
proof (induction s)
  case (Cons x s)
  have "length (trim_start_matches c s) \<le> length s"
    unfolding trim_start_matches_def by (rule length_dropWhile_le)
  with Cons show ?case by (auto simp: trim_start_matches_def Suc_diff_le)
qed (simp add: trim_start_matches_def)

lemma trim_end_fill: "s = trim_end_matches c s @ replicate (length s - length (trim_end_matches c s)) c"
proof -
  have "rev s = replicate (length (rev s) - length (trim_start_matches c (rev s))) c @ trim_start_matches c (rev s)"
    by (rule trim_start_fill)
  then have "rev (rev s) = rev (replicate (length s - length (trim_start_matches c (rev s))) c @
      trim_start_matches c (rev s))" by simp
  then show ?thesis by (simp add: trim_end_matches_def trim_start_matches_def)
qed

lemma length_trim: "length (trim_start_matches c s) \<le> length s" "length (trim_end_matches c s) \<le> length s"
  using length_dropWhile_le [of "\<lambda>x. x = c" s] length_dropWhile_le [of "\<lambda>x. x = c" "rev s"]
  by (simp_all add: trim_start_matches_def trim_end_matches_def)

lemma set_trim: "set (trim_start_matches c s) \<subseteq> set s" "set (trim_end_matches c s) \<subseteq> set s"
  by (auto simp: trim_start_matches_def trim_end_matches_def dest!: set_dropWhileD)

lemma trim_end_prefix: "x \<noteq> c \<Longrightarrow> trim_end_matches c (a @ x # s) = a @ x # trim_end_matches c s"
  by (simp add: trim_end_matches_def dropWhile_append)

section \<open>The pieces of a formatted address\<close>

primrec pieces :: "nat list \<Rightarrow> bool \<Rightarrow> u8 list \<Rightarrow> u8 list list" where
  "pieces [] finished w = []"
| "pieces (n # ns) finished w =
    (if finished then take n w # pieces ns True (drop n w)
     else let c = trim_start_matches q (take n w) in
       if c = [] then pieces ns False (drop n w) else c # pieces ns True (drop n w))"

abbreviation joined :: "u8 list list \<Rightarrow> u8 list" where
  "joined ps \<equiv> concat (map (\<lambda>p. p @ [FORMAT_SEPARATOR]) ps)"

lemma format_chunks_eq:
  "sum_list ns \<le> length w \<Longrightarrow> length buffer \<le> 44 \<Longrightarrow>
    format_chunks ns finished w buffer =
    (if length (buffer @ joined (pieces ns finished w)) \<le> 44
     then Some (buffer @ joined (pieces ns finished w)) else None)"
proof (induction ns arbitrary: finished w buffer)
  case (Cons n ns)
  define c where "c = (if \<not> finished then trim_start_matches q (take n w) else take n w)"
  have sp: "split_at n w = Some (take n w, drop n w)" using Cons.prems(1) by (simp add: split_at_def)
  have rest: "sum_list ns \<le> length (drop n w)" using Cons.prems(1) by simp
  show ?case
  proof (cases "\<not> finished \<and> c = []")
    case True
    then have "\<not> finished" "trim_start_matches q (take n w) = []" by (auto simp: c_def)
    then show ?thesis using Cons.IH [OF rest Cons.prems(2)] sp by (simp add: Let_def)
  next
    case False
    then have ps: "pieces (n # ns) finished w = c # pieces ns True (drop n w)"
      by (auto simp: c_def Let_def)
    have step: "format_chunks (n # ns) finished w buffer = do {
        buffer \<leftarrow> format_write buffer c;
        buffer \<leftarrow> format_write buffer [FORMAT_SEPARATOR];
        format_chunks ns True (drop n w) buffer }"
      using False sp by (auto simp: c_def [symmetric] Let_def)
    show ?thesis
      using Cons.IH [OF rest, of "buffer @ c @ [FORMAT_SEPARATOR]" True] Cons.prems(2)
      unfolding step ps
      by (auto simp: format_write_def FORMATTED_BUFFER_LEN_def MAX_HRP_LENGTH_def
          MAX_ENCODING_WITHOUT_HRP_WITH_SEPARATOR_def)
  qed
qed simp

lemma set_pieces: "\<forall>p\<in>set (pieces ns finished w). set p \<subseteq> set w"
proof (induction ns arbitrary: finished w)
  case (Cons n ns)
  have "\<forall>p\<in>set (pieces ns f (drop n w)). set p \<subseteq> set w" for f
    using Cons [of f "drop n w"] set_drop_subset [of n w] by blast
  then show ?case
    using set_take_subset [of n w] set_trim(1) [of q "take n w"] by (auto simp: Let_def)
qed simp

lemma length_pieces: "length (pieces ns finished w) \<le> length ns"
  by (induction ns arbitrary: finished w) (auto simp: Let_def intro: le_SucI)

lemma pieces_snoc:
  "length w = sum_list ns \<Longrightarrow>
    pieces (ns @ [n]) finished (w @ v) = pieces ns finished w @
      (if finished \<or> (\<exists>x\<in>set w. x \<noteq> q) then [take n v]
       else if trim_start_matches q (take n v) = [] then [] else [trim_start_matches q (take n v)])"
proof (induction ns arbitrary: finished w)
  case (Cons m ns)
  have len: "length (drop m w) = sum_list ns" and take: "take m (w @ v) = take m w"
    and drop: "drop m (w @ v) = drop m w @ v" using Cons.prems by simp_all
  have split: "set w = set (take m w) \<union> set (drop m w)"
    by (metis append_take_drop_id set_append)
  have empty: "trim_start_matches q (take m w) = [] \<longleftrightarrow> (\<forall>x\<in>set (take m w). x = q)"
    by (simp add: trim_start_matches_def)
  show ?case
  proof (cases finished)
    case True
    then show ?thesis using Cons.IH [OF len] by (simp add: take drop del: take_append drop_append)
  next
    case False
    show ?thesis
    proof (cases "trim_start_matches q (take m w) = []")
      case True
      then have "(\<exists>x\<in>set w. x \<noteq> q) \<longleftrightarrow> (\<exists>x\<in>set (drop m w). x \<noteq> q)"
        unfolding empty split by auto
      then show ?thesis
        using Cons.IH [OF len] False True by (simp add: take drop Let_def del: take_append drop_append)
    next
      case nonempty: False
      then have "\<exists>x\<in>set w. x \<noteq> q" unfolding empty split by auto
      then show ?thesis
        using Cons.IH [OF len] False nonempty by (simp add: take drop Let_def del: take_append drop_append)
    qed
  qed
qed (simp add: Let_def)

lemma length_joined_pieces:
  "sum_list ns \<le> length w \<Longrightarrow>
    length (joined (pieces ns True w)) = sum_list ns + length ns"
  by (induction ns arbitrary: w) auto

lemma length_joined_pieces_le:
  "sum_list ns \<le> length w \<Longrightarrow> length (joined (pieces ns False w)) \<le> sum_list ns + length ns"
proof (induction ns arbitrary: w)
  case (Cons n ns)
  have rest: "sum_list ns \<le> length (drop n w)" using Cons.prems by simp
  show ?case
    using Cons.IH [OF rest] length_joined_pieces [OF rest] length_trim(1) [of q "take n w"]
    by (auto simp: Let_def)
qed simp

lemma length_joined_pieces_eq:
  assumes "0 < n" and "n + sum_list ns \<le> length w"
  shows "length (joined (pieces (n # ns) False w)) = n + sum_list ns + length ns + 1 \<longleftrightarrow> w ! 0 \<noteq> q"
proof -
  have rest: "sum_list ns \<le> length (drop n w)" using assms by simp
  obtain x t where w: "take n w = x # t" "w ! 0 = x" using assms by (cases w; cases n) auto
  have n: "length t + 1 = n" using w(1) assms by (metis Suc_eq_plus1 length_Cons length_take min.absorb2 trans_le_add1 add_leD1)
  show ?thesis
  proof (cases "x = q")
    case True
    then have "length (trim_start_matches q (take n w)) \<le> length t"
      using length_trim(1) [of q t] w(1) by (simp add: trim_start_matches_def)
    then show ?thesis
      using length_joined_pieces [OF rest] length_joined_pieces_le [OF rest] n True w(2)
      by (auto simp: Let_def)
  next
    case False
    then have "trim_start_matches q (take n w) = take n w" using w(1) by (simp add: trim_start_matches_def)
    then show ?thesis
      using length_joined_pieces [OF rest] n False w by (simp add: Let_def)
  qed
qed

section \<open>Parsing the pieces\<close>

lemma zip_snoc:
  "length xs \<le> length zs \<Longrightarrow> \<exists>m. zip (xs @ [y]) (zs @ [v]) = zip xs zs @ [(y, m)]"
proof (induction xs arbitrary: zs)
  case Nil
  then show ?case by (cases zs) simp_all
next
  case (Cons x xs)
  then obtain z zs' where "zs = z # zs'" by (cases zs) auto
  with Cons show ?case by simp
qed

lemma parse_pieces_base:
  assumes "\<forall>x\<in>set w. x = q" and "length shard = 4" and "length w = n"
  shows "parse_chunks (length hrp) (hrp @ HRP_SEPARATOR # replicate (4 + n) q) tail
      [(trim_end_matches q shard, m)] =
    Some (Some (hrp @ HRP_SEPARATOR # shard @ w @ tail))"
proof -
  let ?t = "trim_end_matches q shard"
  have w: "w = replicate n q" using assms(1,3) by (metis replicate_eqI)
  have t: "length ?t \<le> 4" using length_trim(2) [of q shard] assms(2) by simp
  have "shard = ?t @ replicate (4 - length ?t) q" using trim_end_fill [of shard q] assms(2) by simp
  moreover have "?t @ replicate (4 + n - length ?t) q = (?t @ replicate (4 - length ?t) q) @ replicate n q"
    using t by (simp flip: replicate_add)
  ultimately have "?t @ replicate (4 + n - length ?t) q = shard @ w" using w by simp
  then show ?thesis using t by simp
qed

lemma parse_step:
  "length p \<le> n \<Longrightarrow> parse_chunks h (b @ replicate n q) tail ((p, n) # z # zs) =
    parse_chunks h b (replicate (n - length p) q @ p @ tail) (z # zs)"
  by simp

lemma parse_pieces:
  assumes "length shard = 4"
  shows "length w = sum_list ns \<Longrightarrow>
    parse_chunks (length hrp) (hrp @ HRP_SEPARATOR # replicate (4 + sum_list ns) q) tail
      (zip (rev (pieces ns False w)) (rev ns) @ [(trim_end_matches q shard, m)]) =
    Some (Some (hrp @ HRP_SEPARATOR # shard @ w @ tail))"
proof (induction ns arbitrary: w tail rule: rev_induct)
  case Nil
  then show ?case using parse_pieces_base [of "[]" shard 0 hrp tail m] assms by simp
next
  case (snoc n ns)
  define w1 w2 where "w1 = take (sum_list ns) w" and "w2 = drop (sum_list ns) w"
  have w: "w = w1 @ w2" "length w1 = sum_list ns" "length w2 = n"
    using snoc.prems by (simp_all add: w1_def w2_def)
  show ?case
  proof (cases "\<forall>x\<in>set w. x = q")
    case True
    then have "pieces (ns @ [n]) False w = pieces ns False w1"
      using pieces_snoc [OF w(2), of n False w2] w by (auto simp: trim_start_matches_def)
    moreover have "pieces ns' False v = []" if "\<forall>x\<in>set v. x = q" for ns' v
      using that
    proof (induction ns' arbitrary: v)
      case (Cons k ns')
      have "\<forall>x\<in>set (take k v). x = q" "\<forall>x\<in>set (drop k v). x = q"
        using Cons.prems set_take_subset [of k v] set_drop_subset [of k v] by blast+
      with Cons.IH show ?case by (simp add: trim_start_matches_def)
    qed simp
    ultimately have "pieces (ns @ [n]) False w = []" using True by blast
    then show ?thesis
      using parse_pieces_base [OF True assms snoc.prems, of hrp tail m] by simp
  next
    case False
    define p where "p = (if \<exists>x\<in>set w1. x \<noteq> q then w2 else trim_start_matches q w2)"
    have nonempty: "trim_start_matches q w2 \<noteq> []" if "\<forall>x\<in>set w1. x = q"
      using False that w(1) by (auto simp: trim_start_matches_def)
    then have ps: "pieces (ns @ [n]) False w = pieces ns False w1 @ [p]"
      using pieces_snoc [OF w(2), of n False w2] w by (auto simp: p_def)
    have p: "length p \<le> n" "w2 = replicate (n - length p) q @ p"
      using trim_start_fill [of w2 q] length_trim(1) [of q w2] w(3) by (auto simp: p_def)
    have step: "parse_chunks (length hrp) (hrp @ HRP_SEPARATOR # replicate (4 + (sum_list ns + n)) q) tail
        ((p, n) # rest @ [y]) =
      parse_chunks (length hrp) (hrp @ HRP_SEPARATOR # replicate (4 + sum_list ns) q) (w2 @ tail)
        (rest @ [y])" for rest y
    proof -
      obtain z zs where z: "rest @ [y] = z # zs" by (cases rest) auto
      have "hrp @ HRP_SEPARATOR # replicate (4 + (sum_list ns + n)) q =
          (hrp @ HRP_SEPARATOR # replicate (4 + sum_list ns) q) @ replicate n q"
        by (simp only: append.assoc append_Cons add.assoc [symmetric] replicate_add)
      then have "parse_chunks (length hrp) (hrp @ HRP_SEPARATOR # replicate (4 + (sum_list ns + n)) q)
          tail ((p, n) # z # zs) =
        parse_chunks (length hrp) (hrp @ HRP_SEPARATOR # replicate (4 + sum_list ns) q)
          (replicate (n - length p) q @ p @ tail) (z # zs)"
        by (simp only: parse_step [OF p(1)])
      then show ?thesis unfolding z by (simp only: p(2) append.assoc append_Cons)
    qed
    from step [of "zip (rev (pieces ns False w1)) (rev ns)"] snoc.IH [OF w(2), of "w2 @ tail"] show ?thesis
      by (simp add: ps [unfolded w(1)] w(1))
  qed
qed

section \<open>Formatting and parsing\<close>

lemmas format_consts = FORMATTED_BUFFER_LEN_def MAX_HRP_LENGTH_def
  MAX_ENCODING_WITHOUT_HRP_WITH_SEPARATOR_def MAX_ENCODING_WITHOUT_HRP_NO_SEPARATOR_def
  FORMAT_SEPARATOR_INTERVAL_def FORMAT_CHECKSUM_LENGTH_def

definition formatted :: "u8 list \<Rightarrow> u8 list \<Rightarrow> u8 list \<Rightarrow> u8 list" where
  "formatted hrp data checksum =
    hrp @ HRP_SEPARATOR # trim_end_matches q (take 4 data) @ FORMAT_SEPARATOR #
      joined (pieces [4, 3, 4, 4, 3, 4] False (drop 4 data)) @ checksum"

lemma length_formatted:
  assumes "length data = 26" and "length checksum = 6"
  shows "length (formatted hrp data checksum) \<le> length hrp + 40"
    and "length (formatted hrp data checksum) = length hrp + 40 \<longleftrightarrow> data ! 3 \<noteq> q \<and> data ! 4 \<noteq> q"
proof -
  let ?ps = "joined (pieces [4, 3, 4, 4, 3, 4] False (drop 4 data))"
  let ?sh = "trim_end_matches q (take 4 data)"
  have ps: "length ?ps \<le> 28" "length ?ps = 28 \<longleftrightarrow> data ! 4 \<noteq> q"
    using length_joined_pieces_le [of "[4, 3, 4, 4, 3, 4]" "drop 4 data"]
      length_joined_pieces_eq [of 4 "[3, 4, 4, 3, 4]" "drop 4 data"] assms(1) by simp_all
  have sh: "length ?sh \<le> 4" using length_trim(2) [of q "take 4 data"] by simp
  have "take 4 data = take 3 data @ [data ! 3]"
    using take_Suc_conv_app_nth [of 3 data] assms(1) by simp
  then have sh_eq: "length ?sh = 4 \<longleftrightarrow> data ! 3 \<noteq> q"
    using length_trim(2) [of q "take 3 data"] assms(1)
    by (auto simp: trim_end_matches_def dropWhile_append)
  have len: "length (formatted hrp data checksum) = length hrp + 8 + length ?sh + length ?ps"
    using assms(2) by (simp add: formatted_def)
  show "length (formatted hrp data checksum) \<le> length hrp + 40" using len ps(1) sh by linarith
  show "length (formatted hrp data checksum) = length hrp + 40 \<longleftrightarrow> data ! 3 \<noteq> q \<and> data ! 4 \<noteq> q"
    using len ps sh sh_eq by linarith
qed

lemma address_format_eq:
  assumes "bech32_laws encode checked hrp (rev (to_le_bytes (u128_from_Address a))) data checksum"
    and "length hrp \<le> 5"
  shows "address_format encode a hrp =
    (if length (formatted hrp data checksum) \<le> 44 then Some (formatted hrp data checksum) else None)"
proof -
  let ?scratch = "hrp @ HRP_SEPARATOR # data @ checksum"
  let ?prefix = "hrp @ HRP_SEPARATOR # trim_end_matches q (take 4 data) @ [FORMAT_SEPARATOR]"
  have laws: "encode hrp (rev (to_le_bytes (u128_from_Address a))) = ?scratch"
    "length data = 26" "length checksum = 6" using assms(1) by (simp_all add: bech32_laws_def)
  have sep: "HRP_SEPARATOR \<noteq> q" by (simp add: HRP_SEPARATOR_def FORMAT_ALL_ZEROES_def)
  have split: "split_at (length hrp + 5) ?scratch = Some (hrp @ HRP_SEPARATOR # take 4 data, drop 4 data @ checksum)"
    "split_at 22 (drop 4 data @ checksum) = Some (drop 4 data, checksum)"
    using laws(2) by (simp_all add: split_at_def)
  have sh: "length (trim_end_matches q (take 4 data)) \<le> 4"
    using length_trim(2) [of q "take 4 data"] by simp
  have chunks: "format_chunks [4, 3, 4, 4, 3, 4] False (drop 4 data) ?prefix =
      (if length (?prefix @ joined (pieces [4, 3, 4, 4, 3, 4] False (drop 4 data))) \<le> 44
       then Some (?prefix @ joined (pieces [4, 3, 4, 4, 3, 4] False (drop 4 data))) else None)"
    by (rule format_chunks_eq) (use assms(2) sh laws(2) in simp_all)
  have "address_format encode a hrp =
      format_chunks [4, 3, 4, 4, 3, 4] False (drop 4 data) ?prefix \<bind> (\<lambda>b. format_write b checksum)"
    using laws split sh assms(2)
    by (simp add: address_format_def format_write_def format_consts Let_def trim_end_prefix [OF sep])
  also have "\<dots> = (if length (formatted hrp data checksum) \<le> 44
      then Some (formatted hrp data checksum) else None)"
    unfolding chunks by (auto simp: formatted_def format_write_def format_consts)
  finally show ?thesis .
qed

lemma address_parse_formatted:
  assumes "bech32_laws encode checked hrp (rev (to_le_bytes (u128_from_Address a))) data checksum"
    and "length hrp \<le> 5" and "HRP_SEPARATOR \<notin> set hrp"
  shows "address_parse checked (formatted hrp data checksum) = Some (Some (hrp, a))"
proof -
  let ?s = "formatted hrp data checksum" and ?ns = "[4, 3, 4, 4, 3, 4] :: nat list"
  let ?sh = "trim_end_matches q (take 4 data)"
  define ps where "ps = pieces ?ns False (drop 4 data)"
  define other where "other = joined (?sh # ps) @ checksum"
  have laws: "checked (hrp @ HRP_SEPARATOR # data @ checksum) = Some (hrp, rev (to_le_bytes (u128_from_Address a)))"
    "length data = 26" "length checksum = 6" "FORMAT_SEPARATOR \<notin> set data"
    "FORMAT_SEPARATOR \<notin> set checksum" using assms(1) by (auto simp: bech32_laws_def)
  have once: "split_once HRP_SEPARATOR ?s = Some (hrp, other)"
    unfolding formatted_def other_def ps_def [symmetric] using split_once_found [OF assms(3)] by simp
  have "FORMAT_SEPARATOR \<notin> set p" if "p \<in> set (?sh # ps)" for p
    using that set_pieces [of ?ns False "drop 4 data", folded ps_def] set_trim(2) [of q "take 4 data"]
      set_take_subset [of 4 data] set_drop_subset [of 4 data] laws(4)
    unfolding list.set by blast
  then have pieces: "rsplit FORMAT_SEPARATOR other = checksum # rev ps @ [?sh]"
    unfolding other_def using split_bytes_join [of "?sh # ps" FORMAT_SEPARATOR checksum] laws(5) by (simp add: rsplit_def)
  obtain m where zip: "zip (rev ps @ [?sh]) (rev ?ns @ [5]) = zip (rev ps) (rev ?ns) @ [(?sh, m)]"
    using zip_snoc [of "rev ps" "rev ?ns" ?sh 5] length_pieces [of ?ns False "drop 4 data", folded ps_def] by auto
  have "parse_chunks (length hrp) (hrp @ HRP_SEPARATOR # replicate (4 + sum_list ?ns) q) checksum
      (zip (rev ps) (rev ?ns) @ [(?sh, m)]) =
    Some (Some (hrp @ HRP_SEPARATOR # take 4 data @ drop 4 data @ checksum))"
    unfolding ps_def by (rule parse_pieces) (use laws(2) in simp_all)
  then have parsed: "parse_chunks (length hrp) (hrp @ HRP_SEPARATOR # replicate 26 q) checksum
      (zip (rev ps @ [?sh]) (rev FORMAT_SEPARATOR_INTERVAL)) =
    Some (Some (hrp @ HRP_SEPARATOR # data @ checksum))"
    using zip by (simp add: FORMAT_SEPARATOR_INTERVAL_def flip: append.assoc)
  have prefix: "take (Suc (length hrp)) ?s = hrp @ [HRP_SEPARATOR]" by (simp add: formatted_def)
  have "26 \<le> 43 - length hrp" using assms(2) by simp
  then show ?thesis
    using assms(2) laws(1,3) parsed
    by (simp add: address_parse_def once pieces prefix Let_def format_consts short_hrp_new_def
        from_le_bytes_to_le_bytes min_def)
qed

text \<open>Inputs that are not formatted addresses: a first chunk that is too long, and one too many.\<close>

lemma parse_long_shard_panics:
  assumes "length hrp \<le> 5" and "HRP_SEPARATOR \<notin> set hrp" and "26 < length shard"
    and "FORMAT_SEPARATOR \<notin> set shard" and "FORMAT_SEPARATOR \<notin> set checksum" and "length checksum = 6"
  shows "address_parse checked (hrp @ HRP_SEPARATOR # shard @ FORMAT_SEPARATOR # checksum) = None"
proof -
  define other where "other = shard @ FORMAT_SEPARATOR # checksum"
  have "rsplit FORMAT_SEPARATOR other = [checksum, shard]"
    using split_bytes_join [of "[shard]" FORMAT_SEPARATOR checksum] assms(4,5)
    by (simp add: rsplit_def other_def)
  moreover have "26 \<le> 43 - length hrp" using assms(1) by simp
  ultimately show ?thesis
    using split_once_found [OF assms(2), of other] assms(1,3,6)
    by (simp add: address_parse_def Let_def format_consts min_def flip: other_def)
qed

lemma parse_ignores_extra_chunk:
  assumes "HRP_SEPARATOR \<notin> set hrp" and "FORMAT_SEPARATOR \<notin> set extra" and "length ps = 7"
    and "\<forall>p\<in>set ps. FORMAT_SEPARATOR \<notin> set p" and "FORMAT_SEPARATOR \<notin> set checksum"
  shows "address_parse checked (hrp @ HRP_SEPARATOR # joined (extra # ps) @ checksum) =
    address_parse checked (hrp @ HRP_SEPARATOR # joined ps @ checksum)"
proof -
  define a b where "a = joined (extra # ps) @ checksum" and "b = joined ps @ checksum"
  have split: "split_bytes FORMAT_SEPARATOR a = (extra # ps) @ [checksum]"
    "split_bytes FORMAT_SEPARATOR b = ps @ [checksum]"
    unfolding a_def b_def using assms(2,4,5) by (intro split_bytes_join; simp)+
  have "zip (rev ps @ [extra]) [4, 3, 4, 4, 3, 4, 5] = zip (rev ps) [4, 3, 4, 4, 3, 4, 5 :: nat]"
    using assms(3) by (simp add: zip_append1)
  with split have "address_parse checked (hrp @ HRP_SEPARATOR # a) =
      address_parse checked (hrp @ HRP_SEPARATOR # b)"
    by (simp add: address_parse_def split_once_found [OF assms(1)] rsplit_def Let_def format_consts)
  then show ?thesis by (simp only: a_def b_def)
qed

section \<open>Properties\<close>

text \<open>
  C40: Parsing what was formatted gives back the address and its human-readable part, for every
  human-readable part of at most five characters without the digit one. Formatting fails in exactly
  one case: a human-readable part of five characters and an address of which nothing can be
  left out. The buffer is one character too short for it, and the code panics.
\<close>

theorem address_format_roundtrip:
  assumes "bech32_laws encode checked hrp (rev (to_le_bytes (u128_from_Address a))) data checksum"
    and "length hrp \<le> 5" and "HRP_SEPARATOR \<notin> set hrp"
  shows "case address_format encode a hrp of
      None \<Rightarrow> length hrp = 5 \<and> data ! 3 \<noteq> FORMAT_ALL_ZEROES \<and> data ! 4 \<noteq> FORMAT_ALL_ZEROES
    | Some s \<Rightarrow> \<not> (length hrp = 5 \<and> data ! 3 \<noteq> FORMAT_ALL_ZEROES \<and> data ! 4 \<noteq> FORMAT_ALL_ZEROES) \<and>
        address_parse checked s = Some (Some (hrp, a))"
proof -
  have "length data = 26" "length checksum = 6" using assms(1) by (simp_all add: bech32_laws_def)
  note len = length_formatted [OF this, of hrp]
  have "length (formatted hrp data checksum) \<le> 44 \<longleftrightarrow>
      \<not> (length hrp = 5 \<and> data ! 3 \<noteq> q \<and> data ! 4 \<noteq> q)"
    using len assms(2) by linarith
  then show ?thesis
    using address_format_eq [OF assms(1,2)] address_parse_formatted [OF assms] by simp
qed

definition demo_data :: "u8 list" where
  "demo_data = replicate 10 113 @ replicate 16 112"

definition demo_encode :: "u8 list \<Rightarrow> u8 list \<Rightarrow> u8 list" where
  "demo_encode hrp bytes = hrp @ HRP_SEPARATOR # demo_data @ replicate 6 120"

definition demo_checked :: "u8 list \<Rightarrow> (u8 list \<times> u8 list) option" where
  "demo_checked s = Some (takeWhile (\<lambda>c. c \<noteq> HRP_SEPARATOR) s, rev (to_le_bytes (u128_from_Address (Address 5 6))))"

theorem address_format_roundtrip_witness:
  "\<exists>s. address_format demo_encode (Address 5 6) [97, 98, 99] = Some s \<and>
    address_parse demo_checked s = Some (Some ([97, 98, 99], Address 5 6))"
proof -
  have "bech32_laws demo_encode demo_checked [97, 98, 99]
      (rev (to_le_bytes (u128_from_Address (Address 5 6)))) demo_data (replicate 6 120)"
    by (simp add: bech32_laws_def demo_encode_def demo_checked_def demo_data_def HRP_SEPARATOR_def
        FORMAT_SEPARATOR_def del: u128_from_Address.simps)
  from address_format_roundtrip [OF this] show ?thesis
    by (simp add: HRP_SEPARATOR_def split: option.splits)
qed

end
