(* ===== verification/Spec2Isabelle.thy ===== *)
theory Spec2Isabelle
  imports Rv64_B Slots_Store Merkle_Mmr Merkle_Sparse Num_Shards Address_Format
begin

text \<open>
  A verification library for the abundance repository, a blockchain whose contracts are RISC-V
  programs. The theories model the layers on which execution and consensus rest, bottom-up: the
  RISC-V interpreter, the storage a transaction works on, the addresses and shards, the hash
  function and the Merkle trees. Paths below are relative to src/crates/.

  \<^bold>\<open>How the parts interact.\<close> A contract is a RISC-V program over the registers of
  contracts/core/ab-contract-file. The interpreter (execution/ab-riscv-interpreter) fetches words
  from a memory, decodes them with the decoders of execution/ab-riscv-primitives and executes them;
  instruction sets are composed of extensions by a macro (execution/ab-riscv-macros). Contracts keep
  their state in slots (execution/ab-executor-slots), whose contents are reference-counted buffers
  (shared/ab-aligned-buffer) and whose keys are addresses (shared/ab-core-primitives), which a
  system contract (contracts/system/ab-system-contract-address-allocator) hands out per shard.
  Blocks commit to their contents with BLAKE3 (shared/ab-blake3) and Merkle trees
  (shared/ab-merkle-tree); farmers are assigned to shards by hashes (shard.rs, nano_u256.rs).

  \<^bold>\<open>Conventions.\<close> A Rust integer of width \<open>w\<close> is a \<open>w word\<close>, with wrapping, checked and saturating
  operations as in Rust (\<open>Prelude\<close>). A function that may panic, or whose safety condition may
  fail, returns an option, \<open>None\<close> for the panic; a \<open>Result\<close> is a sum with the error on the left, and
  a \<open>&mut\<close> argument is returned next to the result. A trait is a locale whose laws are its
  documented contract, interpreted on the model of each implementation; a trait used as data (an
  instruction set, a system instruction handler) is a record of its methods. Loops are recursive
  functions with termination proofs. The interpreter's loop, which need not end, is a
  \<open>partial_function\<close> with a fuelled twin; the recursion of BLAKE3 over subtrees is one too, and that
  they return is part of the statements about them.

  \<^bold>\<open>RISC-V primitives and interpreter.\<close>
  \<^item> \<open>Riscv_Registers\<close> (registers/general_purpose.rs, basic.rs, instruction.rs of the contract file):
    the register enumerations, their numbering, and register files in which register zero reads
    as zero.
  \<^item> \<open>Riscv_Memory\<close> (basic.rs, lib.rs): \<open>BasicMemory\<close> with its bounds checks, against a map from
    addresses to bytes.
  \<^item> \<open>Riscv_Utils\<close>, \<open>Riscv_Formats\<close> (instructions/utils.rs): 24-bit immediates, the fields of an
    instruction word, and reference encoders of the formats of the ISA manual.
  \<^item> \<open>Rv64_Decode\<close> (instructions/rv64.rs): the base instruction set; its decoder accepts exactly the
    manual's encodings.
  \<^item> \<open>Riscv_Machine\<close> (lib.rs, basic.rs): program counter, fetching, errors, the loop of \<open>execute\<close>.
  \<^item> \<open>Rv64_Exec\<close> (interpreter rv64.rs): one equation per instruction. Shown: every instruction returns
    the integer the manual defines; an iteration executes the instruction at the program counter;
    straight-line programs run to their end; any run keeps the machine well-formed; only stores
    change memory, and a load returns what was stored.
  \<^item> \<open>Rv64_M\<close> (rv64/m.rs): multiplication and division against integer arithmetic.
  \<^item> \<open>Rv64_B\<close> (rv64/b/, zicond.rs, and the \<open>inherit\<close> of the macro): Zba, Zbb, Zbs, Zbc and Zicond
    against a description bit by bit, and the composition of instruction sets: the composed decoder
    reads no word in two ways.

  \<^bold>\<open>Storage of the executor.\<close>
  \<^item> \<open>Aligned_Buffer\<close> (ab-aligned-buffer/src/lib.rs): owned and shared buffers over a heap of
    reference-counted allocations; every program over them is memory safe, leaks nothing and
    computes what it computes on plain byte strings.
  \<^item> \<open>Slots\<close>, \<open>Slots_Store\<close> (ab-executor-slots/src/lib.rs): the slots of a transaction, nested views,
    accesses and their reset, as an inductive relation of steps with its invariant. The slots
    implement a store from keys to bytes, writing is exclusive, a reset restores, and no panic is
    reachable as long as resets happen only above views that began without slots in use; the four
    cases in which the code departs from its intention are theorems as well.

  \<^bold>\<open>Addresses and shards.\<close>
  \<^item> \<open>Address\<close> (shard.rs, address.rs, the address allocator contract): the hierarchy of shards, the
    layout of addresses, and an allocator that never hands out an address twice.
  \<^item> \<open>Address_Format\<close> (address.rs): parsing and formatting. The bech32m encoding is an external
    crate; encoder and checker are parameters related by the predicate \<open>bech32_laws\<close>.
  \<^item> \<open>Num_Shards\<close> (shard.rs, nano_u256.rs): numbers of shards and the derivation of shard indices.

  \<^bold>\<open>Hashing and Merkle trees.\<close>
  \<^item> \<open>Rust_Slices\<close>: slices, chunks and array conversions with their panics.
  \<^item> \<open>Blake3\<close> (ab-blake3/src/): compression, chunk and tree hashing; the const functions compute the
    tree hash of the BLAKE3 paper, and the single-block and single-chunk functions agree with it.
  \<^item> \<open>Bit_Counts\<close>, \<open>Merkle\<close>, \<open>Merkle_Unbalanced\<close>, \<open>Merkle_Mmr\<close>, \<open>Merkle_Balanced\<close>, \<open>Merkle_Sparse\<close>
    (ab-merkle-tree/src/): the stacks of the tree algorithms are binary counters of complete trees.
    Roots equal those of reference trees, proofs are accepted, an accepted proof is the right one
    or a collision of the hash function is exhibited, and the batch, incremental and plain variants
    agree.

  \<^bold>\<open>Bounds and parameters.\<close> The fuel of a run is the number of iterations of the loop; \<open>execute\<close> returns
  if and only if some fuel is enough (\<open>execute_eq_Some_iff\<close>), and \<open>rv64_program_returns\<close> shows that it
  returns. Numbers of leaves are bounded by the 64-bit counters of the code, sparse trees by
  depth 128. The compression functions of the \<open>blake3\<close> crate are a parameter with the laws of the
  locale \<open>blake3_platform\<close>, interpreted on the portable functions of the repository.

  \<^bold>\<open>Findings.\<close> Departures of the code from its documentation that the model shows are stated as
  theorems next to the correctness properties: \<open>nested_reset_breaks_caller\<close>,
  \<open>read_only_slot_becomes_writable\<close>, \<open>new_contract_opens_foreign_slots\<close>, \<open>slots_iter_result\<close>,
  \<open>address_ref_eq_confuses_shards\<close>, \<open>mmr_peaks_roundtrip\<close>, \<open>mmr_bytes_roundtrip\<close>,
  \<open>sparse_verify_empty\<close>, \<open>leaf_shards_enumerated\<close>, \<open>address_format_roundtrip\<close>,
  \<open>parse_long_shard_panics\<close>, \<open>parse_ignores_extra_chunk\<close>, \<open>from_peaks_accepts\<close>.

  \<^bold>\<open>Not modelled.\<close>
  \<^item> RV32, the compressed (Zca, Zcb, Zcmp), cryptographic (Zk) and vector extensions, control and
    status registers, and the options \<open>ignore\<close> and \<open>reorder\<close> of the macro: further instruction sets
    of the same kind. The textual form of instructions (\<open>Display\<close>) has no effect on execution.
  \<^item> The target-specific branches of helpers (intrinsics of aarch64, x86-64 and RISC-V), whose
    semantics is outside the sources.
  \<^item> The macros as programs on Rust syntax trees, and the contract macros and interfaces
    (ab-contracts-common, -macros, -standards), which produce code by metaprogramming over raw
    pointers.
  \<^item> ab-executor-native, the remaining system contracts and the example contracts, which go through
    the code these macros generate.
  \<^item> Archiving, erasure coding, proofs of space and of time, data retrieval, networking, the farmer,
    the node and its database, and the code under subspace/: they consist of concurrent and
    asynchronous code over external crates, of disk and network I/O, or of GPU code.
  \<^item> Derived implementations (formatting, serialisation, hashing) of the modelled types.
\<close>

end
